(* ===== verification/Prelude.thy ===== *)
theory Prelude
  imports
    Main
    "HOL-Library.Word"
    "HOL-Library.Monad_Syntax"
    "HOL-Library.Product_Lexorder"
    "HOL-Library.Code_Target_Nat"
begin

text \<open>
  Shared vocabulary of the development: the machine integers of the Rust code as words,
  byte strings, the slice and integer operations of the Rust core library that the sources
  use, and the generic lemmas on lists, options and words the components share.

  Conventions. A Rust \<^verbatim>\<open>u8/u16/u32/u64\<close> is a word of that width. A \<^verbatim>\<open>usize\<close> that is a
  position in, or the length of, a slice is a \<^typ>\<open>nat\<close>: slices have fewer than
  \<open>2 ^ 63\<close> bytes, so in-range positions never wrap, and where the code adds an untrusted
  number to a position the addition is written as \<open>checked_add\<close> (the Rust
  \<^verbatim>\<open>checked_add\<close>) or \<open>wadd\<close> (plain \<^verbatim>\<open>+\<close>, which wraps in the release profile the
  Makefile builds). \<^verbatim>\<open>Option<T>\<close> is \<^typ>\<open>'a option\<close> and the \<^verbatim>\<open>?\<close> operator is its bind.
\<close>

unbundle bit_operations_syntax

type_synonym u8 = "8 word"
type_synonym u16 = "16 word"
type_synonym u32 = "32 word"
type_synonym u64 = "64 word"
type_synonym bytes = "8 word list"

named_theorems le_simps \<open>little-endian encodings\<close>
named_theorems slice_simps \<open>checked slicing\<close>

declare Option.bind_cong [fundef_cong]

lemmas bind_simps = Option.bind_eq_Some_conv Option.bind_eq_None_conv

lemma bind_pair_Some:
  "(r \<bind> (\<lambda>(a, c). f a c)) = Some z \<longleftrightarrow> (\<exists>a c. r = Some (a, c) \<and> f a c = Some z)"
  by (auto simp: bind_simps)

section \<open>usize arithmetic\<close>

definition usize_max :: nat where
  "usize_max = 2 ^ 64 - 1"

definition checked_add :: "nat \<Rightarrow> nat \<Rightarrow> nat option" where
  "checked_add a b = (if a + b \<le> usize_max then Some (a + b) else None)"

definition checked_sub :: "nat \<Rightarrow> nat \<Rightarrow> nat option" where
  "checked_sub a b = (if b \<le> a then Some (a - b) else None)"

definition checked_mul :: "nat \<Rightarrow> nat \<Rightarrow> nat option" where
  "checked_mul a b = (if a * b \<le> usize_max then Some (a * b) else None)"

definition wadd :: "nat \<Rightarrow> nat \<Rightarrow> nat" where
  "wadd a b = (a + b) mod 2 ^ 64"

definition wmul :: "nat \<Rightarrow> nat \<Rightarrow> nat" where
  "wmul a b = (a * b) mod 2 ^ 64"

definition saturating_add :: "nat \<Rightarrow> nat \<Rightarrow> nat" where
  "saturating_add a b = min (a + b) usize_max"

lemma checked_add_Some [simp]:
  "checked_add a b = Some c \<longleftrightarrow> a + b \<le> usize_max \<and> c = a + b"
  by (auto simp: checked_add_def)

lemma checked_add_None [simp]: "checked_add a b = None \<longleftrightarrow> usize_max < a + b"
  by (auto simp: checked_add_def)

lemma checked_sub_Some [simp]: "checked_sub a b = Some c \<longleftrightarrow> b \<le> a \<and> c = a - b"
  by (auto simp: checked_sub_def)

lemma checked_mul_Some [simp]:
  "checked_mul a b = Some c \<longleftrightarrow> a * b \<le> usize_max \<and> c = a * b"
  by (auto simp: checked_mul_def)

lemma wadd_less [simp]: "wadd a b < 2 ^ 64"
  by (simp add: wadd_def)

lemma wadd_exact: "a + b < 2 ^ 64 \<Longrightarrow> wadd a b = a + b"
  by (simp add: wadd_def)

section \<open>Slices\<close>

text \<open>\<open>slice_get xs a b\<close> is \<^verbatim>\<open>xs.get(a..b)\<close>, \<open>slice_from xs a\<close> is \<^verbatim>\<open>xs.get(a..)\<close> and
  \<open>nth_opt\<close> is \<^verbatim>\<open>xs.get(i)\<close>: all three refuse what is out of range.\<close>

definition slice_get :: "'a list \<Rightarrow> nat \<Rightarrow> nat \<Rightarrow> 'a list option" where
  "slice_get xs a b = (if a \<le> b \<and> b \<le> length xs then Some (take (b - a) (drop a xs)) else None)"

definition slice_from :: "'a list \<Rightarrow> nat \<Rightarrow> 'a list option" where
  "slice_from xs a = (if a \<le> length xs then Some (drop a xs) else None)"

definition nth_opt :: "'a list \<Rightarrow> nat \<Rightarrow> 'a option" where
  "nth_opt xs i = (if i < length xs then Some (xs ! i) else None)"

lemma slice_get_Some [simp]:
  "slice_get xs a b = Some ys \<longleftrightarrow> a \<le> b \<and> b \<le> length xs \<and> ys = take (b - a) (drop a xs)"
  by (auto simp: slice_get_def)

lemma slice_from_Some [simp]:
  "slice_from xs a = Some ys \<longleftrightarrow> a \<le> length xs \<and> ys = drop a xs"
  by (auto simp: slice_from_def)

lemma nth_opt_Some [simp]: "nth_opt xs i = Some x \<longleftrightarrow> i < length xs \<and> x = xs ! i"
  by (auto simp: nth_opt_def)

lemma nth_opt_None [simp]: "nth_opt xs i = None \<longleftrightarrow> length xs \<le> i"
  by (auto simp: nth_opt_def)

lemma slice_get_length: "slice_get xs a b = Some ys \<Longrightarrow> length ys = b - a"
  by auto

lemma slice_get_middle [slice_simps]:
  "slice_get (pre @ ys @ suf) (length pre) (length pre + length ys) = Some ys"
  by simp

text \<open>\<open>position P xs\<close> is \<^verbatim>\<open>xs.iter().position(P)\<close>.\<close>

fun position :: "('a \<Rightarrow> bool) \<Rightarrow> 'a list \<Rightarrow> nat option" where
  "position P [] = None"
| "position P (x # xs) = (if P x then Some 0 else map_option Suc (position P xs))"

lemma position_Some:
  "position P xs = Some n \<Longrightarrow> n < length xs \<and> P (xs ! n) \<and> (\<forall>i<n. \<not> P (xs ! i))"
  by (induction xs arbitrary: n) (auto split: if_splits simp: nth_Cons split: nat.splits)

lemma position_None: "position P xs = None \<longleftrightarrow> (\<forall>x\<in>set xs. \<not> P x)"
  by (induction xs) auto

lemma position_append_hit:
  "\<forall>x\<in>set xs. \<not> P x \<Longrightarrow> P y \<Longrightarrow> position P (xs @ y # ys) = Some (length xs)"
  by (induction xs) auto

text \<open>\<open>partition_point P xs\<close> is \<^verbatim>\<open>xs.partition_point(P)\<close>: on a slice partitioned by \<open>P\<close>
  (every use below is on a table sorted by the key \<open>P\<close> tests) the index of the first
  element that fails \<open>P\<close>.\<close>

definition partition_point :: "('a \<Rightarrow> bool) \<Rightarrow> 'a list \<Rightarrow> nat" where
  "partition_point P xs = length (takeWhile P xs)"

lemma partition_point_le [simp]: "partition_point P xs \<le> length xs"
  by (simp add: partition_point_def length_takeWhile_le)

lemma partition_point_below: "i < partition_point P xs \<Longrightarrow> P (xs ! i)"
  unfolding partition_point_def by (metis nth_mem set_takeWhileD takeWhile_nth)

lemma partition_point_at: "partition_point P xs < length xs \<Longrightarrow> \<not> P (xs ! partition_point P xs)"
  unfolding partition_point_def by (rule nth_length_takeWhile)

text \<open>\<open>resize xs n x\<close> is \<^verbatim>\<open>Vec::resize\<close>: truncate or pad to length \<open>n\<close>.\<close>

definition resize :: "'a list \<Rightarrow> nat \<Rightarrow> 'a \<Rightarrow> 'a list" where
  "resize xs n x = take n xs @ replicate (n - length xs) x"

lemma length_resize [simp]: "length (resize xs n x) = n"
  by (simp add: resize_def)

text \<open>\<open>dedup\<close> is \<^verbatim>\<open>Vec::dedup\<close>: drop each element equal to its predecessor.\<close>

definition dedup :: "'a list \<Rightarrow> 'a list" where
  "dedup = remdups_adj"

lemma set_dedup [simp]: "set (dedup xs) = set xs"
  by (simp add: dedup_def)

lemma sorted_dedup_distinct:
  fixes xs :: "'a::linorder list"
  shows "sorted xs \<Longrightarrow> sorted (dedup xs) \<and> distinct (dedup xs)"
  unfolding dedup_def
  by (induction xs rule: remdups_adj.induct) (auto simp: order.order_iff_strict)

section \<open>Little-endian integers\<close>

text \<open>\<open>word_of_le\<close> is \<^verbatim>\<open>uN::from_le_bytes\<close> and \<open>le_of_word n\<close> the first \<open>n\<close> bytes of
  \<^verbatim>\<open>uN::to_le_bytes\<close>.\<close>

primrec word_of_le :: "bytes \<Rightarrow> 'a::len word" where
  "word_of_le [] = 0"
| "word_of_le (b # bs) = ucast b OR push_bit 8 (word_of_le bs)"

definition le_of_word :: "nat \<Rightarrow> 'a::len word \<Rightarrow> bytes" where
  "le_of_word n w = map (\<lambda>i. ucast (drop_bit (8 * i) w)) [0..<n]"

text \<open>The same value in integer arithmetic, which evaluates faster.\<close>

primrec le_int :: "bytes \<Rightarrow> int" where
  "le_int [] = 0"
| "le_int (b # bs) = uint b + 256 * le_int bs"

lemma word_of_le_int [code]: "(word_of_le bs :: 'a::len word) = word_of_int (le_int bs)"
proof (induction bs)
  case (Cons b bs)
  have "ucast b OR push_bit 8 (word_of_le bs :: 'a word) = ucast b + push_bit 8 (word_of_le bs)"
  proof (rule disjunctive_add_eq_or [symmetric], rule bit_word_eqI)
    fix n assume "n < LENGTH('a)"
    show "bit (ucast b AND push_bit 8 (word_of_le bs) :: 'a word) n = bit (0 :: 'a word) n"
      by (cases "n < 8") (auto simp: bit_simps dest: bit_imp_le_length)
  qed
  also have "\<dots> = word_of_int (uint b) + word_of_int (256 * le_int bs)"
    by (simp add: Cons push_bit_eq_mult mult.commute of_int_uint)
  finally show ?case by simp
qed simp

lemma length_le_of_word [simp]: "length (le_of_word n w) = n"
  by (simp add: le_of_word_def)

lemma bit_word_of_le:
  "bit (word_of_le bs :: 'a::len word) k \<longleftrightarrow>
     k < LENGTH('a) \<and> k div 8 < length bs \<and> bit (bs ! (k div 8)) (k mod 8)"
proof (induction bs arbitrary: k)
  case Nil
  then show ?case by simp
next
  case (Cons b bs)
  show ?case
  proof (cases "k < 8")
    case True
    then show ?thesis by (auto simp: bit_simps)
  next
    case False
    then obtain m where k: "k = m + 8" by (metis add.commute le_Suc_ex not_less)
    have "\<not> bit b k" using False by (simp add: bit_word.rep_eq not_less)
    moreover have "(m + 8) div 8 = Suc (m div 8)" by simp
    ultimately show ?thesis
      by (auto simp: k bit_simps Cons.IH)
  qed
qed

lemma le_of_word_of_le [le_simps]:
  assumes "8 * length bs \<le> LENGTH('a::len)"
  shows "le_of_word (length bs) (word_of_le bs :: 'a word) = bs"
proof (rule nth_equalityI)
  fix i assume "i < length (le_of_word (length bs) (word_of_le bs :: 'a word))"
  then have i: "i < length bs" by simp
  show "le_of_word (length bs) (word_of_le bs :: 'a word) ! i = bs ! i"
  proof (rule bit_word_eqI)
    fix k assume "k < LENGTH(8)"
    then have k: "k < 8" by simp
    then have "8 * i + k < LENGTH('a)" using i assms by linarith
    with i k show "bit (le_of_word (length bs) (word_of_le bs :: 'a word) ! i) k = bit (bs ! i) k"
      by (simp add: le_of_word_def bit_simps bit_word_of_le)
  qed
qed simp

lemma word_of_le_of_word [le_simps]:
  assumes "LENGTH('a::len) \<le> 8 * n"
  shows "word_of_le (le_of_word n w) = (w :: 'a word)"
proof (rule bit_word_eqI)
  fix k assume k: "k < LENGTH('a)"
  then have "k div 8 < n" using assms by (simp add: less_mult_imp_div_less)
  with k show "bit (word_of_le (le_of_word n w) :: 'a word) k = bit w k"
    by (simp add: bit_word_of_le le_of_word_def bit_simps)
qed

lemma take_le_of_word [le_simps]: "m \<le> n \<Longrightarrow> take m (le_of_word n w) = le_of_word m w"
  by (simp add: le_of_word_def take_map)

lemma unat_word_of_le_less: "unat (word_of_le bs :: 'a::len word) < 256 ^ length bs"
proof (cases "8 * length bs < LENGTH('a)")
  case True
  have "take_bit (8 * length bs) (word_of_le bs :: 'a word) = word_of_le bs"
    by (rule bit_word_eqI) (auto simp: bit_simps bit_word_of_le less_mult_imp_div_less)
  then have "unat (word_of_le bs :: 'a word) = take_bit (8 * length bs) (unat (word_of_le bs :: 'a word))"
    by (metis unsigned_take_bit_eq)
  then have "unat (word_of_le bs :: 'a word) < 2 ^ (8 * length bs)"
    by (metis take_bit_nat_less_exp)
  then show ?thesis by (simp add: power_mult)
next
  case False
  have "unat (word_of_le bs :: 'a word) < 2 ^ LENGTH('a)" by simp
  also have "\<dots> \<le> 2 ^ (8 * length bs)" using False by (intro power_increasing) auto
  finally show ?thesis by (simp add: power_mult)
qed

lemma unat_ucast_up:
  assumes "LENGTH('a::len) \<le> LENGTH('b::len)"
  shows "unat (ucast (w :: 'a word) :: 'b word) = unat w"
proof -
  have "unat w < 2 ^ LENGTH('a)" by simp
  also have "(2 :: nat) ^ LENGTH('a) \<le> 2 ^ LENGTH('b)" using assms by (intro power_increasing) auto
  finally show ?thesis by (simp add: unsigned_ucast_eq take_bit_nat_eq_self)
qed

lemma ucast_down_up [simp]:
  assumes "LENGTH('a::len) \<le> LENGTH('b::len)"
  shows "(ucast (ucast (w :: 'a word) :: 'b word) :: 'a word) = w"
  using assms by (intro bit_word_eqI) (auto simp: bit_simps)

section \<open>Sorted tables\<close>

text \<open>\<open>lookback k P i\<close> is \<^verbatim>\<open>for j in (i.saturating_sub(k)..i).rev() { if P(j) { return j } }\<close>.\<close>

definition lookback :: "nat \<Rightarrow> (nat \<Rightarrow> bool) \<Rightarrow> nat \<Rightarrow> nat option" where
  "lookback k P i = find P (rev [i - k..<i])"

lemma lookback_Some: "lookback k P i = Some j \<Longrightarrow> j < i \<and> i \<le> j + k \<and> P j"
  by (auto simp: lookback_def find_Some_iff rev_nth less_diff_conv)

lemma lookback_None: "lookback k P i = None \<longleftrightarrow> (\<forall>j. j < i \<longrightarrow> i \<le> j + k \<longrightarrow> \<not> P j)"
  by (auto simp: lookback_def find_None_iff)

lemma lookback_last: "0 < k \<Longrightarrow> P i \<Longrightarrow> lookback k P (Suc i) = Some i"
  by (simp add: lookback_def Suc_diff_le)

text \<open>The contract every address table of the program relies on: its entries are sorted by a
  key, and \<^verbatim>\<open>partition_point(|e| key(e) <= k)\<close> followed by one step back finds the last
  entry whose key is at most \<open>k\<close>.\<close>

locale sorted_table =
  fixes key :: "'e \<Rightarrow> 'k::linorder" and tbl :: "'e list"
  assumes sorted_key: "sorted (map key tbl)"
begin

lemma below_iff:
  assumes "i < length tbl"
  shows "i < partition_point (\<lambda>e. key e \<le> k) tbl \<longleftrightarrow> key (tbl ! i) \<le> k"
proof
  assume "i < partition_point (\<lambda>e. key e \<le> k) tbl"
  then show "key (tbl ! i) \<le> k" by (rule partition_point_below)
next
  assume le: "key (tbl ! i) \<le> k"
  show "i < partition_point (\<lambda>e. key e \<le> k) tbl"
  proof (rule ccontr)
    let ?p = "partition_point (\<lambda>e. key e \<le> k) tbl"
    assume "\<not> i < ?p"
    then have "?p \<le> i" by simp
    then have "\<not> key (tbl ! ?p) \<le> k" and "key (tbl ! ?p) \<le> key (tbl ! i)"
      using assms partition_point_at [of "\<lambda>e. key e \<le> k" tbl] sorted_key
      by (auto simp: sorted_iff_nth_mono)
    with le show False by auto
  qed
qed

lemma last_below:
  assumes "partition_point (\<lambda>e. key e \<le> k) tbl = Suc j"
  shows "j < length tbl" and "key (tbl ! j) \<le> k"
    and "e \<in> set tbl \<Longrightarrow> key e \<le> k \<Longrightarrow> key e \<le> key (tbl ! j)"
proof -
  show j: "j < length tbl"
    using assms partition_point_le [of "\<lambda>e. key e \<le> k" tbl] by simp
  then show "key (tbl ! j) \<le> k"
    using assms below_iff [of j k] by simp
  assume "e \<in> set tbl" and "key e \<le> k"
  then obtain i where i: "i < length tbl" "tbl ! i = e" by (auto simp: in_set_conv_nth)
  with \<open>key e \<le> k\<close> below_iff [of i k] assms have "i \<le> j" by simp
  with i j sorted_key show "key e \<le> key (tbl ! j)"
    by (auto simp: sorted_iff_nth_mono)
qed

lemma none_below:
  assumes "partition_point (\<lambda>e. key e \<le> k) tbl = 0" and "e \<in> set tbl"
  shows "k < key e"
  using assms below_iff [of _ k] by (metis in_set_conv_nth less_nat_zero_code not_le)


lemma covering_is_last:
  assumes disj: "\<And>i j. i < j \<Longrightarrow> j < length tbl \<Longrightarrow> hi (tbl ! i) \<le> key (tbl ! j)"
    and j: "j < length tbl" "key (tbl ! j) \<le> k" "k < hi (tbl ! j)"
  shows "partition_point (\<lambda>e. key e \<le> k) tbl = Suc j"
proof (rule antisym)
  let ?p = "partition_point (\<lambda>e. key e \<le> k) tbl"
  show "?p \<le> Suc j"
  proof (rule ccontr)
    assume "\<not> ?p \<le> Suc j"
    then have "Suc j < ?p" "Suc j < length tbl"
      using partition_point_le [of "\<lambda>e. key e \<le> k" tbl] by linarith+
    then have "key (tbl ! Suc j) \<le> k" using below_iff by blast
    with disj [of j "Suc j"] j \<open>Suc j < length tbl\<close> show False by auto
  qed
  show "Suc j \<le> ?p" using below_iff [of j k] j by simp
qed

text \<open>On ranges that do not overlap, the bounded search back from the partition point finds the
  covering range whenever there is one.\<close>

lemma lookback_exact:
  assumes disj: "\<And>i j. i < j \<Longrightarrow> j < length tbl \<Longrightarrow> hi (tbl ! i) \<le> key (tbl ! j)" and n: "0 < n"
  shows "lookback n (\<lambda>j. key (tbl ! j) \<le> k \<and> k < hi (tbl ! j)) (partition_point (\<lambda>e. key e \<le> k) tbl) = Some j
    \<longleftrightarrow> j < length tbl \<and> key (tbl ! j) \<le> k \<and> k < hi (tbl ! j)" (is "?L \<longleftrightarrow> ?R")
proof
  assume ?L
  from lookback_Some [OF this] show ?R
    using order.strict_trans2 [OF _ partition_point_le [of "\<lambda>e. key e \<le> k" tbl]] by auto
next
  assume R: ?R
  then have "partition_point (\<lambda>e. key e \<le> k) tbl = Suc j"
    using covering_is_last [where hi = hi and j = j and k = k] disj by blast
  with R n show ?L by (simp add: lookback_last)
qed

end

end
