(* ===== verification/Dwarf_Reader.thy ===== *)
theory Dwarf_Reader
  imports Prelude
begin

text \<open>
  The byte cursor of \<^verbatim>\<open>vock/src/dwarf/reader.rs\<close>: \<open>cur\<close> is \<^verbatim>\<open>Cur\<close>, \<open>val\<close> is \<^verbatim>\<open>Val\<close>,
  \<open>unit_shape\<close> is \<^verbatim>\<open>UnitShape\<close>, and each method of \<^verbatim>\<open>Cur\<close> is a function from a cursor to
  an optional result and the advanced cursor. A failing read returns \<^const>\<open>None\<close>; every
  caller abandons the cursor then, so the position a failed Rust read leaves behind is not
  part of the model. An \<^verbatim>\<open>i64\<close> is a \<^typ>\<open>64 word\<close> read with \<open>sint\<close>.

  Shown here: every read stays inside the section and never moves backwards (locales
  \<open>reader\<close> and \<open>strict_reader\<close>, interpreted for every method), the scalars invert the
  little-endian encoding, and the LEB128 readers compute the value of the groups they read.
\<close>

datatype val =
    VNone
  | Addr u64
  | Udata u64
  | Sdata u64
  | Flag
  | Str bytes
  | Strp nat
  | LineStrp nat
  | Strx u64
  | Ref nat
  | SecOff nat
  | Addrx u64
  | Rnglistx u64
  | Block

record cur =
  cur_data :: bytes
  cur_pos :: nat

definition cur_new :: "bytes \<Rightarrow> nat \<Rightarrow> cur" where
  "cur_new d p = \<lparr>cur_data = d, cur_pos = p\<rparr>"

definition cur_at_end :: "cur \<Rightarrow> bool" where
  "cur_at_end c \<longleftrightarrow> length (cur_data c) \<le> cur_pos c"

definition cur_skip :: "nat \<Rightarrow> cur \<Rightarrow> (unit \<times> cur) option" where
  "cur_skip n c = do {
     np \<leftarrow> checked_add (cur_pos c) n;
     if length (cur_data c) < np then None else Some ((), c\<lparr>cur_pos := np\<rparr>) }"

definition cur_bytes :: "nat \<Rightarrow> cur \<Rightarrow> (bytes \<times> cur) option" where
  "cur_bytes n c = do {
     e \<leftarrow> checked_add (cur_pos c) n;
     s \<leftarrow> slice_get (cur_data c) (cur_pos c) e;
     Some (s, c\<lparr>cur_pos := cur_pos c + n\<rparr>) }"

definition cur_u8 :: "cur \<Rightarrow> (u8 \<times> cur) option" where
  "cur_u8 c = do {
     b \<leftarrow> nth_opt (cur_data c) (cur_pos c);
     Some (b, c\<lparr>cur_pos := cur_pos c + 1\<rparr>) }"

definition cur_u16 :: "cur \<Rightarrow> (u16 \<times> cur) option" where
  "cur_u16 c = do { (b, c) \<leftarrow> cur_bytes 2 c; Some (word_of_le b, c) }"

definition cur_u24 :: "cur \<Rightarrow> (u32 \<times> cur) option" where
  "cur_u24 c = do { (b, c) \<leftarrow> cur_bytes 3 c; Some (word_of_le (b @ [0]), c) }"

definition cur_u32 :: "cur \<Rightarrow> (u32 \<times> cur) option" where
  "cur_u32 c = do { (b, c) \<leftarrow> cur_bytes 4 c; Some (word_of_le b, c) }"

definition cur_u64 :: "cur \<Rightarrow> (u64 \<times> cur) option" where
  "cur_u64 c = do { (b, c) \<leftarrow> cur_bytes 8 c; Some (word_of_le b, c) }"

text \<open>The signed byte is returned sign-extended to 64 bits, as its only caller
  (\<^verbatim>\<open>i64::from(c.i8()?)\<close>) uses it.\<close>

definition cur_i8 :: "cur \<Rightarrow> (u64 \<times> cur) option" where
  "cur_i8 c = do { (b, c) \<leftarrow> cur_u8 c; Some (scast b, c) }"

text \<open>The two LEB128 loops: \<open>result\<close> and \<open>shift\<close> are the loop variables. The loop gives up
  once \<open>shift\<close> passes 70, so it reads at most eleven bytes.\<close>

function uleb_loop :: "cur \<Rightarrow> u64 \<Rightarrow> nat \<Rightarrow> (u64 \<times> cur) option" where
  "uleb_loop c result shift = do {
     (b, c) \<leftarrow> cur_u8 c;
     let result = (if shift < 64 then result OR push_bit shift (ucast (b AND 0x7f)) else result);
     let shift = shift + 7;
     if b AND 0x80 = 0 then Some (result, c)
     else if 70 < shift then None
     else uleb_loop c result shift }"
  by pat_completeness auto
termination
  by (relation "measure (\<lambda>(c, r, s). 78 - s)") auto

declare uleb_loop.simps [simp del]

definition cur_uleb :: "cur \<Rightarrow> (u64 \<times> cur) option" where
  "cur_uleb c = uleb_loop c 0 0"

function sleb_loop :: "cur \<Rightarrow> u64 \<Rightarrow> nat \<Rightarrow> (u64 \<times> cur) option" where
  "sleb_loop c result shift = do {
     (b, c) \<leftarrow> cur_u8 c;
     let result = (if shift < 64 then result OR push_bit shift (ucast (b AND 0x7f)) else result);
     let shift = shift + 7;
     if b AND 0x80 = 0
     then Some (if shift < 64 \<and> b AND 0x40 \<noteq> 0 then result OR push_bit shift (- 1) else result, c)
     else if 70 < shift then None
     else sleb_loop c result shift }"
  by pat_completeness auto
termination
  by (relation "measure (\<lambda>(c, r, s). 78 - s)") auto

declare sleb_loop.simps [simp del]

definition cur_sleb :: "cur \<Rightarrow> (u64 \<times> cur) option" where
  "cur_sleb c = sleb_loop c 0 0"

definition cur_off :: "bool \<Rightarrow> cur \<Rightarrow> (nat \<times> cur) option" where
  "cur_off format64 c =
     (if format64 then do { (v, c) \<leftarrow> cur_u64 c; Some (unat v, c) }
      else do { (v, c) \<leftarrow> cur_u32 c; Some (unat v, c) })"

definition cur_addr :: "u8 \<Rightarrow> cur \<Rightarrow> (u64 \<times> cur) option" where
  "cur_addr sz c =
     (if sz = 8 then cur_u64 c
      else if sz = 4 then do { (v, c) \<leftarrow> cur_u32 c; Some (ucast v, c) }
      else if sz = 2 then do { (v, c) \<leftarrow> cur_u16 c; Some (ucast v, c) }
      else if sz = 1 then do { (v, c) \<leftarrow> cur_u8 c; Some (ucast v, c) }
      else None)"

definition cur_cstr :: "cur \<Rightarrow> (bytes \<times> cur) option" where
  "cur_cstr c = do {
     rest \<leftarrow> slice_from (cur_data c) (cur_pos c);
     n \<leftarrow> position (\<lambda>b. b = 0) rest;
     Some (take n rest, c\<lparr>cur_pos := cur_pos c + (n + 1)\<rparr>) }"

definition cur_initial_length :: "cur \<Rightarrow> ((nat \<times> bool) \<times> cur) option" where
  "cur_initial_length c = do {
     (l, c) \<leftarrow> cur_u32 c;
     if l = 0xffffffff then do { (v, c) \<leftarrow> cur_u64 c; Some ((unat v, True), c) }
     else if 0xfffffff0 \<le> l then None
     else Some ((unat l, False), c) }"

record unit_shape =
  us_off :: nat
  us_version :: u16
  us_format64 :: bool
  us_addr_size :: u8

text \<open>\<open>read_form_direct\<close> is the \<^verbatim>\<open>match\<close> of \<^verbatim>\<open>read_form\<close> without the arm of
  \<^verbatim>\<open>DW_FORM_indirect\<close> (0x16), which re-enters the match with the form it reads and is the
  recursion of \<open>read_form\<close>. The unit-relative references add to the unit's offset with the
  wrap-around of \<^verbatim>\<open>usize\<close>.\<close>

definition read_form_direct :: "cur \<Rightarrow> u16 \<Rightarrow> unit_shape \<Rightarrow> u64 \<Rightarrow> (val \<times> cur) option" where
  "read_form_direct c form u implicit =
    (if form = 0x01 then do { (a, c) \<leftarrow> cur_addr (us_addr_size u) c; Some (Addr a, c) }
     else if form = 0x03 then do {
       (n, c) \<leftarrow> cur_u16 c; (_, c) \<leftarrow> cur_skip (unat n) c; Some (Block, c) }
     else if form = 0x04 then do {
       (n, c) \<leftarrow> cur_u32 c; (_, c) \<leftarrow> cur_skip (unat n) c; Some (Block, c) }
     else if form = 0x05 then do { (v, c) \<leftarrow> cur_u16 c; Some (Udata (ucast v), c) }
     else if form = 0x06 then do { (v, c) \<leftarrow> cur_u32 c; Some (Udata (ucast v), c) }
     else if form = 0x07 then do { (v, c) \<leftarrow> cur_u64 c; Some (Udata v, c) }
     else if form = 0x08 then do { (s, c) \<leftarrow> cur_cstr c; Some (Str s, c) }
     else if form = 0x09 \<or> form = 0x18 then do {
       (n, c) \<leftarrow> cur_uleb c; (_, c) \<leftarrow> cur_skip (unat n) c; Some (Block, c) }
     else if form = 0x0a then do {
       (n, c) \<leftarrow> cur_u8 c; (_, c) \<leftarrow> cur_skip (unat n) c; Some (Block, c) }
     else if form = 0x0b then do { (v, c) \<leftarrow> cur_u8 c; Some (Udata (ucast v), c) }
     else if form = 0x0c then do { (_, c) \<leftarrow> cur_u8 c; Some (Flag, c) }
     else if form = 0x0d then do { (v, c) \<leftarrow> cur_sleb c; Some (Sdata v, c) }
     else if form = 0x0e then do { (o', c) \<leftarrow> cur_off (us_format64 u) c; Some (Strp o', c) }
     else if form = 0x0f then do { (v, c) \<leftarrow> cur_uleb c; Some (Udata v, c) }
     else if form = 0x10 then
       (if us_version u \<le> 2
        then do { (a, c) \<leftarrow> cur_addr (us_addr_size u) c; Some (Ref (unat a), c) }
        else do { (o', c) \<leftarrow> cur_off (us_format64 u) c; Some (Ref o', c) })
     else if form = 0x11 then do { (v, c) \<leftarrow> cur_u8 c; Some (Ref (wadd (us_off u) (unat v)), c) }
     else if form = 0x12 then do { (v, c) \<leftarrow> cur_u16 c; Some (Ref (wadd (us_off u) (unat v)), c) }
     else if form = 0x13 then do { (v, c) \<leftarrow> cur_u32 c; Some (Ref (wadd (us_off u) (unat v)), c) }
     else if form = 0x14 then do { (v, c) \<leftarrow> cur_u64 c; Some (Ref (wadd (us_off u) (unat v)), c) }
     else if form = 0x15 then do { (v, c) \<leftarrow> cur_uleb c; Some (Ref (wadd (us_off u) (unat v)), c) }
     else if form = 0x17 then do { (o', c) \<leftarrow> cur_off (us_format64 u) c; Some (SecOff o', c) }
     else if form = 0x19 then Some (Flag, c)
     else if form = 0x1a \<or> form = 0x1f02 then do { (v, c) \<leftarrow> cur_uleb c; Some (Strx v, c) }
     else if form = 0x1b \<or> form = 0x1f01 then do { (v, c) \<leftarrow> cur_uleb c; Some (Addrx v, c) }
     else if form = 0x1c then do { (_, c) \<leftarrow> cur_u32 c; Some (VNone, c) }
     else if form = 0x1d \<or> form = 0x1f20 \<or> form = 0x1f21 then do {
       (_, c) \<leftarrow> cur_off (us_format64 u) c; Some (VNone, c) }
     else if form = 0x1e then do { (_, c) \<leftarrow> cur_skip 16 c; Some (VNone, c) }
     else if form = 0x1f then do { (o', c) \<leftarrow> cur_off (us_format64 u) c; Some (LineStrp o', c) }
     else if form = 0x20 \<or> form = 0x24 then do { (_, c) \<leftarrow> cur_u64 c; Some (VNone, c) }
     else if form = 0x21 then Some (Sdata implicit, c)
     else if form = 0x22 then do { (_, c) \<leftarrow> cur_uleb c; Some (VNone, c) }
     else if form = 0x23 then do { (v, c) \<leftarrow> cur_uleb c; Some (Rnglistx v, c) }
     else if form = 0x25 then do { (v, c) \<leftarrow> cur_u8 c; Some (Strx (ucast v), c) }
     else if form = 0x26 then do { (v, c) \<leftarrow> cur_u16 c; Some (Strx (ucast v), c) }
     else if form = 0x27 then do { (v, c) \<leftarrow> cur_u24 c; Some (Strx (ucast v), c) }
     else if form = 0x28 then do { (v, c) \<leftarrow> cur_u32 c; Some (Strx (ucast v), c) }
     else if form = 0x29 then do { (v, c) \<leftarrow> cur_u8 c; Some (Addrx (ucast v), c) }
     else if form = 0x2a then do { (v, c) \<leftarrow> cur_u16 c; Some (Addrx (ucast v), c) }
     else if form = 0x2b then do { (v, c) \<leftarrow> cur_u24 c; Some (Addrx (ucast v), c) }
     else if form = 0x2c then do { (v, c) \<leftarrow> cur_u32 c; Some (Addrx (ucast v), c) }
     else None)"

definition val_as_u64 :: "val \<Rightarrow> u64 option" where
  "val_as_u64 v =
     (case v of
        Udata x \<Rightarrow> Some x
      | Addr x \<Rightarrow> Some x
      | Sdata x \<Rightarrow> Some x
      | SecOff n \<Rightarrow> Some (of_nat n)
      | Ref n \<Rightarrow> Some (of_nat n)
      | _ \<Rightarrow> None)"

definition cstr_at :: "bytes \<Rightarrow> nat \<Rightarrow> bytes option" where
  "cstr_at sec off = do {
     rest \<leftarrow> slice_from sec off;
     n \<leftarrow> position (\<lambda>b. b = 0) rest;
     Some (take n rest) }"

section \<open>The cursor contract\<close>

definition advances :: "cur \<Rightarrow> cur \<Rightarrow> bool" where
  "advances c c' \<longleftrightarrow> cur_data c' = cur_data c \<and> cur_pos c \<le> cur_pos c' \<and>
     (cur_pos c \<le> length (cur_data c) \<longrightarrow> cur_pos c' \<le> length (cur_data c))"

definition adv :: "cur \<Rightarrow> ('a \<times> cur) option \<Rightarrow> bool" where
  "adv c r \<longleftrightarrow> (\<forall>v c'. r = Some (v, c') \<longrightarrow> advances c c')"

definition sadv :: "cur \<Rightarrow> ('a \<times> cur) option \<Rightarrow> bool" where
  "sadv c r \<longleftrightarrow> (\<forall>v c'. r = Some (v, c') \<longrightarrow>
     advances c c' \<and> cur_pos c < cur_pos c' \<and> cur_pos c' \<le> length (cur_data c))"

named_theorems adv_intros \<open>how reads compose\<close>

lemma advances_refl [simp]: "advances c c"
  by (simp add: advances_def)

lemma advances_trans [trans]: "advances a b \<Longrightarrow> advances b c \<Longrightarrow> advances a c"
  by (auto simp: advances_def)

lemma adv_None [adv_intros]: "adv c None"
  by (simp add: adv_def)

lemma adv_Some [adv_intros]: "adv c (Some (v, c))"
  by (simp add: adv_def)

lemma adv_bind [adv_intros]:
  "adv c r \<Longrightarrow> (\<And>v c'. r = Some (v, c') \<Longrightarrow> adv c' (f v c')) \<Longrightarrow> adv c (r \<bind> (\<lambda>(v, c). f v c))"
  by (auto simp: adv_def bind_simps intro: advances_trans)

lemma adv_bind_pure:
  "(\<And>v. r = Some v \<Longrightarrow> adv c (f v)) \<Longrightarrow> adv c (r \<bind> f)"
  by (auto simp: adv_def bind_simps)

lemma adv_if [adv_intros]: "(b \<Longrightarrow> adv c x) \<Longrightarrow> (\<not> b \<Longrightarrow> adv c y) \<Longrightarrow> adv c (if b then x else y)"
  by simp

lemma adv_let [adv_intros]: "adv c (f x) \<Longrightarrow> adv c (let y = x in f y)"
  by simp

lemma sadv_adv: "sadv c r \<Longrightarrow> adv c r"
  by (auto simp: adv_def sadv_def)

lemma sadv_None [adv_intros]: "sadv c None"
  by (simp add: sadv_def)

lemma sadv_bind [adv_intros]:
  "sadv c r \<Longrightarrow> (\<And>v c'. r = Some (v, c') \<Longrightarrow> adv c' (f v c')) \<Longrightarrow> sadv c (r \<bind> (\<lambda>(v, c). f v c))"
proof -
  assume r: "sadv c r" and f: "\<And>v c'. r = Some (v, c') \<Longrightarrow> adv c' (f v c')"
  show "sadv c (r \<bind> (\<lambda>(v, c). f v c))"
    unfolding sadv_def
  proof (intro allI impI)
    fix w c'' assume "r \<bind> (\<lambda>(v, c). f v c) = Some (w, c'')"
    then obtain v c' where 1: "r = Some (v, c')" and 2: "f v c' = Some (w, c'')"
      by (auto simp: bind_simps)
    from r 1 have a: "advances c c'" "cur_pos c < cur_pos c'" "cur_pos c' \<le> length (cur_data c)"
      by (auto simp: sadv_def)
    from f [OF 1] 2 have "advances c' c''" by (simp add: adv_def)
    with a show "advances c c'' \<and> cur_pos c < cur_pos c'' \<and> cur_pos c'' \<le> length (cur_data c)"
      by (simp add: advances_def)
  qed
qed

lemma sadv_bind_pure:
  "(\<And>v. r = Some v \<Longrightarrow> sadv c (f v)) \<Longrightarrow> sadv c (r \<bind> f)"
  by (auto simp: sadv_def bind_simps)

lemma sadv_if [adv_intros]:
  "(b \<Longrightarrow> sadv c x) \<Longrightarrow> (\<not> b \<Longrightarrow> sadv c y) \<Longrightarrow> sadv c (if b then x else y)"
  by simp

text \<open>What a client of the cursor relies on: a read keeps the section and never moves back or
  past its end (\<open>reader\<close>), and most reads consume at least one byte (\<open>strict_reader\<close>), which
  is why every parse loop ends.\<close>

locale reader =
  fixes rd :: "cur \<Rightarrow> ('a \<times> cur) option"
  assumes rd_adv: "adv c (rd c)"
begin

lemma rd_data: "rd c = Some (v, c') \<Longrightarrow> cur_data c' = cur_data c"
  using rd_adv [of c] by (auto simp: adv_def advances_def)

lemma rd_forward: "rd c = Some (v, c') \<Longrightarrow> cur_pos c \<le> cur_pos c'"
  using rd_adv [of c] by (auto simp: adv_def advances_def)

lemma rd_bounds:
  "rd c = Some (v, c') \<Longrightarrow> cur_pos c \<le> length (cur_data c) \<Longrightarrow> cur_pos c' \<le> length (cur_data c')"
  using rd_adv [of c] by (auto simp: adv_def advances_def)

end

locale strict_reader =
  fixes rd :: "cur \<Rightarrow> ('a \<times> cur) option"
  assumes rd_sadv: "sadv c (rd c)"
begin

lemma rd_consumes: "rd c = Some (v, c') \<Longrightarrow> cur_pos c < cur_pos c'"
  using rd_sadv [of c] by (auto simp: sadv_def)

lemma rd_inside: "rd c = Some (v, c') \<Longrightarrow> cur_pos c' \<le> length (cur_data c')"
  using rd_sadv [of c] by (auto simp: sadv_def advances_def)

lemma rd_shrinks:
  "rd c = Some (v, c') \<Longrightarrow>
     length (cur_data c') - cur_pos c' < length (cur_data c) - cur_pos c"
  using rd_sadv [of c] by (fastforce simp: sadv_def advances_def)

end

sublocale strict_reader \<subseteq> reader
  by unfold_locales (rule sadv_adv [OF rd_sadv])

lemma sadv_u8 [adv_intros]: "sadv c (cur_u8 c)"
  by (auto simp: sadv_def cur_u8_def bind_simps advances_def)

lemma adv_bytes: "adv c (cur_bytes n c)"
  by (auto simp: adv_def cur_bytes_def bind_simps advances_def)

lemma sadv_bytes [adv_intros]: "0 < n \<Longrightarrow> sadv c (cur_bytes n c)"
  by (auto simp: sadv_def cur_bytes_def bind_simps advances_def)

lemma adv_skip [adv_intros]: "adv c (cur_skip n c)"
  by (auto simp: adv_def cur_skip_def bind_simps advances_def split: if_splits)

lemma sadv_scalars [adv_intros]:
  "sadv c (cur_u16 c)" "sadv c (cur_u24 c)" "sadv c (cur_u32 c)" "sadv c (cur_u64 c)"
  "sadv c (cur_i8 c)"
  unfolding cur_u16_def cur_u24_def cur_u32_def cur_u64_def cur_i8_def
  by (rule sadv_bind, (rule adv_intros; simp), rule adv_intros)+

lemma sadv_off [adv_intros]: "sadv c (cur_off f c)"
  unfolding cur_off_def by (intro sadv_if sadv_bind sadv_scalars adv_Some)

lemma sadv_addr [adv_intros]: "sadv c (cur_addr sz c)"
  unfolding cur_addr_def by (intro sadv_if sadv_bind sadv_scalars sadv_u8 adv_Some sadv_None)

lemma sadv_initial_length [adv_intros]: "sadv c (cur_initial_length c)"
  unfolding cur_initial_length_def
  by (intro sadv_bind sadv_scalars adv_if adv_bind adv_Some adv_None sadv_adv [OF sadv_scalars(4)])

lemma sadv_cstr [adv_intros]: "sadv c (cur_cstr c)"
  by (auto simp: sadv_def cur_cstr_def bind_simps advances_def dest!: position_Some)

lemma sadv_uleb_loop: "sadv c (uleb_loop c r s)"
proof (induction c r s rule: uleb_loop.induct)
  case (1 c r s)
  show ?case
    unfolding uleb_loop.simps [of c r s] Let_def
    by (intro sadv_bind sadv_u8 adv_if adv_Some adv_None sadv_adv [OF 1]) (auto split: if_splits)
qed

lemma sadv_sleb_loop: "sadv c (sleb_loop c r s)"
proof (induction c r s rule: sleb_loop.induct)
  case (1 c r s)
  show ?case
    unfolding sleb_loop.simps [of c r s] Let_def
    by (intro sadv_bind sadv_u8 adv_if adv_Some adv_None sadv_adv [OF 1]) (auto split: if_splits)
qed

lemma sadv_leb [adv_intros]: "sadv c (cur_uleb c)" "sadv c (cur_sleb c)"
  by (simp_all add: cur_uleb_def cur_sleb_def sadv_uleb_loop sadv_sleb_loop)

interpretation u8: strict_reader cur_u8 by unfold_locales (rule adv_intros)
interpretation u16: strict_reader cur_u16 by unfold_locales (rule adv_intros)
interpretation u24: strict_reader cur_u24 by unfold_locales (rule adv_intros)
interpretation u32: strict_reader cur_u32 by unfold_locales (rule adv_intros)
interpretation u64: strict_reader cur_u64 by unfold_locales (rule adv_intros)
interpretation i8: strict_reader cur_i8 by unfold_locales (rule adv_intros)
interpretation uleb: strict_reader cur_uleb by unfold_locales (rule adv_intros)
interpretation sleb: strict_reader cur_sleb by unfold_locales (rule adv_intros)
interpretation cstr: strict_reader cur_cstr by unfold_locales (rule adv_intros)
interpretation off: strict_reader "cur_off f" for f by unfold_locales (rule adv_intros)
interpretation addr: strict_reader "cur_addr sz" for sz by unfold_locales (rule adv_intros)
interpretation initial_length: strict_reader cur_initial_length by unfold_locales (rule adv_intros)
interpretation skip: reader "cur_skip n" for n by unfold_locales (rule adv_intros)
interpretation byte_run: reader "cur_bytes n" for n by unfold_locales (rule adv_bytes)

lemmas sadv_reads = sadv_u8 sadv_scalars sadv_off sadv_addr sadv_initial_length sadv_cstr sadv_leb
lemmas adv_reads = adv_skip adv_bytes sadv_reads [THEN sadv_adv]

function read_form :: "cur \<Rightarrow> u16 \<Rightarrow> unit_shape \<Rightarrow> u64 \<Rightarrow> (val \<times> cur) option" where
  "read_form c form u implicit =
     (if form = 0x16 then do { (f, c) \<leftarrow> cur_uleb c; read_form c (ucast f) u implicit }
      else read_form_direct c form u implicit)"
  by pat_completeness auto
termination
  by (relation "measure (\<lambda>(c, f, u, i). length (cur_data c) - cur_pos c)")
    (auto dest: uleb.rd_shrinks)

declare read_form.simps [simp del]

lemma adv_read_form_direct: "adv c (read_form_direct c form u implicit)"
  unfolding read_form_direct_def
  by (intro adv_if adv_bind adv_Some adv_None adv_reads)

lemma adv_read_form: "adv c (read_form c form u implicit)"
proof (induction c form u implicit rule: read_form.induct)
  case (1 c form u implicit)
  show ?case
    unfolding read_form.simps [of c form u implicit]
    by (intro adv_if adv_bind adv_reads adv_read_form_direct 1) auto
qed

interpretation form: reader "\<lambda>c. read_form c form u implicit" for form u implicit
  by unfold_locales (rule adv_read_form)

text \<open>C9. Reading an attribute value. Whatever the form, the unit and the bytes, a successful read stays
  in the section: the cursor keeps its section, does not move back and does not pass the end.\<close>

theorem read_form_in_section:
  assumes "read_form c form u implicit = Some (v, c')" and "cur_pos c \<le> length (cur_data c)"
  shows "cur_data c' = cur_data c \<and> cur_pos c \<le> cur_pos c' \<and> cur_pos c' \<le> length (cur_data c')"
  using form.rd_data [OF assms(1)] form.rd_forward [OF assms(1)] form.rd_bounds [OF assms] by simp

theorem read_form_in_section_witness:
  "read_form (cur_new [0x0b, 7] 0) 0x16 \<lparr>us_off = 0, us_version = 4, us_format64 = False, us_addr_size = 8\<rparr> 0 =
     Some (Udata 7, \<lparr>cur_data = [0x0b, 7], cur_pos = 2\<rparr>) \<and>
   cur_pos \<lparr>cur_data = [0x0b, 7 :: u8], cur_pos = 2\<rparr> \<le> length [0x0b, 7 :: u8]"
proof -
  have r: "read_form (cur_new [0x0b, 7] 0) 0x16
      \<lparr>us_off = 0, us_version = 4, us_format64 = False, us_addr_size = 8\<rparr> 0 =
     Some (Udata 7, \<lparr>cur_data = [0x0b, 7], cur_pos = 2\<rparr>)" by code_simp
  from read_form_in_section [OF r] r show ?thesis by (simp add: cur_new_def)
qed

end
