(* ===== verification/Dwarf_Leb.thy ===== *)
theory Dwarf_Leb
  imports Dwarf_Reader
begin

text \<open>
  What the scalar and LEB128 readers of \<^verbatim>\<open>reader.rs\<close> compute. A LEB128 run is a list of bytes
  whose continuation bit 7 is set on all but the last; \<open>leb_val\<close> and \<open>sleb_val\<close> are the
  numbers DWARF assigns to it. The readers return exactly that number modulo \<open>2 ^ 64\<close> on
  every run of at most eleven bytes, reject every other input, and invert the canonical
  encoders \<open>uleb_encode\<close> and \<open>sleb_encode\<close>.
\<close>

section \<open>Reading at a known position\<close>

abbreviation cur_at :: "bytes \<Rightarrow> bytes \<Rightarrow> bytes \<Rightarrow> cur" where
  "cur_at pre bs suf \<equiv> cur_new (pre @ bs @ suf) (length pre)"

abbreviation cur_after :: "bytes \<Rightarrow> bytes \<Rightarrow> bytes \<Rightarrow> cur" where
  "cur_after pre bs suf \<equiv> cur_new (pre @ bs @ suf) (length pre + length bs)"

lemma cur_new_sel [simp]: "cur_data (cur_new d p) = d" "cur_pos (cur_new d p) = p"
  by (simp_all add: cur_new_def)

lemma cur_new_upd [simp]: "(cur_new d p)\<lparr>cur_pos := q\<rparr> = cur_new d q"
  by (simp add: cur_new_def)

lemma cur_u8_at: "cur_u8 (cur_new (pre @ b # suf) (length pre)) =
    Some (b, cur_new (pre @ b # suf) (length pre + 1))"
  by (simp add: cur_u8_def nth_opt_def nth_append)

lemma cur_bytes_at:
  "length (pre @ bs @ suf) \<le> usize_max \<Longrightarrow>
     cur_bytes (length bs) (cur_at pre bs suf) = Some (bs, cur_after pre bs suf)"
  by (simp add: cur_bytes_def checked_add_def slice_get_def)

text \<open>Every little-endian scalar reader inverts the encoder of its width.\<close>

lemma cur_scalar_roundtrip:
  assumes "length (pre @ suf) + 8 \<le> usize_max"
  shows "cur_u16 (cur_at pre (le_of_word 2 x) suf) = Some (x, cur_after pre (le_of_word 2 x) suf)"
    and "cur_u32 (cur_at pre (le_of_word 4 y) suf) = Some (y, cur_after pre (le_of_word 4 y) suf)"
    and "cur_u64 (cur_at pre (le_of_word 8 z) suf) = Some (z, cur_after pre (le_of_word 8 z) suf)"
  using assms cur_bytes_at [of pre "le_of_word 2 x" suf] cur_bytes_at [of pre "le_of_word 4 y" suf]
    cur_bytes_at [of pre "le_of_word 8 z" suf]
  by (simp_all add: cur_u16_def cur_u32_def cur_u64_def word_of_le_of_word)

section \<open>LEB128 runs and their values\<close>

definition leb_run :: "bytes \<Rightarrow> bool" where
  "leb_run bs \<longleftrightarrow> bs \<noteq> [] \<and> length bs \<le> 11 \<and>
     (\<forall>b\<in>set (butlast bs). b AND 0x80 \<noteq> 0) \<and> last bs AND 0x80 = 0"

primrec leb_val :: "bytes \<Rightarrow> nat" where
  "leb_val [] = 0"
| "leb_val (b # bs) = unat b mod 128 + 128 * leb_val bs"

definition sleb_val :: "bytes \<Rightarrow> int" where
  "sleb_val bs = int (leb_val bs) - (if last bs AND 0x40 \<noteq> 0 then 128 ^ length bs else 0)"

lemma push_bit_out: "64 \<le> s \<Longrightarrow> push_bit s (x :: u64) = 0"
  by (rule bit_word_eqI) (auto simp: bit_simps)

lemma group_val: "(ucast ((b::u8) AND 0x7f) :: u64) = of_nat (unat b mod 128)"
proof -
  have "b AND 0x7f = take_bit 7 b" by (simp add: take_bit_eq_mask mask_eq_exp_minus_1)
  then have "unat (b AND 0x7f) = unat b mod 128"
    by (simp add: take_bit_eq_mod unat_mod)
  then show ?thesis by (metis of_nat_unat)
qed

lemma or_high_is_add:
  fixes r x :: u64
  assumes "take_bit s r = r"
  shows "r OR push_bit s x = r + push_bit s x"
proof -
  have "r AND push_bit s x = 0"
    by (rule bit_word_eqI) (metis assms bit_0_eq bit_and_iff bit_push_bit_iff bit_take_bit_iff bot_apply leD bot_bool_def)
  then show ?thesis by (simp add: disjunctive_add_eq_or)
qed

lemma group_step:
  fixes r :: u64 and b :: u8
  assumes "take_bit s r = r"
  defines "r' \<equiv> (if s < 64 then r OR push_bit s (ucast (b AND 0x7f)) else r)"
  shows "r' = r + push_bit s (of_nat (unat b mod 128))" and "take_bit (s + 7) r' = r'"
proof -
  show r': "r' = r + push_bit s (of_nat (unat b mod 128))"
    unfolding r'_def using or_high_is_add [OF assms(1), of "of_nat (unat b mod 128)"]
    by (simp add: group_val push_bit_out)
  have b: "take_bit 7 (of_nat (unat b mod 128) :: u64) = of_nat (unat b mod 128)"
    by (simp add: take_bit_of_nat take_bit_nat_eq_self)
  have r7: "take_bit (s + 7) r = r"
    using take_bit_take_bit [of "s + 7" s r] by (simp add: assms(1))
  have "take_bit (s + 7) (r OR push_bit s (of_nat (unat b mod 128))) =
      r OR push_bit s (of_nat (unat b mod 128))"
    by (simp add: take_bit_push_bit b r7)
  then show "take_bit (s + 7) r' = r'"
    using or_high_is_add [OF assms(1), of "of_nat (unat b mod 128)"] r' by simp
qed

lemma shift_group:
  "push_bit s (of_nat (unat (b::u8) mod 128)) + push_bit (s + 7) (of_nat v) =
     (push_bit s (of_nat (unat b mod 128 + 128 * v)) :: u64)"
  by (simp add: push_bit_eq_mult power_add algebra_simps)

lemma uleb_loop_step:
  assumes "take_bit s r = r"
  shows "uleb_loop (cur_new (pre @ b # suf) (length pre)) r s =
    (let r' = r + push_bit s (of_nat (unat b mod 128)); c' = cur_new (pre @ b # suf) (length pre + 1)
     in if b AND 0x80 = 0 then Some (r', c')
        else if 70 < s + 7 then None else uleb_loop c' r' (s + 7))"
  by (subst uleb_loop.simps, unfold Let_def group_step(1) [OF assms]) (simp add: cur_u8_at)

lemma group_step_small:
  "take_bit s (r :: u64) = r \<Longrightarrow>
     take_bit (s + 7) (r + push_bit s (of_nat (unat (b::u8) mod 128))) =
     r + push_bit s (of_nat (unat b mod 128))"
  using group_step [of s r b] by simp

lemma uleb_loop_run:
  assumes "bs \<noteq> []" and "\<forall>b\<in>set (butlast bs). b AND 0x80 \<noteq> 0" and "last bs AND 0x80 = 0"
    and "s + 7 * length bs \<le> 77" and "take_bit s r = r"
  shows "uleb_loop (cur_at pre bs suf) r s =
    Some (r + push_bit s (of_nat (leb_val bs)), cur_after pre bs suf)"
  using assms
proof (induction bs arbitrary: pre r s)
  case Nil
  then show ?case by simp
next
  case (Cons b bs)
  let ?r = "r + push_bit s (of_nat (unat b mod 128))"
  show ?case
  proof (cases "bs = []")
    case True
    with Cons.prems show ?thesis by (simp add: uleb_loop_step)
  next
    case False
    then have "b AND 0x80 \<noteq> 0" and "\<not> 70 < s + 7" using Cons.prems by (auto simp: Suc_le_eq neq_Nil_conv)
    moreover have "uleb_loop (cur_at (pre @ [b]) bs suf) ?r (s + 7) =
       Some (?r + push_bit (s + 7) (of_nat (leb_val bs)), cur_after (pre @ [b]) bs suf)"
      using False Cons.prems by (intro Cons.IH group_step_small) auto
    ultimately show ?thesis
      using Cons.prems(5)
      by (simp add: uleb_loop_step Let_def add.assoc shift_group del: of_nat_add of_nat_mult)
  qed
qed

text \<open>The run is not only sufficient: whatever the loop accepts is a run at the cursor.\<close>

lemma uleb_loop_inv:
  assumes "uleb_loop (cur_new (pre @ rest) (length pre)) r s = Some (v, c')" and "s \<le> 70"
  shows "\<exists>bs suf. rest = bs @ suf \<and> bs \<noteq> [] \<and> s + 7 * length bs \<le> 77 \<and>
    (\<forall>b\<in>set (butlast bs). b AND 0x80 \<noteq> 0) \<and> last bs AND 0x80 = 0"
  using assms
proof (induction rest arbitrary: pre r s)
  case Nil
  then show ?case by (subst (asm) uleb_loop.simps) (simp add: cur_u8_def nth_opt_def)
next
  case (Cons b rest)
  let ?r = "if s < 64 then r OR push_bit s (ucast (b AND 0x7f)) else r"
  have step: "uleb_loop (cur_new (pre @ b # rest) (length pre)) r s =
      (if b AND 0x80 = 0 then Some (?r, cur_new (pre @ b # rest) (length pre + 1))
       else if 70 < s + 7 then None
       else uleb_loop (cur_new (pre @ b # rest) (length pre + 1)) ?r (s + 7))"
    by (subst uleb_loop.simps) (simp add: cur_u8_at Let_def)
  show ?case
  proof (cases "b AND 0x80 = 0")
    case True
    with Cons.prems(2) show ?thesis by (intro exI [of _ "[b]"] exI [of _ rest]) simp
  next
    case False
    with step Cons.prems have s: "s + 7 \<le> 70"
      and "uleb_loop (cur_new ((pre @ [b]) @ rest) (length (pre @ [b]))) ?r (s + 7) = Some (v, c')"
      by (auto split: if_splits)
    from Cons.IH [OF this(2,1)] obtain bs suf where "rest = bs @ suf" "bs \<noteq> []"
      "s + 7 + 7 * length bs \<le> 77" "\<forall>b\<in>set (butlast bs). b AND 0x80 \<noteq> 0" "last bs AND 0x80 = 0"
      by blast
    with False show ?thesis by (intro exI [of _ "b # bs"] exI [of _ suf]) auto
  qed
qed

lemma cur_uleb_run:
  "leb_run bs \<Longrightarrow> cur_uleb (cur_at pre bs suf) = Some (of_nat (leb_val bs), cur_after pre bs suf)"
  using uleb_loop_run [of bs 0 0 pre suf] by (simp add: cur_uleb_def leb_run_def)

lemma cur_uleb_inv:
  "cur_uleb (cur_new (pre @ rest) (length pre)) = Some (v, c') \<Longrightarrow> \<exists>bs suf. rest = bs @ suf \<and> leb_run bs"
  using uleb_loop_inv [of pre rest 0 0 v c'] by (auto simp: cur_uleb_def leb_run_def)

section \<open>The signed reader\<close>

lemma sleb_val_single: "sleb_val [b] = int (unat b mod 128) + 128 * (if b AND 0x40 \<noteq> 0 then - 1 else 0)"
  by (simp add: sleb_val_def)

lemma sleb_val_Cons: "bs \<noteq> [] \<Longrightarrow> sleb_val (b # bs) = int (unat b mod 128) + 128 * sleb_val bs"
  by (simp add: sleb_val_def algebra_simps)

lemma shift_group_int:
  "push_bit s (of_nat (unat (b::u8) mod 128)) + push_bit (s + 7) (of_int v) =
     (push_bit s (of_int (int (unat b mod 128) + 128 * v)) :: u64)"
  by (simp add: push_bit_eq_mult power_add algebra_simps)

lemma sign_extension:
  assumes "take_bit t (r :: u64) = r"
  shows "(if t < 64 \<and> p then r OR push_bit t (- 1) else r) = r + push_bit t (of_int (if p then - 1 else 0))"
  using or_high_is_add [OF assms, of "- 1"] push_bit_out [of t "- 1"] by auto

lemma sleb_loop_step:
  assumes "take_bit s r = r"
  shows "sleb_loop (cur_new (pre @ b # suf) (length pre)) r s =
    (let r' = r + push_bit s (of_nat (unat b mod 128)); c' = cur_new (pre @ b # suf) (length pre + 1)
     in if b AND 0x80 = 0
        then Some (r' + push_bit (s + 7) (of_int (if b AND 0x40 \<noteq> 0 then - 1 else 0)), c')
        else if 70 < s + 7 then None else sleb_loop c' r' (s + 7))"
  using sign_extension [OF group_step_small [OF assms, of b], of "b AND 0x40 \<noteq> 0"]
  by (subst sleb_loop.simps, unfold Let_def group_step(1) [OF assms]) (simp add: cur_u8_at)

lemma sleb_loop_run:
  assumes "bs \<noteq> []" and "\<forall>b\<in>set (butlast bs). b AND 0x80 \<noteq> 0" and "last bs AND 0x80 = 0"
    and "s + 7 * length bs \<le> 77" and "take_bit s r = r"
  shows "sleb_loop (cur_at pre bs suf) r s =
    Some (r + push_bit s (of_int (sleb_val bs)), cur_after pre bs suf)"
  using assms
proof (induction bs arbitrary: pre r s)
  case Nil
  then show ?case by simp
next
  case (Cons b bs)
  let ?r = "r + push_bit s (of_nat (unat b mod 128))"
  show ?case
  proof (cases "bs = []")
    case True
    with Cons.prems shift_group_int [of s b "if b AND 0x40 \<noteq> 0 then - 1 else 0"] show ?thesis
      by (simp add: sleb_loop_step Let_def sleb_val_single add.assoc split del: if_split)
  next
    case False
    then have "b AND 0x80 \<noteq> 0" and "\<not> 70 < s + 7" using Cons.prems by (auto simp: Suc_le_eq neq_Nil_conv)
    moreover have "sleb_loop (cur_at (pre @ [b]) bs suf) ?r (s + 7) =
       Some (?r + push_bit (s + 7) (of_int (sleb_val bs)), cur_after (pre @ [b]) bs suf)"
      using False Cons.prems by (intro Cons.IH group_step_small) auto
    ultimately show ?thesis
      using Cons.prems(5) False shift_group_int [of s b "sleb_val bs"]
      by (simp add: sleb_loop_step Let_def add.assoc sleb_val_Cons)
  qed
qed

lemma cur_sleb_run:
  "leb_run bs \<Longrightarrow> cur_sleb (cur_at pre bs suf) = Some (of_int (sleb_val bs), cur_after pre bs suf)"
  using sleb_loop_run [of bs 0 0 pre suf] by (simp add: cur_sleb_def leb_run_def)

section \<open>Canonical encoders\<close>

fun uleb_encode :: "nat \<Rightarrow> bytes" where
  "uleb_encode n = (if n < 128 then [of_nat n] else of_nat (n mod 128 + 128) # uleb_encode (n div 128))"

declare uleb_encode.simps [simp del]

function sleb_encode :: "int \<Rightarrow> bytes" where
  "sleb_encode v =
     (if - 64 \<le> v \<and> v < 64 then [of_int (v mod 128)]
      else of_int (v mod 128 + 128) # sleb_encode (v div 128))"
  by pat_completeness auto
termination
  by (relation "measure (\<lambda>v. nat \<bar>v\<bar>)") auto

declare sleb_encode.simps [simp del]

lemma low_byte_cont: "m < 128 \<Longrightarrow> (of_nat m :: u8) AND 0x80 = 0"
  and high_byte_cont: "m < 128 \<Longrightarrow> (of_nat (m + 128) :: u8) AND 0x80 \<noteq> 0"
proof -
  assume m: "m < 128"
  have "(of_nat m :: u8) AND 0x80 = 0 \<longleftrightarrow> \<not> bit (of_nat m :: u8) 7"
    using and_exp_eq_0_iff_not_bit [of "of_nat m :: u8" 7] by simp
  moreover have "\<not> bit m 7"
    using m by (simp add: bit_iff_odd)
  then have "\<not> bit (of_nat m :: u8) 7"
    by (simp add: bit_simps)
  ultimately show "(of_nat m :: u8) AND 0x80 = 0" by simp
  have "(of_nat (m + 128) :: u8) AND 0x80 = 0 \<longleftrightarrow> \<not> bit (of_nat (m + 128) :: u8) 7"
    using and_exp_eq_0_iff_not_bit [of "of_nat (m + 128) :: u8" 7] by simp
  moreover have "(m + 128) div 128 = 1" using m by simp
  then have "bit (m + 128) 7" by (simp add: bit_iff_odd)
  then have "bit (of_nat (m + 128) :: u8) 7"
    by (simp add: bit_simps del: of_nat_add)
  ultimately show "(of_nat (m + 128) :: u8) AND 0x80 \<noteq> 0" by simp
qed

text \<open>A run without its length bound, for induction.\<close>

definition leb_shape :: "bytes \<Rightarrow> bool" where
  "leb_shape bs \<longleftrightarrow> bs \<noteq> [] \<and> (\<forall>b\<in>set (butlast bs). b AND 0x80 \<noteq> 0) \<and> last bs AND 0x80 = 0"

lemma leb_run_shape: "leb_run bs \<longleftrightarrow> leb_shape bs \<and> length bs \<le> 11"
  by (auto simp: leb_run_def leb_shape_def)

lemma leb_shape_Cons: "leb_shape bs \<Longrightarrow> b AND 0x80 \<noteq> 0 \<Longrightarrow> leb_shape (b # bs)"
  by (auto simp: leb_shape_def)

lemma leb_shape_single: "b AND 0x80 = 0 \<Longrightarrow> leb_shape [b]"
  by (simp add: leb_shape_def)

lemma unat_of_nat_u8: "m < 256 \<Longrightarrow> unat (of_nat m :: u8) = m"
  by (simp add: unsigned_of_nat take_bit_eq_mod)

lemma uleb_encode_shape: "leb_shape (uleb_encode n) \<and> leb_val (uleb_encode n) = n"
proof (induction n rule: uleb_encode.induct)
  case (1 n)
  show ?case
  proof (cases "n < 128")
    case True
    then show ?thesis
      by (subst (1 2) uleb_encode.simps) (simp add: leb_shape_single low_byte_cont unat_of_nat_u8)
  next
    case False
    have "unat (of_nat (n mod 128 + 128) :: u8) mod 128 = n mod 128"
      by (subst unat_of_nat_u8) auto
    with 1 [OF False] False show ?thesis
      by (subst (1 2) uleb_encode.simps)
        (simp add: leb_shape_Cons high_byte_cont del: of_nat_add)
  qed
qed

lemma uleb_encode_length: "n < 128 ^ k \<Longrightarrow> 0 < k \<Longrightarrow> length (uleb_encode n) \<le> k"
proof (induction n arbitrary: k rule: uleb_encode.induct)
  case (1 n)
  show ?case
  proof (cases "n < 128")
    case True
    with 1 show ?thesis by (subst uleb_encode.simps) simp
  next
    case False
    have "k \<noteq> 1" using 1(2) False by auto
    with 1(3) obtain j where j: "k = Suc j" "0 < j" by (cases k) auto
    with 1(2) have "n div 128 < 128 ^ j" by (simp add: less_mult_imp_div_less mult.commute)
    with 1(1) [OF False _ j(2)] j False show ?thesis by (subst uleb_encode.simps) simp
  qed
qed

lemma sleb_encode_shape: "leb_shape (sleb_encode v) \<and> sleb_val (sleb_encode v) = v"
proof (induction v rule: sleb_encode.induct)
  case (1 v)
  have m: "0 \<le> v mod 128" "v mod 128 < 128" by auto
  then obtain k where k: "v mod 128 = int k" "k < 128" by (metis nonneg_int_cases of_nat_less_iff of_nat_numeral)
  show ?case
  proof (cases "- 64 \<le> v \<and> v < 64")
    case True
    have sgn: "(of_nat k :: u8) AND 0x40 \<noteq> 0 \<longleftrightarrow> v < 0"
    proof -
      have "(of_nat k :: u8) AND 0x40 = 0 \<longleftrightarrow> \<not> bit (of_nat k :: u8) 6"
        using and_exp_eq_0_iff_not_bit [of "of_nat k :: u8" 6] by simp
      also have "\<dots> \<longleftrightarrow> \<not> bit k 6" by (simp add: bit_simps)
      also have "\<dots> \<longleftrightarrow> \<not> v < 0"
      proof (cases "v < 0")
        case True
        with \<open>- 64 \<le> v \<and> v < 64\<close> have "int k = v + 128"
          using k(1) mod_pos_pos_trivial [of "v + 128" 128] by simp
        with True \<open>- 64 \<le> v \<and> v < 64\<close> have "64 \<le> k" by linarith
        with k(2) have "k div 64 = 1" by (intro div_nat_eqI) auto
        with True show ?thesis by (simp add: bit_iff_odd)
      next
        case False
        with \<open>- 64 \<le> v \<and> v < 64\<close> k have "k div 64 = 0" by simp
        with False show ?thesis by (simp add: bit_iff_odd)
      qed
      finally show ?thesis by simp
    qed
    have "int k + 128 * (if v < 0 then - 1 else 0) = v"
      using True k(1) mod_pos_pos_trivial [of "v + 128" 128] by (cases "v < 0") auto
    with True sgn k show ?thesis
      by (subst (1 2) sleb_encode.simps)
        (simp add: leb_shape_single low_byte_cont sleb_val_single unat_of_nat_u8)
  next
    case False
    have u: "unat (of_nat (k + 128) :: u8) mod 128 = k"
      using k by (subst unat_of_nat_u8) auto
    have e: "sleb_encode v = of_nat (k + 128) # sleb_encode (v div 128)"
      using k False by (subst sleb_encode.simps) simp
    from 1 [OF False] have IH: "leb_shape (sleb_encode (v div 128))"
      "sleb_val (sleb_encode (v div 128)) = v div 128" by auto
    then have ne: "sleb_encode (v div 128) \<noteq> []" by (simp add: leb_shape_def)
    have "int k + 128 * (v div 128) = v" using k by (metis add.commute mult_div_mod_eq)
    with IH u k show ?thesis
      unfolding e by (simp add: sleb_val_Cons [OF ne] leb_shape_Cons high_byte_cont del: of_nat_add)
  qed
qed

lemma sleb_encode_length:
  "- (64 * 128 ^ j) \<le> v \<Longrightarrow> v < 64 * 128 ^ j \<Longrightarrow> length (sleb_encode v) \<le> Suc j"
proof (induction v arbitrary: j rule: sleb_encode.induct)
  case (1 v)
  show ?case
  proof (cases "- 64 \<le> v \<and> v < 64")
    case True
    then show ?thesis by (subst sleb_encode.simps) simp
  next
    case False
    then obtain i where i: "j = Suc i" using 1(2,3) by (cases j) auto
    with 1(2,3) have "- (64 * 128 ^ i) \<le> v div 128" "v div 128 < 64 * 128 ^ i" by auto
    with 1(1) [OF False, of i] i False show ?thesis by (subst sleb_encode.simps) simp
  qed
qed

lemma cur_uleb_encode:
  "cur_uleb (cur_at pre (uleb_encode (unat v)) suf) = Some (v, cur_after pre (uleb_encode (unat v)) suf)"
proof -
  have "unat v < 128 ^ 10" using unsigned_less [where ?'a = nat and w = v] by simp
  then have "leb_run (uleb_encode (unat v))"
    using uleb_encode_shape uleb_encode_length [of "unat v" 10] by (simp add: leb_run_shape)
  then show ?thesis
    using uleb_encode_shape [of "unat v"] by (simp add: cur_uleb_run)
qed

lemma cur_sleb_encode:
  "cur_sleb (cur_at pre (sleb_encode (sint v)) suf) = Some (v, cur_after pre (sleb_encode (sint v)) suf)"
proof -
  have "- (64 * 128 ^ 9) \<le> sint v" "sint v < 64 * 128 ^ 9"
    using sint_ge [of v] sint_lt [of v] by simp_all
  then have "leb_run (sleb_encode (sint v))"
    using sleb_encode_shape sleb_encode_length [of 9 "sint v"] by (simp add: leb_run_shape)
  then show ?thesis
    using sleb_encode_shape [of "sint v"] by (simp add: cur_sleb_run)
qed

text \<open>C7. LEB128 decoding. The unsigned reader succeeds exactly when the bytes at the cursor start with a
  LEB128 run of at most eleven bytes, and then returns the number the run denotes modulo \<open>2 ^ 64\<close>
  and stops right behind the run.\<close>

theorem cur_uleb_exact:
  "case cur_uleb (cur_new (pre @ rest) (length pre)) of
     Some (v, c') \<Rightarrow> \<exists>bs suf. rest = bs @ suf \<and> leb_run bs \<and> v = of_nat (leb_val bs) \<and>
       c' = cur_after pre bs suf
   | None \<Rightarrow> \<nexists>bs suf. rest = bs @ suf \<and> leb_run bs"
proof (cases "cur_uleb (cur_new (pre @ rest) (length pre))")
  case None
  then show ?thesis using cur_uleb_run [of _ pre] by fastforce
next
  case (Some r)
  obtain v c' where r: "r = (v, c')" by (cases r)
  from cur_uleb_inv [OF Some [unfolded r]] obtain bs suf where b: "rest = bs @ suf" "leb_run bs" by blast
  with cur_uleb_run [OF b(2), of pre suf] Some r show ?thesis by auto
qed

text \<open>LEB128 round trip. Reading back the canonical encoding of any unsigned or signed 64-bit value
  gives the value and consumes exactly its encoding, wherever it stands in a section.\<close>

theorem leb128_roundtrip:
  "cur_uleb (cur_at pre (uleb_encode (unat v)) suf) = Some (v, cur_after pre (uleb_encode (unat v)) suf) \<and>
   cur_sleb (cur_at pre (sleb_encode (sint w)) suf) = Some (w, cur_after pre (sleb_encode (sint w)) suf)"
  by (simp only: cur_uleb_encode cur_sleb_encode)

end
