(* ===== verification/Dwarf_Abbrev.thy ===== *)
theory Dwarf_Abbrev
  imports Dwarf_Leb
begin

text \<open>
  The abbreviation tables of \<^verbatim>\<open>vock/src/dwarf/abbrev.rs\<close>: \<open>abbrev\<close> is \<^verbatim>\<open>Abbrev\<close>, the dense
  table of \<^verbatim>\<open>Abbrevs\<close> is a list of optional entries, \<open>abbrevs_parse\<close> and \<open>abbrevs_get\<close> its two
  methods. Both parse loops consume at least one byte per round, so the functions are total.

  Shown here: the table never grows beyond \<open>2 ^ 20 + 1\<close> slots and slot 0 stays empty, and
  parsing an encoded list of declarations gives a table that answers every code with its last
  declaration.
\<close>

record abbrev =
  ab_tag :: u16
  ab_children :: bool
  ab_attrs :: "(u16 \<times> u16 \<times> u64) list"

type_synonym abbrev_table = "abbrev option list"

function attrs_loop ::
  "cur \<Rightarrow> (u16 \<times> u16 \<times> u64) list \<Rightarrow> ((u16 \<times> u16 \<times> u64) list \<times> cur) option" where
  "attrs_loop c attrs = do {
     (at, c) \<leftarrow> cur_uleb c;
     (form, c) \<leftarrow> cur_uleb c;
     (implicit, c) \<leftarrow> (if (ucast form :: u16) = 0x21 then cur_sleb c else Some (0, c));
     if (ucast at :: u16) = 0 \<and> (ucast form :: u16) = 0 then Some (attrs, c)
     else attrs_loop c (attrs @ [(ucast at, ucast form, implicit)]) }"
  by pat_completeness auto
termination
proof (relation "measure (\<lambda>(c, as). length (cur_data c) - cur_pos c)", simp)
  fix c :: cur and as x at c1 y form c2 z implicit c3
  assume 1: "cur_uleb c = Some x" "(at, c1) = x" and 2: "cur_uleb c1 = Some y" "(form, c2) = y"
    and 3: "(if (ucast form :: u16) = 0x21 then cur_sleb c2 else Some (0, c2)) = Some z" "(implicit, c3) = z"
  have "length (cur_data c1) - cur_pos c1 < length (cur_data c) - cur_pos c"
    using 1 by (auto intro: uleb.rd_shrinks)
  moreover have "length (cur_data c2) - cur_pos c2 < length (cur_data c1) - cur_pos c1"
    using 2 by (auto intro: uleb.rd_shrinks)
  moreover have "length (cur_data c3) - cur_pos c3 \<le> length (cur_data c2) - cur_pos c2"
    using 3 sleb.rd_shrinks [of c2 implicit c3] by (auto split: if_splits)
  ultimately show "((c3, as @ [(ucast at, ucast form, implicit)]), c, as) \<in>
      measure (\<lambda>(c, as). length (cur_data c) - cur_pos c)"
    by simp
qed

declare attrs_loop.simps [simp del]

lemma sadv_attrs_loop: "sadv c (attrs_loop c attrs)"
proof (induction c attrs rule: attrs_loop.induct)
  case (1 c attrs)
  show ?case
    unfolding attrs_loop.simps [of c attrs]
    by (intro sadv_bind adv_bind adv_if adv_Some sadv_leb adv_reads sadv_adv [OF 1]) auto
qed

interpretation attrs: strict_reader "\<lambda>c. attrs_loop c as" for as
  by unfold_locales (rule sadv_attrs_loop)

definition dense_put :: "abbrev_table \<Rightarrow> nat \<Rightarrow> abbrev \<Rightarrow> abbrev_table" where
  "dense_put dense code ab =
     (let dense = (if length dense \<le> code then resize dense (code + 1) None else dense)
      in dense[code := Some ab])"

function abbrevs_loop :: "cur \<Rightarrow> abbrev_table \<Rightarrow> abbrev_table option" where
  "abbrevs_loop c dense = do {
     (code, c) \<leftarrow> cur_uleb c;
     if code = 0 then Some dense
     else do {
       (tag, c) \<leftarrow> cur_uleb c;
       (children, c) \<leftarrow> cur_u8 c;
       (attrs, c) \<leftarrow> attrs_loop c [];
       if 2 ^ 20 < unat code then None
       else abbrevs_loop c (dense_put dense (unat code)
              \<lparr>ab_tag = ucast tag, ab_children = (children \<noteq> 0), ab_attrs = attrs\<rparr>) } }"
  by pat_completeness auto
termination
  by (relation "measure (\<lambda>(c, d). length (cur_data c) - cur_pos c)")
    (auto dest!: uleb.rd_shrinks u8.rd_shrinks attrs.rd_shrinks)

declare abbrevs_loop.simps [simp del]

definition abbrevs_parse :: "bytes \<Rightarrow> nat \<Rightarrow> abbrev_table option" where
  "abbrevs_parse sec off = abbrevs_loop (cur_new sec off) []"

definition abbrevs_get :: "abbrev_table \<Rightarrow> u64 \<Rightarrow> abbrev option" where
  "abbrevs_get dense code = do { e \<leftarrow> nth_opt dense (unat code); e }"

section \<open>The dense table\<close>

lemma length_dense_put [simp]: "length (dense_put d code ab) = max (length d) (code + 1)"
  by (auto simp: dense_put_def Let_def)

lemma abbrevs_get_put:
  "abbrevs_get (dense_put d k ab) code = (if unat code = k then Some ab else abbrevs_get d code)"
  by (auto simp: abbrevs_get_def dense_put_def Let_def nth_opt_def resize_def nth_list_update nth_append)

definition dense_wf :: "abbrev_table \<Rightarrow> bool" where
  "dense_wf d \<longleftrightarrow> length d \<le> 2 ^ 20 + 1 \<and> abbrevs_get d 0 = None"

lemma dense_put_wf:
  "dense_wf d \<Longrightarrow> 0 < code \<Longrightarrow> code \<le> 2 ^ 20 \<Longrightarrow> dense_wf (dense_put d code ab)"
  by (simp add: dense_wf_def abbrevs_get_put)

lemma abbrevs_loop_wf: "abbrevs_loop c dense = Some d \<Longrightarrow> dense_wf dense \<Longrightarrow> dense_wf d"
proof (induction c dense rule: abbrevs_loop.induct)
  case (1 c dense)
  from 1(2) show ?case
    unfolding abbrevs_loop.simps [of c dense]
    using 1(1,3) by (auto simp: bind_simps dense_put_wf unat_gt_0 split: if_splits)
qed

section \<open>Encoding and parsing a table\<close>

definition enc_attr :: "u16 \<times> u16 \<times> u64 \<Rightarrow> bytes" where
  "enc_attr a = (case a of (at, form, implicit) \<Rightarrow>
     uleb_encode (unat at) @ uleb_encode (unat form) @
     (if form = 0x21 then sleb_encode (sint implicit) else []))"

definition enc_abbrev :: "u64 \<times> abbrev \<Rightarrow> bytes" where
  "enc_abbrev d = (case d of (code, ab) \<Rightarrow>
     uleb_encode (unat code) @ uleb_encode (unat (ab_tag ab)) @ [if ab_children ab then 1 else 0] @
     concat (map enc_attr (ab_attrs ab)) @ [0, 0])"

definition enc_abbrevs :: "(u64 \<times> abbrev) list \<Rightarrow> bytes" where
  "enc_abbrevs ds = concat (map enc_abbrev ds) @ [0]"

text \<open>What a declaration list must satisfy to be encodable: no attribute is the terminator, an
  implicit constant only with its form, and codes between 1 and the limit the parser accepts.\<close>

definition attr_ok :: "u16 \<times> u16 \<times> u64 \<Rightarrow> bool" where
  "attr_ok a = (case a of (at, form, implicit) \<Rightarrow>
     (at \<noteq> 0 \<or> form \<noteq> 0) \<and> (form \<noteq> 0x21 \<longrightarrow> implicit = 0))"

definition decl_ok :: "u64 \<times> abbrev \<Rightarrow> bool" where
  "decl_ok d = (case d of (code, ab) \<Rightarrow>
     0 < unat code \<and> unat code \<le> 2 ^ 20 \<and> list_all attr_ok (ab_attrs ab))"

lemma enc_attr_eq:
  "enc_attr (at, form, implicit) = uleb_encode (unat at) @ uleb_encode (unat form) @
     (if form = 0x21 then sleb_encode (sint implicit) else [])"
  by (simp add: enc_attr_def)

lemma drop_chunk: "drop p D = x @ y \<Longrightarrow> drop (p + length x) D = y"
  by (metis add.commute append_eq_conv_conj drop_drop)

lemma at_chunk:
  assumes "drop p D = x @ y" and "x \<noteq> []"
  shows "cur_new D p = cur_at (take p D) x y" and "cur_new D (p + length x) = cur_after (take p D) x y"
proof -
  have "D = take p D @ x @ y" by (metis append_take_drop_id assms(1))
  moreover have "p < length D" using assms by (metis append_is_Nil_conv drop_all not_less)
  then have "length (take p D) = p" by simp
  ultimately show "cur_new D p = cur_at (take p D) x y"
    and "cur_new D (p + length x) = cur_after (take p D) x y" by metis+
qed

lemma uleb_encode_ne [simp]: "uleb_encode n \<noteq> []"
  using uleb_encode_shape [of n] by (simp add: leb_shape_def)

lemma sleb_encode_ne [simp]: "sleb_encode n \<noteq> []"
  using sleb_encode_shape [of n] by (simp add: leb_shape_def)

lemma read_uleb:
  "drop p D = uleb_encode (unat v) @ y \<Longrightarrow>
     cur_uleb (cur_new D p) = Some (v, cur_new D (p + length (uleb_encode (unat v))))"
  by (metis at_chunk cur_uleb_encode uleb_encode_ne)

lemma read_uleb16:
  "drop p D = uleb_encode (unat (v :: u16)) @ y \<Longrightarrow>
     cur_uleb (cur_new D p) = Some (ucast v, cur_new D (p + length (uleb_encode (unat v))))"
  using read_uleb [of p D "ucast v" y] by (simp add: unat_ucast_up)

lemma read_sleb:
  "drop p D = sleb_encode (sint v) @ y \<Longrightarrow>
     cur_sleb (cur_new D p) = Some (v, cur_new D (p + length (sleb_encode (sint v))))"
  by (metis at_chunk cur_sleb_encode sleb_encode_ne)

lemma read_u8: "drop p D = b # y \<Longrightarrow> cur_u8 (cur_new D p) = Some (b, cur_new D (p + 1))"
  using cur_u8_at [of "take p D" b y] at_chunk [of p D "[b]" y]
  by (metis append_Cons append_Nil length_Cons list.distinct(1) list.size(3) One_nat_def)

lemma uleb_encode_0: "uleb_encode 0 = [0]"
  by (subst uleb_encode.simps) simp

lemma attrs_loop_encode:
  assumes "list_all attr_ok as" and "drop p D = concat (map enc_attr as) @ [0, 0] @ y"
  shows "attrs_loop (cur_new D p) acc =
    Some (acc @ as, cur_new D (p + length (concat (map enc_attr as) @ [0, 0])))"
  using assms
proof (induction as arbitrary: p acc)
  case Nil
  then have "drop p D = uleb_encode (unat (0 :: u64)) @ 0 # y" by (simp add: uleb_encode_0)
  note r1 = read_uleb [OF this]
  have "drop (p + 1) D = uleb_encode (unat (0 :: u64)) @ y"
    using Nil drop_chunk [of p D "[0]" "0 # y"] by (simp add: uleb_encode_0)
  note r2 = read_uleb [OF this]
  show ?case
    by (subst attrs_loop.simps) (use r1 r2 in \<open>simp add: uleb_encode_0\<close>)
next
  case (Cons a as)
  obtain at form imp where a: "a = (at, form, imp)" by (cases a)
  let ?e1 = "uleb_encode (unat at)" and ?e2 = "uleb_encode (unat form)"
  let ?e3 = "if form = 0x21 then sleb_encode (sint imp) else []"
  let ?y = "concat (map enc_attr as) @ [0, 0] @ y"
  have d1: "drop p D = ?e1 @ ?e2 @ ?e3 @ ?y" using Cons.prems a by (simp add: enc_attr_eq)
  note d2 = drop_chunk [OF d1] note d3 = drop_chunk [OF d2] note d4 = drop_chunk [OF d3]
  have imp: "(if form = 0x21 then cur_sleb (cur_new D (p + length ?e1 + length ?e2))
        else Some (0, cur_new D (p + length ?e1 + length ?e2))) =
      Some (imp, cur_new D (p + length ?e1 + length ?e2 + length ?e3))"
  proof (cases "form = 0x21")
    case True
    with d3 have "drop (p + length ?e1 + length ?e2) D = sleb_encode (sint imp) @ ?y" by simp
    from read_sleb [OF this] True show ?thesis by simp
  next
    case False
    with Cons.prems(1) show ?thesis by (simp add: a attr_ok_def)
  qed
  have ne: "\<not> (at = 0 \<and> form = 0)" using Cons.prems(1) by (auto simp: a attr_ok_def)
  have "attrs_loop (cur_new D p) acc =
      attrs_loop (cur_new D (p + length ?e1 + length ?e2 + length ?e3)) (acc @ [a])"
    using imp
    by (subst attrs_loop.simps)
      (simp add: read_uleb16 [OF d1] read_uleb16 [OF d2] a ne split del: if_split)
  with Cons.IH [OF _ d4, of "acc @ [a]"] Cons.prems(1) show ?case
    by (simp add: a enc_attr_eq add.assoc)
qed

lemma abbrevs_loop_encode:
  assumes "list_all decl_ok ds" and "drop p D = enc_abbrevs ds @ y"
  shows "abbrevs_loop (cur_new D p) dense =
    Some (fold (\<lambda>(code, ab) d. dense_put d (unat code) ab) ds dense)"
  using assms
proof (induction ds arbitrary: p dense)
  case Nil
  then have "drop p D = uleb_encode (unat (0 :: u64)) @ y" by (simp add: uleb_encode_0 enc_abbrevs_def)
  from read_uleb [OF this] show ?case by (subst abbrevs_loop.simps) simp
next
  case (Cons d ds)
  obtain code ab where d: "d = (code, ab)" by (cases d)
  let ?e1 = "uleb_encode (unat code)" and ?e2 = "uleb_encode (unat (ab_tag ab))"
  let ?ch = "if ab_children ab then 1 else 0 :: u8"
  let ?e3 = "concat (map enc_attr (ab_attrs ab)) @ [0, 0]"
  have d1: "drop p D = ?e1 @ ?e2 @ [?ch] @ ?e3 @ enc_abbrevs ds @ y"
    using Cons.prems d by (simp add: enc_abbrev_def enc_abbrevs_def)
  note d2 = drop_chunk [OF d1] note d3 = drop_chunk [OF d2] note d4 = drop_chunk [OF d3]
  from d4 have d4': "drop (p + length ?e1 + length ?e2 + length [?ch]) D =
      concat (map enc_attr (ab_attrs ab)) @ [0, 0] @ enc_abbrevs ds @ y" by simp
  note d5 = drop_chunk [OF d4]
  have ok: "code \<noteq> 0" "\<not> 2 ^ 20 < unat code" "list_all attr_ok (ab_attrs ab)"
    using Cons.prems(1) by (auto simp: d decl_ok_def)
  have "drop (p + length ?e1 + length ?e2) D = ?ch # ?e3 @ enc_abbrevs ds @ y" using d3 by simp
  note r3 = read_u8 [OF this]
  note r4 = attrs_loop_encode [OF ok(3) d4', of "[]"]
  have ab: "\<lparr>ab_tag = ucast (ucast (ab_tag ab) :: u64), ab_children = (?ch \<noteq> 0), ab_attrs = ab_attrs ab\<rparr> = ab"
    by simp
  have "abbrevs_loop (cur_new D p) dense =
      abbrevs_loop (cur_new D (p + length ?e1 + length ?e2 + length [?ch] + length ?e3))
        (dense_put dense (unat code) ab)"
    using ok r3 r4 ab
    by (subst abbrevs_loop.simps)
      (simp add: read_uleb [OF d1] read_uleb16 [OF d2] split del: if_split)
  with Cons.IH [OF _ d5] Cons.prems(1) show ?case by (simp add: d)
qed

lemma abbrevs_get_fold:
  "abbrevs_get (fold (\<lambda>(code, ab) d. dense_put d (unat code) ab) ds dense) k =
     (case map_of (rev ds) k of Some ab \<Rightarrow> Some ab | None \<Rightarrow> abbrevs_get dense k)"
  by (induction ds arbitrary: dense)
    (auto simp: abbrevs_get_put map_add_def word_unat_eq_iff split: option.splits)

text \<open>C8. Abbreviation tables. Parsing the encoding of any list of declarations succeeds; the table stays
  within its bound of \<open>2 ^ 20 + 1\<close> slots, leaves code 0 free and answers every code with its last
  declaration.\<close>

theorem abbrevs_roundtrip:
  assumes "list_all decl_ok ds"
  shows "\<exists>t. abbrevs_parse (pre @ enc_abbrevs ds @ suf) (length pre) = Some t \<and> dense_wf t \<and>
    (\<forall>k. abbrevs_get t k = map_of (rev ds) k)"
proof -
  have "drop (length pre) (pre @ enc_abbrevs ds @ suf) = enc_abbrevs ds @ suf" by simp
  note p = abbrevs_loop_encode [OF assms this, of "[]"]
  have "dense_wf []" by (simp add: dense_wf_def abbrevs_get_def nth_opt_def)
  with p abbrevs_loop_wf [OF p] show ?thesis
    by (auto simp: abbrevs_parse_def abbrevs_get_fold abbrevs_get_def [of "[]"] nth_opt_def split: option.split)
qed

theorem abbrevs_roundtrip_witness:
  "\<exists>t. abbrevs_parse ([9] @ enc_abbrevs [(2, \<lparr>ab_tag = 0x11, ab_children = True, ab_attrs = [(3, 0x21, 5)]\<rparr>)] @ [7]) 1
     = Some t \<and> abbrevs_get t 2 = Some \<lparr>ab_tag = 0x11, ab_children = True, ab_attrs = [(3, 0x21, 5)]\<rparr> \<and>
     abbrevs_get t 1 = None"
proof -
  let ?ds = "[(2, \<lparr>ab_tag = 0x11, ab_children = True, ab_attrs = [(3, 0x21, 5)]\<rparr>)] :: (u64 \<times> abbrev) list"
  have "list_all decl_ok ?ds" by (simp add: decl_ok_def attr_ok_def)
  from abbrevs_roundtrip [OF this, of "[9]" "[7]"] show ?thesis by auto
qed

end
