(* ===== verification/Rust_Str.thy ===== *)
theory Rust_Str
  imports Prelude "HOL-Library.Sublist"
begin

text \<open>
  The string operations of the Rust standard library the sources use. A \<^verbatim>\<open>str\<close> or \<^verbatim>\<open>String\<close> is
  its UTF-8 byte list; literals are written \<open>lit ''abc''\<close>. \<open>utf8_lossy\<close> is
  \<^verbatim>\<open>String::from_utf8_lossy\<close> (each maximal invalid prefix becomes U+FFFD), \<open>str_trim\<close> is
  \<^verbatim>\<open>str::trim\<close> over the Unicode white space characters, the \<open>find\<close> and \<open>split\<close> functions act
  on byte patterns, and \<open>parse_radix\<close> is the digit loop behind \<^verbatim>\<open>from_str_radix\<close> and
  \<^verbatim>\<open>str::parse\<close> with their overflow check.
\<close>

type_synonym str = "8 word list"

definition lit :: "string \<Rightarrow> str" where
  "lit cs = map of_char cs"

section \<open>UTF-8\<close>

definition utf8_cont :: "u8 \<Rightarrow> bool" where
  "utf8_cont b \<longleftrightarrow> 0x80 \<le> b \<and> b \<le> 0xbf"

text \<open>Whether the second byte may follow a three- or four-byte lead.\<close>

definition utf8_second :: "u8 \<Rightarrow> u8 \<Rightarrow> bool" where
  "utf8_second b n \<longleftrightarrow>
     (if b = 0xe0 then 0xa0 \<le> n \<and> n \<le> 0xbf
      else if b = 0xed then 0x80 \<le> n \<and> n \<le> 0x9f
      else if b = 0xf0 then 0x90 \<le> n \<and> n \<le> 0xbf
      else if b = 0xf4 then 0x80 \<le> n \<and> n \<le> 0x8f
      else utf8_cont n)"

text \<open>The first scalar of a byte list: how many bytes it takes and whether they are valid. An
  invalid one spans the lead and the continuation bytes accepted before the failure.\<close>

fun utf8_head :: "bytes \<Rightarrow> nat \<times> bool" where
  "utf8_head [] = (0, True)"
| "utf8_head (b # bs) =
     (let n1 = (case bs of [] \<Rightarrow> 0 | x # _ \<Rightarrow> x);
          n2 = (case bs of _ # x # _ \<Rightarrow> x | _ \<Rightarrow> 0);
          n3 = (case bs of _ # _ # x # _ \<Rightarrow> x | _ \<Rightarrow> 0)
      in if b < 0x80 then (1, True)
         else if 0xc2 \<le> b \<and> b \<le> 0xdf then (if utf8_cont n1 then (2, True) else (1, False))
         else if 0xe0 \<le> b \<and> b \<le> 0xef then
           (if \<not> utf8_second b n1 then (1, False)
            else if \<not> utf8_cont n2 then (2, False) else (3, True))
         else if 0xf0 \<le> b \<and> b \<le> 0xf4 then
           (if \<not> utf8_second b n1 then (1, False)
            else if \<not> utf8_cont n2 then (2, False)
            else if \<not> utf8_cont n3 then (3, False) else (4, True))
         else (1, False))"

lemma utf8_head_pos: "bs \<noteq> [] \<Longrightarrow> 0 < fst (utf8_head bs)"
  by (cases bs) (auto simp: Let_def)

function utf8_lossy :: "bytes \<Rightarrow> str" where
  "utf8_lossy bs =
     (if bs = [] then []
      else let (n, ok) = utf8_head bs
           in (if ok then take n bs else [0xef, 0xbf, 0xbd]) @ utf8_lossy (drop n bs))"
  by pat_completeness auto
termination
proof (relation "measure length", goal_cases)
  case (2 bs p n ok)
  with utf8_head_pos [of bs] have "0 < n" by (metis fst_conv)
  with 2 show ?case by (simp add: length_greater_0_conv [symmetric] del: length_greater_0_conv)
qed simp

declare utf8_lossy.simps [simp del] utf8_head.simps [simp del]

definition is_ascii :: "bytes \<Rightarrow> bool" where
  "is_ascii bs \<longleftrightarrow> list_all (\<lambda>b. b < 0x80) bs"

lemma utf8_lossy_ascii: "is_ascii bs \<Longrightarrow> utf8_lossy bs = bs"
proof (induction bs)
  case Nil
  then show ?case by (simp add: utf8_lossy.simps)
next
  case (Cons b bs)
  then have "utf8_head (b # bs) = (1, True)" by (simp add: utf8_head.simps Let_def is_ascii_def)
  with Cons show ?case by (subst utf8_lossy.simps) (simp add: is_ascii_def)
qed

section \<open>White space\<close>

text \<open>\<open>ascii_ws\<close> is \<^verbatim>\<open>u8::is_ascii_whitespace\<close>, \<open>latin1_ws\<close> is \<^verbatim>\<open>char::is_whitespace\<close> on a byte
  cast to \<^verbatim>\<open>char\<close>.\<close>

definition ascii_ws :: "u8 \<Rightarrow> bool" where
  "ascii_ws b \<longleftrightarrow> b = 0x20 \<or> b = 0x09 \<or> b = 0x0a \<or> b = 0x0c \<or> b = 0x0d"

definition latin1_ws :: "u8 \<Rightarrow> bool" where
  "latin1_ws b \<longleftrightarrow> (0x09 \<le> b \<and> b \<le> 0x0d) \<or> b = 0x20 \<or> b = 0x85 \<or> b = 0xa0"

definition unicode_ws :: "bytes list" where
  "unicode_ws =
     [[0x09], [0x0a], [0x0b], [0x0c], [0x0d], [0x20], [0xc2, 0x85], [0xc2, 0xa0], [0xe1, 0x9a, 0x80],
      [0xe2, 0x80, 0x80], [0xe2, 0x80, 0x81], [0xe2, 0x80, 0x82], [0xe2, 0x80, 0x83],
      [0xe2, 0x80, 0x84], [0xe2, 0x80, 0x85], [0xe2, 0x80, 0x86], [0xe2, 0x80, 0x87],
      [0xe2, 0x80, 0x88], [0xe2, 0x80, 0x89], [0xe2, 0x80, 0x8a], [0xe2, 0x80, 0xa8],
      [0xe2, 0x80, 0xa9], [0xe2, 0x80, 0xaf], [0xe2, 0x81, 0x9f], [0xe3, 0x80, 0x80]]"

definition starts_with :: "'a list \<Rightarrow> 'a list \<Rightarrow> bool" where
  "starts_with pat xs \<longleftrightarrow> take (length pat) xs = pat"

definition ends_with :: "'a list \<Rightarrow> 'a list \<Rightarrow> bool" where
  "ends_with pat xs \<longleftrightarrow> starts_with (rev pat) (rev xs)"

definition strip_prefix :: "'a list \<Rightarrow> 'a list \<Rightarrow> 'a list option" where
  "strip_prefix pat xs = (if starts_with pat xs then Some (drop (length pat) xs) else None)"

definition strip_suffix :: "'a list \<Rightarrow> 'a list \<Rightarrow> 'a list option" where
  "strip_suffix pat xs = (if ends_with pat xs then Some (take (length xs - length pat) xs) else None)"

lemma starts_with_prefix: "starts_with pat xs \<longleftrightarrow> prefix pat xs"
  by (auto simp: starts_with_def prefix_def append_eq_conv_conj) (metis append_take_drop_id)

lemma strip_prefix_Some: "strip_prefix pat xs = Some ys \<longleftrightarrow> xs = pat @ ys"
  by (auto simp: strip_prefix_def starts_with_def) (metis append_take_drop_id)

text \<open>One round of \<^verbatim>\<open>trim_start\<close> with the given white space encodings; the same on the reversed
  string is \<^verbatim>\<open>trim_end\<close>.\<close>

fun strip_one :: "bytes list \<Rightarrow> bytes \<Rightarrow> bytes option" where
  "strip_one [] xs = None"
| "strip_one (w # ws) xs = (if w \<noteq> [] \<and> starts_with w xs then Some (drop (length w) xs) else strip_one ws xs)"

lemma strip_one_shorter: "strip_one ws xs = Some ys \<Longrightarrow> length ys < length xs"
proof (induction ws)
  case (Cons w ws)
  have "w \<noteq> [] \<Longrightarrow> starts_with w xs \<Longrightarrow> length xs - length w < length xs"
    by (cases xs) (auto simp: starts_with_def)
  with Cons show ?case by (auto split: if_splits)
qed simp

function trim_ws :: "bytes list \<Rightarrow> bytes \<Rightarrow> bytes" where
  "trim_ws ws xs = (case strip_one ws xs of None \<Rightarrow> xs | Some ys \<Rightarrow> trim_ws ws ys)"
  by pat_completeness auto
termination
  by (relation "measure (\<lambda>(ws, xs). length xs)") (auto dest: strip_one_shorter)

declare trim_ws.simps [simp del]

definition str_trim_start :: "str \<Rightarrow> str" where
  "str_trim_start xs = trim_ws unicode_ws xs"

definition str_trim_end :: "str \<Rightarrow> str" where
  "str_trim_end xs = rev (trim_ws (map rev unicode_ws) (rev xs))"

definition str_trim :: "str \<Rightarrow> str" where
  "str_trim xs = str_trim_end (str_trim_start xs)"

text \<open>A string that begins (ends) with a visible ASCII character has nothing to trim there.\<close>

definition visible :: "u8 \<Rightarrow> bool" where
  "visible b \<longleftrightarrow> 0x21 \<le> b \<and> b \<le> 0x7e"

lemma trim_ws_visible: "list_all (\<lambda>w. w \<noteq> [] \<longrightarrow> \<not> visible (hd w)) ws \<Longrightarrow> visible b \<Longrightarrow> trim_ws ws (b # bs) = b # bs"
proof -
  assume "visible b"
  have "list_all (\<lambda>w. w \<noteq> [] \<longrightarrow> \<not> visible (hd w)) ws \<Longrightarrow> strip_one ws (b # bs) = None"
    using \<open>visible b\<close> by (induction ws) (auto simp: starts_with_def neq_Nil_conv)
  then show "list_all (\<lambda>w. w \<noteq> [] \<longrightarrow> \<not> visible (hd w)) ws \<Longrightarrow> ?thesis" by (subst trim_ws.simps) simp
qed

lemma unicode_ws_invisible:
  "list_all (\<lambda>w. w \<noteq> [] \<longrightarrow> \<not> visible (hd w)) unicode_ws" "list_all (\<lambda>w. w \<noteq> [] \<longrightarrow> \<not> visible (hd w)) (map rev unicode_ws)"
  by (simp_all add: unicode_ws_def visible_def)

lemma str_trim_start_code [code]:
  "str_trim_start xs = (case xs of b # _ \<Rightarrow> if visible b then xs else trim_ws unicode_ws xs | [] \<Rightarrow> trim_ws unicode_ws [])"
  by (auto simp: str_trim_start_def trim_ws_visible unicode_ws_invisible split: list.splits)

lemma str_trim_end_code [code]:
  "str_trim_end xs = (case rev xs of b # _ \<Rightarrow> if visible b then xs else rev (trim_ws (map rev unicode_ws) (rev xs))
     | [] \<Rightarrow> rev (trim_ws (map rev unicode_ws) []))"
proof (cases "rev xs")
  case (Cons b bs)
  then have "xs = rev bs @ [b]" by (metis rev.simps(2) rev_rev_ident)
  with Cons show ?thesis by (auto simp: str_trim_end_def trim_ws_visible unicode_ws_invisible)
qed (simp add: str_trim_end_def)

lemma length_trim_ws: "length (trim_ws ws xs) \<le> length xs"
proof (induction ws xs rule: trim_ws.induct)
  case (1 ws xs)
  show ?case
    by (subst trim_ws.simps) (use 1 strip_one_shorter [of ws xs] in \<open>auto split: option.splits dest: less_imp_le_nat le_trans\<close>)
qed

section \<open>Searching and splitting\<close>

text \<open>\<open>find_sub pat xs\<close> is \<^verbatim>\<open>xs.find(pat)\<close>, the byte offset of the first occurrence.\<close>

fun find_sub :: "'a list \<Rightarrow> 'a list \<Rightarrow> nat option" where
  "find_sub pat [] = (if pat = [] then Some 0 else None)"
| "find_sub pat (x # xs) = (if starts_with pat (x # xs) then Some 0 else map_option Suc (find_sub pat xs))"

definition contains_sub :: "'a list \<Rightarrow> 'a list \<Rightarrow> bool" where
  "contains_sub pat xs \<longleftrightarrow> find_sub pat xs \<noteq> None"

lemma find_sub_Some: "find_sub pat xs = Some i \<Longrightarrow> i \<le> length xs \<and> starts_with pat (drop i xs)"
  by (induction xs arbitrary: i) (auto split: if_splits simp: starts_with_def)

lemma find_sub_first: "find_sub pat xs = Some i \<Longrightarrow> j < i \<Longrightarrow> \<not> starts_with pat (drop j xs)"
proof (induction xs arbitrary: i j)
  case (Cons x xs)
  then show ?case by (cases j) (auto split: if_splits)
qed (auto split: if_splits)

lemma find_sub_None: "find_sub pat xs = None \<Longrightarrow> i \<le> length xs \<Longrightarrow> \<not> starts_with pat (drop i xs)"
proof (induction xs arbitrary: i)
  case (Cons x xs)
  then show ?case by (cases i) (auto split: if_splits)
qed (auto simp: starts_with_def split: if_splits)

definition rposition :: "('a \<Rightarrow> bool) \<Rightarrow> 'a list \<Rightarrow> nat option" where
  "rposition P xs = map_option (\<lambda>k. length xs - 1 - k) (position P (rev xs))"

lemma rposition_Some:
  assumes "rposition P xs = Some k"
  shows "k < length xs" and "P (xs ! k)" and "\<And>i. k < i \<Longrightarrow> i < length xs \<Longrightarrow> \<not> P (xs ! i)"
proof -
  from assms obtain m where m: "position P (rev xs) = Some m" and k: "k = length xs - 1 - m"
    by (auto simp: rposition_def)
  from position_Some [OF m] have ml: "m < length xs" and "P (rev xs ! m)"
    and no: "\<And>i. i < m \<Longrightarrow> \<not> P (rev xs ! i)" by auto
  then show "k < length xs" and "P (xs ! k)" using k by (auto simp: rev_nth)
  fix i assume "k < i" "i < length xs"
  then have "length xs - 1 - i < m" using k ml by linarith
  from no [OF this] \<open>i < length xs\<close> show "\<not> P (xs ! i)" by (simp add: rev_nth)
qed

lemma rposition_None: "rposition P xs = None \<longleftrightarrow> (\<forall>x\<in>set xs. \<not> P x)"
  by (simp add: rposition_def position_None)

text \<open>\<open>split_on c xs\<close> is \<^verbatim>\<open>xs.split(c)\<close>: the fields between separators, at least one.\<close>

fun split_on :: "'a \<Rightarrow> 'a list \<Rightarrow> 'a list list" where
  "split_on c [] = [[]]"
| "split_on c (x # xs) =
     (if x = c then [] # split_on c xs
      else case split_on c xs of [] \<Rightarrow> [[x]] | f # fs \<Rightarrow> (x # f) # fs)"

text \<open>\<open>str_lines\<close> is \<^verbatim>\<open>str::lines\<close>: split at \<^verbatim>\<open>\n\<close>, drop a \<^verbatim>\<open>\r\<close> before it, no empty last
  line; a last line without \<^verbatim>\<open>\n\<close> is kept as it is.\<close>

definition strip_cr :: "str \<Rightarrow> str" where
  "strip_cr l = (if l \<noteq> [] \<and> last l = 0x0d then butlast l else l)"

definition str_lines :: "str \<Rightarrow> str list" where
  "str_lines xs =
     (let fs = split_on 0x0a xs in map strip_cr (butlast fs) @ (if last fs = [] then [] else [last fs]))"

section \<open>Numbers\<close>

definition to_digit :: "nat \<Rightarrow> u8 \<Rightarrow> nat option" where
  "to_digit radix b =
     (let d = (if 0x30 \<le> b \<and> b \<le> 0x39 then unat b - 0x30
               else if 0x61 \<le> b \<and> b \<le> 0x7a then unat b - 0x61 + 10
               else if 0x41 \<le> b \<and> b \<le> 0x5a then unat b - 0x41 + 10
               else 36)
      in if d < radix then Some d else None)"

fun radix_val :: "nat \<Rightarrow> nat \<Rightarrow> str \<Rightarrow> nat option" where
  "radix_val radix acc [] = Some acc"
| "radix_val radix acc (b # bs) =
     (case to_digit radix b of None \<Rightarrow> None | Some d \<Rightarrow> radix_val radix (acc * radix + d) bs)"

text \<open>\<open>parse_unsigned radix lim\<close>: \<^verbatim>\<open>from_str_radix\<close> of an unsigned type with values below \<open>lim\<close>. A
  single leading \<^verbatim>\<open>+\<close> is accepted; an empty digit string and an overflow are errors.\<close>

definition parse_unsigned :: "nat \<Rightarrow> nat \<Rightarrow> str \<Rightarrow> nat option" where
  "parse_unsigned radix lim xs =
     (let ds = (case xs of b # bs \<Rightarrow> if b = 0x2b then bs else xs | [] \<Rightarrow> [])
      in if ds = [] then None
         else case radix_val radix 0 ds of
           None \<Rightarrow> None
         | Some v \<Rightarrow> if v < lim then Some v else None)"

definition parse_u64_radix :: "nat \<Rightarrow> str \<Rightarrow> u64 option" where
  "parse_u64_radix radix xs = map_option of_nat (parse_unsigned radix (2 ^ 64) xs)"

definition parse_usize :: "str \<Rightarrow> nat option" where
  "parse_usize xs = parse_unsigned 10 (2 ^ 64) xs"

text \<open>\<^verbatim>\<open>str::parse::<i64>\<close>: an optional sign and decimal digits in range.\<close>

definition parse_i64 :: "str \<Rightarrow> int option" where
  "parse_i64 xs =
     (case xs of
        b # bs \<Rightarrow>
          (if b = 0x2d
           then (if bs = [] then None
                 else case radix_val 10 0 bs of
                   None \<Rightarrow> None
                 | Some v \<Rightarrow> if v \<le> 2 ^ 63 then Some (- int v) else None)
           else map_option int (parse_unsigned 10 (2 ^ 63) xs))
      | [] \<Rightarrow> None)"

section \<open>Formatting\<close>

definition hex_digit :: "nat \<Rightarrow> u8" where
  "hex_digit d = (if d < 10 then of_nat (0x30 + d) else of_nat (0x57 + d))"

fun show_radix :: "nat \<Rightarrow> nat \<Rightarrow> str" where
  "show_radix radix n =
     (if radix < 2 then []
      else if n < radix then [hex_digit n]
      else show_radix radix (n div radix) @ [hex_digit (n mod radix)])"

declare show_radix.simps [simp del]

definition show_hex :: "nat \<Rightarrow> str" where
  "show_hex n = show_radix 16 n"

definition show_dec :: "nat \<Rightarrow> str" where
  "show_dec n = show_radix 10 n"

definition show_int :: "int \<Rightarrow> str" where
  "show_int i = (if i < 0 then 0x2d # show_dec (nat (- i)) else show_dec (nat i))"

lemma hex_digit_radix: "d < 16 \<Longrightarrow> d < radix \<Longrightarrow> to_digit radix (hex_digit d) = Some d"
proof -
  assume d: "d < 16" "d < radix"
  have w: "unat (of_nat (0x30 + d) :: u8) = 0x30 + d" "unat (of_nat (0x57 + d) :: u8) = 0x57 + d"
    using d by (simp_all only: unsigned_of_nat) (simp_all add: take_bit_nat_eq_self)
  show ?thesis
  proof (cases "d < 10")
    case True
    then have "unat (hex_digit d) = 0x30 + d" by (simp only: hex_digit_def w if_True)
    with True d show ?thesis by (simp add: to_digit_def word_le_nat_alt)
  next
    case False
    then have "unat (hex_digit d) = 0x57 + d" by (simp only: hex_digit_def w if_False)
    with False d show ?thesis by (simp add: to_digit_def word_le_nat_alt)
  qed
qed

lemma radix_val_append:
  "radix_val r a (xs @ ys) = (case radix_val r a xs of None \<Rightarrow> None | Some v \<Rightarrow> radix_val r v ys)"
  by (induction xs arbitrary: a) (auto split: option.splits)

lemma radix_val_show:
  "2 \<le> radix \<Longrightarrow> radix \<le> 16 \<Longrightarrow> radix_val radix 0 (show_radix radix n) = Some n"
proof (induction radix n rule: show_radix.induct)
  case (1 radix n)
  show ?case
  proof (cases "n < radix")
    case True
    with 1 show ?thesis by (subst show_radix.simps) (simp add: hex_digit_radix)
  next
    case False
    with 1 have "radix_val radix 0 (show_radix radix (n div radix)) = Some (n div radix)" by simp
    moreover have "n mod radix < radix" using 1 by simp
    moreover from this have "to_digit radix (hex_digit (n mod radix)) = Some (n mod radix)"
      using 1 by (intro hex_digit_radix) linarith+
    ultimately show ?thesis
      using 1 False by (subst show_radix.simps) (simp add: radix_val_append)
  qed
qed

end
