(* ===== verification/Dwarf_Unit.thy ===== *)
theory Dwarf_Unit
  imports Dwarf_Abbrev Rust_Str
begin

text \<open>
  Compilation units, \<^verbatim>\<open>vock/src/dwarf/unit.rs\<close>, with the value readers of
  \<^verbatim>\<open>vock/src/dwarf/mod.rs\<close> they call: \<open>sections\<close> is \<^verbatim>\<open>Sections\<close>, \<open>unit_rec\<close> is \<^verbatim>\<open>Unit\<close> without
  its two once-cells (the caches are in theory \<^verbatim>\<open>Dwarf_Symbolizer\<close>), \<open>sym_string\<close>,
  \<open>sym_address\<close>, \<open>range_list\<close> and \<open>die_ranges\<close> are the methods of \<^verbatim>\<open>Symbolizer\<close> that only read
  the sections, \<open>unit_parse\<close> is \<^verbatim>\<open>Unit::parse\<close> and \<open>unit_walk\<close> the pass over the DIE tree that
  builds the function table searched by \<open>func_find\<close>.

  Every loop reads at least one byte of its section per round, so all functions are total.
  Shown here: header bounds, that every address range is non-empty, that the function table is
  sorted and its indices are in range, and that the search is exact on disjoint ranges.
\<close>

record sections =
  s_info :: bytes
  s_abbrev :: bytes
  s_str :: bytes
  s_line :: bytes
  s_line_str :: bytes
  s_ranges :: bytes
  s_rnglists :: bytes
  s_addr :: bytes
  s_str_offsets :: bytes
  s_aranges :: bytes

record unit_rec =
  u_shape :: unit_shape
  u_end :: nat
  u_die_off :: nat
  u_abbrevs :: abbrev_table
  u_lang :: u16
  u_comp_dir :: "str option"
  u_stmt_list :: "nat option"
  u_low_pc :: "val option"
  u_high_pc :: "val option"
  u_ranges :: "val option"
  u_str_offsets_base :: nat
  u_addr_base :: nat
  u_rnglists_base :: nat

definition qualifies :: "u16 \<Rightarrow> bool" where
  "qualifies lang \<longleftrightarrow> lang \<in> {0x04, 0x19, 0x1a, 0x1c, 0x21, 0x2b}"

section \<open>Unit headers\<close>

record unit_header =
  h_shape :: unit_shape
  h_end :: nat
  h_die_off :: nat
  h_abbrev_off :: nat
  h_unit_type :: u8

definition header_rest :: "u16 \<Rightarrow> bool \<Rightarrow> cur \<Rightarrow> ((u8 \<times> u8 \<times> nat) \<times> cur) option" where
  "header_rest version format64 c =
     (if 5 \<le> version then do {
        (ut, c) \<leftarrow> cur_u8 c;
        (asz, c) \<leftarrow> cur_u8 c;
        (ao, c) \<leftarrow> cur_off format64 c;
        (_, c) \<leftarrow>
          (if ut = 0x02 \<or> ut = 0x06 then do {
             (_, c) \<leftarrow> cur_u64 c; (_, c) \<leftarrow> cur_off format64 c; Some ((), c) }
           else if ut = 0x04 \<or> ut = 0x05 then do { (_, c) \<leftarrow> cur_u64 c; Some ((), c) }
           else Some ((), c));
        Some ((ut, asz, ao), c) }
      else do {
        (ao, c) \<leftarrow> cur_off format64 c;
        (asz, c) \<leftarrow> cur_u8 c;
        Some ((0x01, asz, ao), c) })"

definition parse_header :: "bytes \<Rightarrow> nat \<Rightarrow> unit_header option" where
  "parse_header info off = do {
     ((len, format64), c) \<leftarrow> cur_initial_length (cur_new info off);
     end' \<leftarrow> checked_add (cur_pos c) len;
     if length info < end' then None
     else do {
       (version, c) \<leftarrow> cur_u16 c;
       if \<not> (2 \<le> version \<and> version \<le> 5) then None
       else do {
         ((unit_type, addr_size, abbrev_off), c) \<leftarrow> header_rest version format64 c;
         Some \<lparr>h_shape = \<lparr>us_off = off, us_version = version, us_format64 = format64,
                          us_addr_size = addr_size\<rparr>,
               h_end = end', h_die_off = cur_pos c, h_abbrev_off = abbrev_off,
               h_unit_type = unit_type\<rparr> } } }"

section \<open>Strings and addresses\<close>

definition sym_string :: "sections \<Rightarrow> unit_rec \<Rightarrow> val \<Rightarrow> bytes option" where
  "sym_string sec u v =
     (case v of
        Str s \<Rightarrow> Some s
      | Strp o' \<Rightarrow> cstr_at (s_str sec) o'
      | LineStrp o' \<Rightarrow> cstr_at (s_line_str sec) o'
      | Strx i \<Rightarrow> do {
          let osz = (if us_format64 (u_shape u) then 8 else 4);
          m \<leftarrow> checked_mul (unat i) osz;
          at \<leftarrow> checked_add (u_str_offsets_base u) m;
          (o', c) \<leftarrow> cur_off (us_format64 (u_shape u)) (cur_new (s_str_offsets sec) at);
          cstr_at (s_str sec) o' }
      | _ \<Rightarrow> None)"

definition sym_address :: "sections \<Rightarrow> unit_rec \<Rightarrow> val \<Rightarrow> u64 option" where
  "sym_address sec u v =
     (case v of
        Addr a \<Rightarrow> Some a
      | Addrx i \<Rightarrow> do {
          let asz = unat (us_addr_size (u_shape u));
          m \<leftarrow> checked_mul (unat i) asz;
          at \<leftarrow> checked_add (u_addr_base u) m;
          (a, c) \<leftarrow> cur_addr (us_addr_size (u_shape u)) (cur_new (s_addr sec) at);
          Some a }
      | _ \<Rightarrow> None)"

section \<open>Range lists\<close>

text \<open>The \<^verbatim>\<open>.debug_ranges\<close> loop of DWARF 2 to 4; \<open>out\<close> is the vector under construction.\<close>

definition ranges_max :: "u8 \<Rightarrow> u64" where
  "ranges_max asz = (if asz = 8 then - 1 else push_bit ((8 * unat asz) mod 64) 1 - 1)"

function ranges_loop :: "u8 \<Rightarrow> cur \<Rightarrow> u64 \<Rightarrow> (u64 \<times> u64) list \<Rightarrow> (u64 \<times> u64) list" where
  "ranges_loop asz c base out =
     (case do { (b, c) \<leftarrow> cur_addr asz c; (e, c) \<leftarrow> cur_addr asz c; Some ((b, e), c) } of
        None \<Rightarrow> out
      | Some ((b, e), c') \<Rightarrow>
          if b = 0 \<and> e = 0 then out
          else if b = ranges_max asz then ranges_loop asz c' e out
          else if b < e then ranges_loop asz c' base (out @ [(base + b, base + e)])
          else ranges_loop asz c' base out)"
  by pat_completeness auto
termination
  by (relation "measure (\<lambda>(asz, c, b, out). length (cur_data c) - cur_pos c)")
    (auto simp: bind_simps dest!: addr.rd_shrinks)

declare ranges_loop.simps [simp del]

text \<open>The \<^verbatim>\<open>.debug_rnglists\<close> loop of DWARF 5. One entry yields a new base address or a pair of
  optional bounds; a kind the \<^verbatim>\<open>match\<close> does not know ends the list.\<close>

datatype rle = RleBase u64 | RlePair "u64 option" "u64 option"

definition rnglist_entry :: "sections \<Rightarrow> unit_rec \<Rightarrow> u64 \<Rightarrow> u8 \<Rightarrow> cur \<Rightarrow> (rle \<times> cur) option" where
  "rnglist_entry sec u base kind c =
     (let asz = us_addr_size (u_shape u); addrx = (\<lambda>i. sym_address sec u (Addrx i)) in
      if kind = 1 then do {
        (i, c) \<leftarrow> cur_uleb c; Some (RleBase (case addrx i of Some a \<Rightarrow> a | None \<Rightarrow> 0), c) }
      else if kind = 2 then do {
        (s, c) \<leftarrow> cur_uleb c; (e, c) \<leftarrow> cur_uleb c; Some (RlePair (addrx s) (addrx e), c) }
      else if kind = 3 then do {
        (s, c) \<leftarrow> cur_uleb c; (l, c) \<leftarrow> cur_uleb c;
        Some (RlePair (addrx s) (map_option (\<lambda>s. s + l) (addrx s)), c) }
      else if kind = 4 then do {
        (s, c) \<leftarrow> cur_uleb c; (e, c) \<leftarrow> cur_uleb c;
        Some (RlePair (Some (base + s)) (Some (base + e)), c) }
      else if kind = 5 then do { (b, c) \<leftarrow> cur_addr asz c; Some (RleBase b, c) }
      else if kind = 6 then do {
        (s, c) \<leftarrow> cur_addr asz c; (e, c) \<leftarrow> cur_addr asz c; Some (RlePair (Some s) (Some e), c) }
      else if kind = 7 then do {
        (s, c) \<leftarrow> cur_addr asz c; (l, c) \<leftarrow> cur_uleb c; Some (RlePair (Some s) (Some (s + l)), c) }
      else None)"

lemma adv_rnglist_entry: "adv c (rnglist_entry sec u base kind c)"
  unfolding rnglist_entry_def Let_def
  by (intro adv_if adv_bind adv_Some adv_None adv_reads)

interpretation rle: reader "rnglist_entry sec u base kind" for sec u base kind
  by unfold_locales (rule adv_rnglist_entry)

definition push_range :: "u64 option \<Rightarrow> u64 option \<Rightarrow> (u64 \<times> u64) list \<Rightarrow> (u64 \<times> u64) list" where
  "push_range s e out =
     (case (s, e) of (Some s, Some e) \<Rightarrow> if s < e then out @ [(s, e)] else out | _ \<Rightarrow> out)"

function rnglists_loop ::
  "sections \<Rightarrow> unit_rec \<Rightarrow> cur \<Rightarrow> u64 \<Rightarrow> (u64 \<times> u64) list \<Rightarrow> (u64 \<times> u64) list" where
  "rnglists_loop sec u c base out =
     (case cur_u8 c of
        None \<Rightarrow> out
      | Some (kind, c1) \<Rightarrow>
          if kind = 0 then out
          else case rnglist_entry sec u base kind c1 of
            None \<Rightarrow> out
          | Some (RleBase b, c2) \<Rightarrow> rnglists_loop sec u c2 b out
          | Some (RlePair s e, c2) \<Rightarrow> rnglists_loop sec u c2 base (push_range s e out))"
  by pat_completeness auto
termination
proof (relation "measure (\<lambda>(sec, u, c, b, out). length (cur_data c) - cur_pos c)", goal_cases)
  case (2 sec u c base out x kind c1 y r c2 b)
  then have "length (cur_data c1) - cur_pos c1 < length (cur_data c) - cur_pos c"
    and "cur_data c2 = cur_data c1" "cur_pos c1 \<le> cur_pos c2"
    by (auto dest: u8.rd_shrinks rle.rd_data rle.rd_forward)
  then show ?case by simp
next
  case (3 sec u c base out x kind c1 y r c2 s e)
  then have "length (cur_data c1) - cur_pos c1 < length (cur_data c) - cur_pos c"
    and "cur_data c2 = cur_data c1" "cur_pos c1 \<le> cur_pos c2"
    by (auto dest: u8.rd_shrinks rle.rd_data rle.rd_forward)
  then show ?case by simp
qed simp

declare rnglists_loop.simps [simp del]

definition range_list :: "sections \<Rightarrow> unit_rec \<Rightarrow> val \<Rightarrow> u64 \<Rightarrow> (u64 \<times> u64) list" where
  "range_list sec u v base =
     (if us_version (u_shape u) < 5
      then (case v of
              SecOff off \<Rightarrow> ranges_loop (us_addr_size (u_shape u)) (cur_new (s_ranges sec) off) base []
            | _ \<Rightarrow> [])
      else
        (case (case v of
                 SecOff off \<Rightarrow> Some off
               | Rnglistx i \<Rightarrow> do {
                   let osz = (if us_format64 (u_shape u) then 8 else 4);
                   at \<leftarrow> checked_add (u_rnglists_base u) (wmul (unat i) osz);
                   (rel, c) \<leftarrow> cur_off (us_format64 (u_shape u)) (cur_new (s_rnglists sec) at);
                   Some (wadd (u_rnglists_base u) rel) }
               | _ \<Rightarrow> None) of
           None \<Rightarrow> []
         | Some off \<Rightarrow> rnglists_loop sec u (cur_new (s_rnglists sec) off) base []))"

definition die_ranges ::
  "sections \<Rightarrow> unit_rec \<Rightarrow> val option \<Rightarrow> val option \<Rightarrow> val option \<Rightarrow> (u64 \<times> u64) list" where
  "die_ranges sec u lo hi ranges =
     (let base = (case u_low_pc u \<bind> sym_address sec u of Some a \<Rightarrow> a | None \<Rightarrow> 0)
      in case ranges of
           Some r \<Rightarrow> range_list sec u r base
         | None \<Rightarrow>
             (case (lo, hi) of
                (Some lo, Some hi) \<Rightarrow>
                  (case sym_address sec u lo of
                     None \<Rightarrow> []
                   | Some lo \<Rightarrow>
                       (case (case hi of
                                Addr _ \<Rightarrow> sym_address sec u hi
                              | Addrx _ \<Rightarrow> sym_address sec u hi
                              | Udata n \<Rightarrow> Some (lo + n)
                              | Sdata n \<Rightarrow> Some (lo + n)
                              | _ \<Rightarrow> None) of
                          Some hi \<Rightarrow> if lo < hi then [(lo, hi)] else []
                        | None \<Rightarrow> []))
              | _ \<Rightarrow> []))"

section \<open>Parsing a unit\<close>

text \<open>The attribute loop: the values of a DIE in declaration order, or failure at the first form
  that cannot be read. The \<^verbatim>\<open>match at\<close> of the three callers is a fold over the result.\<close>

fun read_attrs ::
  "unit_shape \<Rightarrow> (u16 \<times> u16 \<times> u64) list \<Rightarrow> cur \<Rightarrow> ((u16 \<times> val) list \<times> cur) option" where
  "read_attrs shape [] c = Some ([], c)"
| "read_attrs shape ((at, form, imp) # as) c = do {
     (v, c) \<leftarrow> read_form c form shape imp;
     (vs, c) \<leftarrow> read_attrs shape as c;
     Some ((at, v) # vs, c) }"

lemma adv_read_attrs: "adv c (read_attrs shape as c)"
  by (induction shape as c rule: read_attrs.induct)
    (auto intro!: adv_bind adv_Some adv_read_form)

interpretation attr_vals: reader "read_attrs shape as" for shape as
  by unfold_locales (rule adv_read_attrs)

definition as_u64_or :: "u64 \<Rightarrow> val \<Rightarrow> u64" where
  "as_u64_or d v = (case val_as_u64 v of Some x \<Rightarrow> x | None \<Rightarrow> d)"

definition unit_attr :: "unit_rec \<times> val option \<Rightarrow> u16 \<times> val \<Rightarrow> unit_rec \<times> val option" where
  "unit_attr s av =
     (case s of (u, comp_dir) \<Rightarrow> case av of (at, v) \<Rightarrow>
        if at = 0x10 then (u\<lparr>u_stmt_list := map_option unat (val_as_u64 v)\<rparr>, comp_dir)
        else if at = 0x11 then (u\<lparr>u_low_pc := Some v\<rparr>, comp_dir)
        else if at = 0x12 then (u\<lparr>u_high_pc := Some v\<rparr>, comp_dir)
        else if at = 0x55 then (u\<lparr>u_ranges := Some v\<rparr>, comp_dir)
        else if at = 0x13 then (u\<lparr>u_lang := ucast (as_u64_or 0 v)\<rparr>, comp_dir)
        else if at = 0x1b then (u, Some v)
        else if at = 0x72 then (u\<lparr>u_str_offsets_base := unat (as_u64_or 8 v)\<rparr>, comp_dir)
        else if at = 0x73 then (u\<lparr>u_addr_base := unat (as_u64_or 8 v)\<rparr>, comp_dir)
        else if at = 0x74 then (u\<lparr>u_rnglists_base := unat (as_u64_or 0 v)\<rparr>, comp_dir)
        else (u, comp_dir))"

text \<open>\<^verbatim>\<open>Unit::parse\<close> after the lookup of the abbreviation table, which goes through a cache.\<close>

definition unit_init :: "unit_header \<Rightarrow> abbrev_table \<Rightarrow> unit_rec" where
  "unit_init h ab =
     \<lparr>u_shape = h_shape h, u_end = h_end h, u_die_off = h_die_off h, u_abbrevs = ab, u_lang = 0,
      u_comp_dir = None, u_stmt_list = None, u_low_pc = None, u_high_pc = None, u_ranges = None,
      u_str_offsets_base = 8, u_addr_base = 8, u_rnglists_base = 0\<rparr>"

definition unit_parse_with :: "sections \<Rightarrow> unit_header \<Rightarrow> abbrev_table \<Rightarrow> unit_rec option" where
  "unit_parse_with sec h abbrev_tbl = do {
     (code, c) \<leftarrow> cur_uleb (cur_new (s_info sec) (h_die_off h));
     ab \<leftarrow> abbrevs_get abbrev_tbl code;
     if ab_tag ab \<noteq> 0x11 \<and> ab_tag ab \<noteq> 0x3c then None
     else do {
       (vs, c) \<leftarrow> read_attrs (h_shape h) (ab_attrs ab) c;
       let (u, comp_dir) = foldl unit_attr (unit_init h abbrev_tbl, None) vs;
       Some (u\<lparr>u_comp_dir := map_option utf8_lossy (comp_dir \<bind> sym_string sec u)\<rparr>) } }"

definition unit_type_ok :: "u8 \<Rightarrow> bool" where
  "unit_type_ok ut \<longleftrightarrow> ut = 0x01 \<or> ut = 0x03 \<or> ut = 0x04 \<or> ut = 0x05"

definition unit_parse :: "sections \<Rightarrow> nat \<Rightarrow> unit_rec option" where
  "unit_parse sec off = do {
     h \<leftarrow> parse_header (s_info sec) off;
     if \<not> unit_type_ok (h_unit_type h) then None
     else do {
       ab \<leftarrow> abbrevs_parse (s_abbrev sec) (h_abbrev_off h);
       unit_parse_with sec h ab } }"

definition address_ranges :: "sections \<Rightarrow> unit_rec \<Rightarrow> (u64 \<times> u64) list" where
  "address_ranges sec u = die_ranges sec u (u_low_pc u) (u_high_pc u) (u_ranges u)"

section \<open>The walk over the DIE tree\<close>

datatype die_ref = NameNone | NameDirect str | NameDie nat

record inl =
  inl_start :: u64
  inl_end :: u64
  inl_depth :: u16
  inl_name :: die_ref

record sub =
  sub_name :: die_ref
  sub_inlines :: "inl list"

record func_table =
  ft_ranges :: "(u64 \<times> u64 \<times> u32) list"
  ft_subs :: "sub list"
  ft_names :: "nat \<rightharpoonup> str"

record walk_state =
  w_ft :: func_table
  w_depth :: int
  w_scopes :: "(int \<times> str) list"
  w_cur_sub :: "(nat \<times> int) option"
  w_inl_stack :: "int list"

definition walk_init :: walk_state where
  "walk_init = \<lparr>w_ft = \<lparr>ft_ranges = [], ft_subs = [], ft_names = Map.empty\<rparr>, w_depth = 0,
     w_scopes = [], w_cur_sub = None, w_inl_stack = []\<rparr>"

text \<open>\<open>pop_while P xs\<close> is \<^verbatim>\<open>while xs.last().is_some_and(P) { xs.pop(); }\<close>.\<close>

definition pop_while :: "('a \<Rightarrow> bool) \<Rightarrow> 'a list \<Rightarrow> 'a list" where
  "pop_while P xs = rev (dropWhile P (rev xs))"

text \<open>A null entry closes a level; \<^const>\<open>None\<close> is the \<^verbatim>\<open>break\<close> at the end of the tree.\<close>

definition walk_null :: "walk_state \<Rightarrow> walk_state option" where
  "walk_null w =
     (let depth = w_depth w - 1 in
      if depth \<le> 0 then None
      else Some (w\<lparr>w_depth := depth,
             w_scopes := pop_while (\<lambda>s. depth \<le> fst s) (w_scopes w),
             w_inl_stack := pop_while (\<lambda>d. depth \<le> d) (w_inl_stack w),
             w_cur_sub := (case w_cur_sub w of
                             Some (i, d) \<Rightarrow> if depth \<le> d then None else Some (i, d)
                           | None \<Rightarrow> None)\<rparr>))"

text \<open>The last value of an attribute, as the assignments of the \<^verbatim>\<open>match\<close> leave it.\<close>

definition attr_of :: "u16 \<Rightarrow> (u16 \<times> val) list \<Rightarrow> val option" where
  "attr_of at vs = foldl (\<lambda>r av. if fst av = at then Some (snd av) else r) None vs"

definition qualified_name :: "(int \<times> str) list \<Rightarrow> str \<Rightarrow> str" where
  "qualified_name scopes n = concat (map (\<lambda>sc. snd sc @ lit ''::'') scopes) @ n"

definition die_direct :: "sections \<Rightarrow> unit_rec \<Rightarrow> walk_state \<Rightarrow> val option \<Rightarrow> str option" where
  "die_direct sec u w name =
     map_option (\<lambda>n. let n = utf8_lossy n in
                  if qualifies (u_lang u) \<and> w_scopes w \<noteq> [] then qualified_name (w_scopes w) n else n)
       (name \<bind> sym_string sec u)"

definition die_resolved :: "str option \<Rightarrow> val option \<Rightarrow> val option \<Rightarrow> die_ref" where
  "die_resolved direct origin spec =
     (case direct of
        Some d \<Rightarrow> NameDirect d
      | None \<Rightarrow> (case origin of
          Some (Ref o') \<Rightarrow> NameDie o'
        | Some _ \<Rightarrow> NameNone
        | None \<Rightarrow> (case spec of Some (Ref o') \<Rightarrow> NameDie o' | _ \<Rightarrow> NameNone)))"

definition walk_subprogram ::
  "nat \<Rightarrow> abbrev \<Rightarrow> str option \<Rightarrow> die_ref \<Rightarrow> (u64 \<times> u64) list \<Rightarrow> walk_state \<Rightarrow> walk_state" where
  "walk_subprogram die_off ab direct resolved rs w =
     (let ft = w_ft w;
          ft = (case direct of Some d \<Rightarrow> ft\<lparr>ft_names := (ft_names ft)(die_off \<mapsto> d)\<rparr> | None \<Rightarrow> ft)
      in if rs = [] then w\<lparr>w_ft := ft\<rparr>
         else let idx = length (ft_subs ft) in
              w\<lparr>w_ft := ft\<lparr>ft_subs := ft_subs ft @ [\<lparr>sub_name = resolved, sub_inlines = []\<rparr>],
                          ft_ranges := ft_ranges ft @ map (\<lambda>(s, e). (s, e, of_nat idx)) rs\<rparr>,
                w_cur_sub := (if ab_children ab then Some (idx, w_depth w) else w_cur_sub w)\<rparr>)"

definition walk_inlined :: "abbrev \<Rightarrow> die_ref \<Rightarrow> (u64 \<times> u64) list \<Rightarrow> walk_state \<Rightarrow> walk_state" where
  "walk_inlined ab resolved rs w =
     (let w = (case w_cur_sub w of
                 None \<Rightarrow> w
               | Some (idx, _) \<Rightarrow>
                   let d = of_nat (length (w_inl_stack w)) + 1;
                       sub = ft_subs (w_ft w) ! idx;
                       news = map (\<lambda>(s, e). \<lparr>inl_start = s, inl_end = e, inl_depth = d,
                                              inl_name = resolved\<rparr>) rs
                   in w\<lparr>w_ft := (w_ft w)\<lparr>ft_subs :=
                         (ft_subs (w_ft w))[idx := sub\<lparr>sub_inlines := sub_inlines sub @ news\<rparr>]\<rparr>\<rparr>)
      in if ab_children ab then w\<lparr>w_inl_stack := w_inl_stack w @ [w_depth w]\<rparr> else w)"

definition walk_scope :: "sections \<Rightarrow> unit_rec \<Rightarrow> val option \<Rightarrow> walk_state \<Rightarrow> walk_state" where
  "walk_scope sec u name w =
     (let plain = (case name \<bind> sym_string sec u of
                     Some n \<Rightarrow> utf8_lossy n | None \<Rightarrow> lit ''{anon}'')
      in w\<lparr>w_scopes := w_scopes w @ [(w_depth w, plain)]\<rparr>)"

definition walk_die ::
  "sections \<Rightarrow> unit_rec \<Rightarrow> nat \<Rightarrow> abbrev \<Rightarrow> (u16 \<times> val) list \<Rightarrow> walk_state \<Rightarrow> walk_state" where
  "walk_die sec u die_off ab vs w =
     (let name = attr_of 0x03 vs;
          rs = die_ranges sec u (attr_of 0x11 vs) (attr_of 0x12 vs) (attr_of 0x55 vs);
          direct = die_direct sec u w name;
          resolved = die_resolved direct (attr_of 0x31 vs) (attr_of 0x47 vs);
          w = (if ab_tag ab = 0x2e then walk_subprogram die_off ab direct resolved rs w
               else if ab_tag ab = 0x1d then walk_inlined ab resolved rs w
               else if ab_tag ab \<in> {0x39, 0x13, 0x02, 0x17, 0x04} \<and> qualifies (u_lang u) \<and> ab_children ab
               then walk_scope sec u name w
               else w)
      in if ab_children ab then w\<lparr>w_depth := w_depth w + 1\<rparr> else w)"

function walk_loop :: "sections \<Rightarrow> unit_rec \<Rightarrow> cur \<Rightarrow> walk_state \<Rightarrow> walk_state" where
  "walk_loop sec u c w =
     (if u_end u \<le> cur_pos c then w
      else case cur_uleb c of
        None \<Rightarrow> w
      | Some (code, c1) \<Rightarrow>
          if code = 0
          then (case walk_null w of None \<Rightarrow> w | Some w' \<Rightarrow> walk_loop sec u c1 w')
          else (case abbrevs_get (u_abbrevs u) code of
                  None \<Rightarrow> w
                | Some ab \<Rightarrow>
                    (case read_attrs (u_shape u) (ab_attrs ab) c1 of
                       None \<Rightarrow> w
                     | Some (vs, c2) \<Rightarrow> walk_loop sec u c2 (walk_die sec u (cur_pos c) ab vs w))))"
  by pat_completeness auto
termination
proof (relation "measure (\<lambda>(sec, u, c, w). length (cur_data c) - cur_pos c)", goal_cases)
  case (2 sec u c w x code c1 w')
  then show ?case by (auto dest: uleb.rd_shrinks)
next
  case (3 sec u c w x code c1 ab y vs c2)
  then have "length (cur_data c1) - cur_pos c1 < length (cur_data c) - cur_pos c"
    and "cur_data c2 = cur_data c1" "cur_pos c1 \<le> cur_pos c2"
    by (auto dest: uleb.rd_shrinks attr_vals.rd_data attr_vals.rd_forward)
  then show ?case by simp
qed simp

declare walk_loop.simps [simp del]

text \<open>The final sort is unstable in the code; here entries of equal start keep their order. The
  search below is specified for ranges that do not overlap.\<close>

definition unit_walk :: "sections \<Rightarrow> unit_rec \<Rightarrow> func_table" where
  "unit_walk sec u =
     (let ft = w_ft (walk_loop sec u (cur_new (s_info sec) (u_die_off u)) walk_init)
      in ft\<lparr>ft_ranges := sort_key fst (ft_ranges ft)\<rparr>)"

section \<open>Function lookup\<close>

text \<open>The two loops of \<^verbatim>\<open>FuncTable::find\<close>: at most four ranges back from the partition point, then
  the deepest inlined call that covers the address (the first of equally deep ones).\<close>

definition sub_at :: "func_table \<Rightarrow> u64 \<Rightarrow> sub option" where
  "sub_at ft pc =
     (let i = partition_point (\<lambda>r. fst r \<le> pc) (ft_ranges ft) in
      case lookback 4 (\<lambda>j. fst (ft_ranges ft ! j) \<le> pc \<and> pc < fst (snd (ft_ranges ft ! j))) i of
        None \<Rightarrow> None
      | Some j \<Rightarrow> nth_opt (ft_subs ft) (unat (snd (snd (ft_ranges ft ! j)))))"

definition inner_step :: "u64 \<Rightarrow> inl option \<Rightarrow> inl \<Rightarrow> inl option" where
  "inner_step pc best i =
     (if inl_start i \<le> pc \<and> pc < inl_end i \<and>
         (case best of None \<Rightarrow> True | Some b \<Rightarrow> inl_depth b < inl_depth i)
      then Some i else best)"

definition func_find :: "func_table \<Rightarrow> u64 \<Rightarrow> die_ref option" where
  "func_find ft pc = do {
     sub \<leftarrow> sub_at ft pc;
     Some (case foldl (inner_step pc) None (sub_inlines sub) of
             Some i \<Rightarrow> inl_name i | None \<Rightarrow> sub_name sub) }"

section \<open>Correctness\<close>

lemma sadv_inside: "sadv c r \<Longrightarrow> r = Some (v, c') \<Longrightarrow> cur_pos c < cur_pos c' \<and> cur_pos c' \<le> length (cur_data c) \<and> cur_data c' = cur_data c"
  by (auto simp: sadv_def advances_def)

lemma sadv_header_rest: "sadv c (header_rest version format64 c)"
  unfolding header_rest_def
  by (intro sadv_if sadv_bind adv_if adv_bind adv_Some sadv_reads adv_reads)

lemma parse_header_bounds:
  assumes "parse_header info off = Some h"
  shows "off < h_end h" "h_end h \<le> length info" "off < h_die_off h" "h_die_off h \<le> length info"
    "us_off (h_shape h) = off"
proof -
  from assms obtain len f64 c1 version c2 r c3 where
    1: "cur_initial_length (cur_new info off) = Some ((len, f64), c1)"
    and 2: "cur_u16 c1 = Some (version, c2)" and 3: "header_rest version f64 c2 = Some (r, c3)"
    and h: "h_end h = cur_pos c1 + len" "h_end h \<le> length info" "h_die_off h = cur_pos c3"
      "us_off (h_shape h) = off"
    by (auto simp: parse_header_def bind_simps split: if_splits prod.splits)
  from sadv_inside [OF sadv_initial_length 1] sadv_inside [OF sadv_scalars(1) 2]
    sadv_inside [OF sadv_header_rest 3]
  show "off < h_end h" "h_end h \<le> length info" "off < h_die_off h" "h_die_off h \<le> length info"
    "us_off (h_shape h) = off"
    using h by (auto simp: cur_new_def)
qed

text \<open>Address ranges are never empty.\<close>

lemma ranges_loop_nonempty:
  "list_all (\<lambda>r. fst r \<noteq> snd r) out \<Longrightarrow> list_all (\<lambda>r. fst r \<noteq> snd r) (ranges_loop asz c base out)"
proof (induction asz c base out rule: ranges_loop.induct)
  case (1 asz c base out)
  let ?rd = "do { (b, c) \<leftarrow> cur_addr asz c; (e, c) \<leftarrow> cur_addr asz c; Some ((b, e), c) }"
  show ?case
  proof (cases ?rd)
    case None
    with 1(4) show ?thesis by (subst ranges_loop.simps) simp
  next
    case (Some r)
    obtain b e c' where r: "r = ((b, e), c')" by (metis prod.exhaust)
    note IH = 1(1-3) [OF Some r [symmetric] refl]
    show ?thesis
      using 1(4) IH by (subst ranges_loop.simps) (simp add: Some [unfolded r])
  qed
qed

lemma push_range_less:
  "list_all (\<lambda>r. fst r < snd r) out \<Longrightarrow> list_all (\<lambda>r. fst r < snd r) (push_range s e out)"
  by (auto simp: push_range_def split: option.splits)

lemma rnglists_loop_less:
  "list_all (\<lambda>r. fst r < snd r) out \<Longrightarrow> list_all (\<lambda>r. fst r < snd r) (rnglists_loop sec u c base out)"
proof (induction sec u c base out rule: rnglists_loop.induct)
  case (1 sec u c base out)
  show ?case
  proof (cases "cur_u8 c")
    case None
    with 1(3) show ?thesis by (subst rnglists_loop.simps) simp
  next
    case (Some x)
    obtain kind c1 where x: "x = (kind, c1)" by (cases x)
    note IH = 1(1,2) [OF Some x [symmetric]]
    show ?thesis
      using 1(3) IH push_range_less [OF 1(3)] Some x
      by (subst rnglists_loop.simps) (auto split: option.split rle.split prod.split)
  qed
qed

lemma range_list_nonempty: "r \<in> set (range_list sec u v base) \<Longrightarrow> fst r \<noteq> snd r"
proof -
  have 1: "fst r \<noteq> snd r" if "r \<in> set (ranges_loop asz c b [])" for asz c b
    using ranges_loop_nonempty [where out = "[]" and asz = asz and c = c and base = b] that
    by (auto simp: list_all_iff)
  have 2: "fst r \<noteq> snd r" if "r \<in> set (rnglists_loop sec u c b [])" for c b
    using rnglists_loop_less [where out = "[]" and sec = sec and u = u and c = c and base = b] that
    by (auto simp: list_all_iff)
  assume "r \<in> set (range_list sec u v base)"
  then show ?thesis
    unfolding range_list_def by (auto dest: 1 2 split: if_splits option.splits val.splits)
qed

lemma die_ranges_nonempty: "r \<in> set (die_ranges sec u lo hi ranges) \<Longrightarrow> fst r \<noteq> snd r"
proof (cases "ranges = None \<and> lo \<noteq> None \<and> hi \<noteq> None")
  case True
  then obtain l h where *: "ranges = None" "lo = Some l" "hi = Some h" by auto
  have one: "r \<in> set (case hi' of Some hi \<Rightarrow> if l' < hi then [(l', hi)] else [] | None \<Rightarrow> []) \<Longrightarrow>
      fst r \<noteq> snd r" for l' :: u64 and hi'
    by (auto split: option.splits if_splits)
  assume "r \<in> set (die_ranges sec u lo hi ranges)"
  then show ?thesis
    unfolding die_ranges_def Let_def *
    by (cases "sym_address sec u l") (auto simp del: split_paired_All dest!: one)
next
  case False
  assume "r \<in> set (die_ranges sec u lo hi ranges)"
  with False show ?thesis
    unfolding die_ranges_def Let_def
    by (cases ranges; cases lo; cases hi) (auto dest: range_list_nonempty)
qed

text \<open>What the walk maintains: the open subprogram is an entry of \<^verbatim>\<open>subs\<close>, so the indexing
  \<^verbatim>\<open>ft.subs[idx]\<close> never panics, and every range carries the number of an entry.\<close>

definition range_ok :: "nat \<Rightarrow> u64 \<times> u64 \<times> u32 \<Rightarrow> bool" where
  "range_ok n r \<longleftrightarrow> fst r \<noteq> fst (snd r) \<and> (\<exists>k<n. snd (snd r) = of_nat k)"

definition walk_inv :: "walk_state \<Rightarrow> bool" where
  "walk_inv w \<longleftrightarrow>
     (case w_cur_sub w of Some (i, d) \<Rightarrow> i < length (ft_subs (w_ft w)) | None \<Rightarrow> True) \<and>
     list_all (range_ok (length (ft_subs (w_ft w)))) (ft_ranges (w_ft w))"

lemma range_ok_Suc: "list_all (range_ok n) rs \<Longrightarrow> list_all (range_ok (Suc n)) rs"
  by (auto simp: list_all_iff range_ok_def intro: less_SucI)

lemma range_ok_new:
  "(\<And>r. r \<in> set rs \<Longrightarrow> fst r \<noteq> snd r) \<Longrightarrow> list_all (range_ok (Suc n)) (map (\<lambda>(s, e). (s, e, of_nat n)) rs)"
  by (fastforce simp: list_all_iff range_ok_def)

lemma walk_inv_init: "walk_inv walk_init"
  by (simp add: walk_inv_def walk_init_def)

lemma walk_inv_null: "walk_inv w \<Longrightarrow> walk_null w = Some w' \<Longrightarrow> walk_inv w'"
  by (auto simp: walk_inv_def walk_null_def Let_def split: if_splits option.splits)

lemma walk_inv_subprogram:
  assumes "walk_inv w" and "\<And>r. r \<in> set rs \<Longrightarrow> fst r \<noteq> snd r"
  shows "walk_inv (walk_subprogram die_off ab direct resolved rs w)"
  using assms(1) range_ok_new [OF assms(2)]
  by (auto simp: walk_inv_def walk_subprogram_def Let_def range_ok_Suc split: option.splits)

lemma walk_inv_inlined: "walk_inv w \<Longrightarrow> walk_inv (walk_inlined ab resolved rs w)"
  by (auto simp: walk_inv_def walk_inlined_def Let_def split: option.splits)

lemma walk_inv_die: "walk_inv w \<Longrightarrow> walk_inv (walk_die sec u die_off ab vs w)"
proof -
  assume w: "walk_inv w"
  have depth: "walk_inv w' \<Longrightarrow> walk_inv (w'\<lparr>w_depth := d\<rparr>)" for w' d
    by (cases "w_cur_sub w'") (auto simp: walk_inv_def)
  have scope: "walk_inv (walk_scope sec u name w)" for name
    using w by (cases "w_cur_sub w") (auto simp: walk_inv_def walk_scope_def Let_def)
  show ?thesis
    unfolding walk_die_def Let_def
    using w scope walk_inv_subprogram [OF w die_ranges_nonempty] walk_inv_inlined [OF w]
    by (simp add: depth)
qed

lemma walk_inv_loop: "walk_inv w \<Longrightarrow> walk_inv (walk_loop sec u c w)"
proof (induction sec u c w rule: walk_loop.induct)
  case (1 sec u c w)
  show ?case
  proof (cases "u_end u \<le> cur_pos c \<or> cur_uleb c = None")
    case True
    with 1(3) show ?thesis by (subst walk_loop.simps) auto
  next
    case False
    then obtain code c1 where c1: "\<not> u_end u \<le> cur_pos c" "cur_uleb c = Some (code, c1)" by auto
    note IH = 1(1,2) [OF c1 refl]
    show ?thesis
      using 1(3) IH c1 walk_inv_null walk_inv_die
      by (subst walk_loop.simps) (auto split: option.split prod.split)
  qed
qed

lemma unit_walk_index:
  assumes "r \<in> set (ft_ranges (unit_walk sec u))"
  shows "fst r \<noteq> fst (snd r)" and "\<exists>k<length (ft_subs (unit_walk sec u)). snd (snd r) = of_nat k"
  using assms walk_inv_loop [OF walk_inv_init, of sec u "cur_new (s_info sec) (u_die_off u)"]
  by (auto simp: walk_inv_def unit_walk_def Let_def list_all_iff range_ok_def)

interpretation func_tbl: sorted_table fst "ft_ranges (unit_walk sec u)" for sec u
  by unfold_locales (simp add: unit_walk_def Let_def)

definition inl_covers :: "u64 \<Rightarrow> inl \<Rightarrow> bool" where
  "inl_covers pc i \<longleftrightarrow> inl_start i \<le> pc \<and> pc < inl_end i"

lemma inner_step_fold:
  "case foldl (inner_step pc) best ins of
     None \<Rightarrow> best = None \<and> (\<forall>i\<in>set ins. \<not> inl_covers pc i)
   | Some r \<Rightarrow> (best = Some r \<or> r \<in> set ins \<and> inl_covers pc r) \<and>
       (\<forall>i\<in>set ins. inl_covers pc i \<longrightarrow> inl_depth i \<le> inl_depth r) \<and>
       (\<forall>b. best = Some b \<longrightarrow> inl_depth b \<le> inl_depth r)"
proof (induction ins arbitrary: best)
  case Nil
  then show ?case by (simp split: option.splits)
next
  case (Cons i ins)
  show ?case
    using Cons.IH [of "inner_step pc best i"]
    by (auto simp: inner_step_def inl_covers_def split: option.splits if_splits)
qed

lemma inner_name_spec:
  fixes sub pc
  defines "n \<equiv> (case foldl (inner_step pc) None (sub_inlines sub) of
      Some i \<Rightarrow> inl_name i | None \<Rightarrow> sub_name sub)"
  shows "if list_ex (inl_covers pc) (sub_inlines sub)
    then \<exists>i\<in>set (sub_inlines sub). inl_covers pc i \<and> n = inl_name i \<and>
      (\<forall>i'\<in>set (sub_inlines sub). inl_covers pc i' \<longrightarrow> inl_depth i' \<le> inl_depth i)
    else n = sub_name sub"
proof (cases "foldl (inner_step pc) None (sub_inlines sub)")
  case None
  with inner_step_fold [where pc = pc and best = None and ins = "sub_inlines sub"] show ?thesis
    by (simp add: n_def list_ex_iff)
next
  case (Some i)
  with inner_step_fold [where pc = pc and best = None and ins = "sub_inlines sub"]
  have i: "i \<in> set (sub_inlines sub)" "inl_covers pc i"
    "\<forall>i'\<in>set (sub_inlines sub). inl_covers pc i' \<longrightarrow> inl_depth i' \<le> inl_depth i" by simp_all
  moreover from i have "list_ex (inl_covers pc) (sub_inlines sub)" by (auto simp: list_ex_iff)
  moreover have "n = inl_name i" using Some by (simp add: n_def)
  ultimately show ?thesis by auto
qed

lemma unit_walk_sub:
  assumes "r \<in> set (ft_ranges (unit_walk sec u))" and "length (ft_subs (unit_walk sec u)) \<le> 2 ^ 32"
  obtains sub where "nth_opt (ft_subs (unit_walk sec u)) (unat (snd (snd r))) = Some sub"
proof -
  from unit_walk_index(2) [OF assms(1)] obtain k
    where k: "k < length (ft_subs (unit_walk sec u))" "snd (snd r) = of_nat k" by blast
  then have "unat (snd (snd r)) = k"
    using assms(2) by (simp add: unsigned_of_nat take_bit_nat_eq_self)
  with k that show thesis by simp
qed

definition range_covers :: "u64 \<Rightarrow> u64 \<times> u64 \<times> u32 \<Rightarrow> bool" where
  "range_covers pc r \<longleftrightarrow> fst r \<le> pc \<and> pc < fst (snd r)"

text \<open>Ranges sorted by start that do not overlap.\<close>

definition ranges_disjoint :: "(u64 \<times> u64 \<times> 'a) list \<Rightarrow> bool" where
  "ranges_disjoint rs \<longleftrightarrow>
     list_all (\<lambda>j. list_all (\<lambda>i. fst (snd (rs ! i)) \<le> fst (rs ! j)) [0..<j]) [0..<length rs]"

lemma ranges_disjointD:
  "ranges_disjoint rs \<Longrightarrow> i < j \<Longrightarrow> j < length rs \<Longrightarrow> fst (snd (rs ! i)) \<le> fst (rs ! j)"
  by (auto simp: ranges_disjoint_def list_all_iff)

text \<open>C3. The function search of a unit. On the table the DIE walk builds, when the subprogram ranges
  do not overlap, the search fails exactly when no range covers the program counter; otherwise it
  answers with the name of the deepest inlined call of the covering subprogram that covers the
  program counter, or with the subprogram itself when no inlined call does.\<close>

theorem func_find_innermost:
  assumes "ranges_disjoint (ft_ranges (unit_walk sec u))"
    and "length (ft_subs (unit_walk sec u)) \<le> 2 ^ 32"
  shows "case func_find (unit_walk sec u) pc of
      None \<Rightarrow> \<not> list_ex (range_covers pc) (ft_ranges (unit_walk sec u))
    | Some n \<Rightarrow> \<exists>r\<in>set (ft_ranges (unit_walk sec u)). \<exists>sub. range_covers pc r \<and>
        nth_opt (ft_subs (unit_walk sec u)) (unat (snd (snd r))) = Some sub \<and>
        (if list_ex (inl_covers pc) (sub_inlines sub)
         then \<exists>i\<in>set (sub_inlines sub). inl_covers pc i \<and> n = inl_name i \<and>
           (\<forall>i'\<in>set (sub_inlines sub). inl_covers pc i' \<longrightarrow> inl_depth i' \<le> inl_depth i)
         else n = sub_name sub)"
proof -
  let ?ft = "unit_walk sec u"
  let ?j = "lookback 4 (\<lambda>j. fst (ft_ranges ?ft ! j) \<le> pc \<and> pc < fst (snd (ft_ranges ?ft ! j)))
              (partition_point (\<lambda>r. fst r \<le> pc) (ft_ranges ?ft))"
  have exact: "?j = Some j \<longleftrightarrow> j < length (ft_ranges ?ft) \<and> range_covers pc (ft_ranges ?ft ! j)" for j
    unfolding range_covers_def
    by (rule func_tbl.lookback_exact [where hi = "\<lambda>r. fst (snd r)"])
      (simp_all add: ranges_disjointD [OF assms(1)])
  show ?thesis
  proof (cases ?j)
    case None
    have "\<not> (j < length (ft_ranges ?ft) \<and> range_covers pc (ft_ranges ?ft ! j))" for j
      unfolding exact [symmetric] None by simp
    then have "\<not> list_ex (range_covers pc) (ft_ranges ?ft)" unfolding list_ex_length by blast
    moreover have "func_find ?ft pc = None"
      unfolding func_find_def sub_at_def Let_def None by simp
    ultimately show ?thesis by simp
  next
    case (Some j)
    then have "j < length (ft_ranges ?ft)" and cov: "range_covers pc (ft_ranges ?ft ! j)"
      unfolding exact by blast+
    then have r: "ft_ranges ?ft ! j \<in> set (ft_ranges ?ft)" "range_covers pc (ft_ranges ?ft ! j)"
      by (blast intro: nth_mem)+
    from unit_walk_sub [OF r(1) assms(2)] obtain sub
      where sub: "nth_opt (ft_subs ?ft) (unat (snd (snd (ft_ranges ?ft ! j)))) = Some sub" .
    have eq: "func_find ?ft pc = Some (case foldl (inner_step pc) None (sub_inlines sub) of
        Some i \<Rightarrow> inl_name i | None \<Rightarrow> sub_name sub)"
      unfolding func_find_def sub_at_def Let_def Some option.case sub by simp
    show ?thesis
      unfolding eq option.simps
      by (intro bexI [of _ "ft_ranges ?ft ! j"] exI [of _ sub] conjI r sub inner_name_spec)
  qed
qed

definition walk_example_sec :: sections where
  "walk_example_sec =
     \<lparr>s_info = [1, 0x10, 0, 0, 0, 0, 0, 0, 0, 8, 0x66, 0, 2, 0x12, 0, 0, 0, 0, 0, 0, 0, 2, 0x67, 0, 0],
      s_abbrev = [], s_str = [], s_line = [], s_line_str = [], s_ranges = [], s_rnglists = [],
      s_addr = [], s_str_offsets = [], s_aranges = []\<rparr>"

definition walk_example_unit :: unit_rec where
  "walk_example_unit =
     (unit_init \<lparr>h_shape = \<lparr>us_off = 0, us_version = 4, us_format64 = False, us_addr_size = 8\<rparr>,
        h_end = 25, h_die_off = 0, h_abbrev_off = 0, h_unit_type = 1\<rparr>
        [None, Some \<lparr>ab_tag = 0x2e, ab_children = True,
                     ab_attrs = [(0x11, 0x01, 0), (0x12, 0x0b, 0), (0x03, 0x08, 0)]\<rparr>,
         Some \<lparr>ab_tag = 0x1d, ab_children = False,
               ab_attrs = [(0x11, 0x01, 0), (0x12, 0x0b, 0), (0x03, 0x08, 0)]\<rparr>])"

theorem func_find_innermost_witness:
  "ranges_disjoint (ft_ranges (unit_walk walk_example_sec walk_example_unit)) \<and>
   func_find (unit_walk walk_example_sec walk_example_unit) 0x13 = Some (NameDirect [0x67])"
proof -
  have r: "ft_ranges (unit_walk walk_example_sec walk_example_unit) = [(0x10, 0x18, 0)]" by code_simp
  have s: "ft_subs (unit_walk walk_example_sec walk_example_unit) =
      [\<lparr>sub_name = NameDirect [0x66], sub_inlines =
         [\<lparr>inl_start = 0x12, inl_end = 0x14, inl_depth = 1, inl_name = NameDirect [0x67]\<rparr>]\<rparr>]"
    by code_simp
  have d: "ranges_disjoint (ft_ranges (unit_walk walk_example_sec walk_example_unit))"
    unfolding r by code_simp
  from func_find_innermost [where sec = walk_example_sec and u = walk_example_unit and pc = "0x13"] d
  show ?thesis
    by (simp add: r s range_covers_def inl_covers_def nth_opt_def split: option.splits if_splits)
qed

end
