(* ===== verification/Dwarf_Line.thy ===== *)
theory Dwarf_Line
  imports Dwarf_Unit
begin

text \<open>
  Line tables, \<^verbatim>\<open>vock/src/dwarf/line.rs\<close>: \<open>line_row\<close> is \<^verbatim>\<open>Row\<close>, \<open>line_table\<close> is \<^verbatim>\<open>LineTable\<close>,
  \<open>line_join\<close> is \<^verbatim>\<open>join\<close>, \<open>line_header\<close> reads the header of a line-number program up to the file
  table, \<open>line_step\<close> executes one opcode, \<open>line_run\<close> is the loop over the program, and
  \<open>line_find\<close> the row lookup. The virtual registers are the record \<open>line_regs\<close>; an address is a
  64-bit word, the line register a 32-bit word computed in \<^verbatim>\<open>i64\<close> and clamped at zero.

  Shown here: the program loop ends because every opcode consumes at least its own byte; the rows
  are sorted; the lookup answers from the last row at or below the program counter, and a row that
  ends a sequence never hides a real row of the same address.
\<close>

record line_row =
  row_addr :: u64
  row_file :: u32
  row_line :: u32
  row_end :: bool

record line_table =
  lt_rows :: "line_row list"
  lt_files :: "str list"
  lt_v5 :: bool

definition line_join :: "str \<Rightarrow> str \<Rightarrow> str \<Rightarrow> str" where
  "line_join comp_dir dir name =
     (if starts_with (lit ''/'') name then name
      else let dir_full = (if starts_with (lit ''/'') dir then dir
                           else if dir = [] then comp_dir
                           else if comp_dir = [] then dir
                           else comp_dir @ lit ''/'' @ dir)
           in if dir_full = [] then name else dir_full @ lit ''/'' @ name)"

section \<open>The header\<close>

fun read_fmts :: "nat \<Rightarrow> cur \<Rightarrow> ((u64 \<times> u16) list \<times> cur) option" where
  "read_fmts 0 c = Some ([], c)"
| "read_fmts (Suc n) c = do {
     (ct, c) \<leftarrow> cur_uleb c;
     (form, c) \<leftarrow> cur_uleb c;
     (fs, c) \<leftarrow> read_fmts n c;
     Some ((ct, ucast form) # fs, c) }"

text \<open>One directory or file entry: the fold over the formats, with \<open>path\<close> and \<open>dir\<close> as they
  stand.\<close>

fun read_entry ::
  "sections \<Rightarrow> unit_rec \<Rightarrow> unit_shape \<Rightarrow> (u64 \<times> u16) list \<Rightarrow> str \<Rightarrow> u64 \<Rightarrow> cur \<Rightarrow> ((str \<times> u64) \<times> cur) option" where
  "read_entry sec u shape [] path dir c = Some ((path, dir), c)"
| "read_entry sec u shape ((ct, form) # fs) path dir c = do {
     (v, c) \<leftarrow> read_form c form shape 0;
     let path = (if ct = 1 then (case sym_string sec u v of Some s \<Rightarrow> utf8_lossy s | None \<Rightarrow> path) else path);
     let dir = (if ct = 2 then as_u64_or 0 v else dir);
     read_entry sec u shape fs path dir c }"

fun read_entries ::
  "sections \<Rightarrow> unit_rec \<Rightarrow> unit_shape \<Rightarrow> (u64 \<times> u16) list \<Rightarrow> nat \<Rightarrow> cur \<Rightarrow> ((str \<times> u64) list \<times> cur) option" where
  "read_entries sec u shape fmts 0 c = Some ([], c)"
| "read_entries sec u shape fmts (Suc n) c = do {
     (e, c) \<leftarrow> read_entry sec u shape fmts [] 0 c;
     (es, c) \<leftarrow> read_entries sec u shape fmts n c;
     Some (e # es, c) }"

definition read_entries_v5 ::
  "sections \<Rightarrow> unit_rec \<Rightarrow> unit_shape \<Rightarrow> cur \<Rightarrow> ((str \<times> u64) list \<times> cur) option" where
  "read_entries_v5 sec u shape c = do {
     (nfmt, c) \<leftarrow> cur_u8 c;
     (fmts, c) \<leftarrow> read_fmts (unat nfmt) c;
     (n, c) \<leftarrow> cur_uleb c;
     read_entries sec u shape fmts (unat n) c }"

text \<open>The two \<^verbatim>\<open>loop\<close>s of the tables before version 5, each ended by an empty string.\<close>

function read_dirs_v2 :: "cur \<Rightarrow> (str list \<times> cur) option" where
  "read_dirs_v2 c = do {
     (s, c) \<leftarrow> cur_cstr c;
     if s = [] then Some ([], c)
     else do { (ds, c) \<leftarrow> read_dirs_v2 c; Some (utf8_lossy s # ds, c) } }"
  by pat_completeness auto
termination
  by (relation "measure (\<lambda>c. length (cur_data c) - cur_pos c)") (auto dest: cstr.rd_shrinks)

function read_files_v2 :: "cur \<Rightarrow> ((str \<times> u64) list \<times> cur) option" where
  "read_files_v2 c = do {
     (s, c) \<leftarrow> cur_cstr c;
     if s = [] then Some ([], c)
     else do {
       (dir, c) \<leftarrow> cur_uleb c;
       (_, c) \<leftarrow> cur_uleb c;
       (_, c) \<leftarrow> cur_uleb c;
       (fs, c) \<leftarrow> read_files_v2 c;
       Some ((utf8_lossy s, dir) # fs, c) } }"
  by pat_completeness auto
termination
  by (relation "measure (\<lambda>c. length (cur_data c) - cur_pos c)")
    (auto dest!: cstr.rd_shrinks uleb.rd_shrinks)

declare read_dirs_v2.simps [simp del] read_files_v2.simps [simp del]

fun read_lens :: "nat \<Rightarrow> cur \<Rightarrow> (u8 list \<times> cur) option" where
  "read_lens 0 c = Some ([], c)"
| "read_lens (Suc n) c = do { (l, c) \<leftarrow> cur_u8 c; (ls, c) \<leftarrow> read_lens n c; Some (l # ls, c) }"

record line_hdr =
  lh_version :: u16
  lh_end :: nat
  lh_prog :: nat
  lh_min_inst :: u64
  lh_line_base :: u64
  lh_line_range :: u64
  lh_opcode_base :: u8
  lh_std_lens :: "u8 list"
  lh_shape :: unit_shape

definition line_header :: "bytes \<Rightarrow> unit_rec \<Rightarrow> nat \<Rightarrow> (line_hdr \<times> cur) option" where
  "line_header sec u off = do {
     ((len, format64), c) \<leftarrow> cur_initial_length (cur_new sec off);
     e \<leftarrow> checked_add (cur_pos c) len;
     (version, c) \<leftarrow> cur_u16 c;
     if \<not> (2 \<le> version \<and> version \<le> 5) then None
     else do {
       (addr_size, c) \<leftarrow>
         (if 5 \<le> version then do { (a, c) \<leftarrow> cur_u8 c; (_, c) \<leftarrow> cur_u8 c; Some (a, c) }
          else Some (us_addr_size (u_shape u), c));
       (header_length, c) \<leftarrow> cur_off format64 c;
       prog_start \<leftarrow> checked_add (cur_pos c) header_length;
       (min_inst, c) \<leftarrow> cur_u8 c;
       (_, c) \<leftarrow> (if 4 \<le> version then do { (_, c) \<leftarrow> cur_u8 c; Some ((), c) } else Some ((), c));
       (_, c) \<leftarrow> cur_u8 c;
       (line_base, c) \<leftarrow> cur_i8 c;
       (line_range, c) \<leftarrow> cur_u8 c;
       if line_range = 0 then None
       else do {
         (opcode_base, c) \<leftarrow> cur_u8 c;
         (lens, c) \<leftarrow> read_lens (unat opcode_base - 1) c;
         Some (\<lparr>lh_version = version, lh_end = min e (length sec), lh_prog = prog_start,
                lh_min_inst = ucast min_inst, lh_line_base = line_base, lh_line_range = ucast line_range,
                lh_opcode_base = opcode_base,
                lh_std_lens = (if opcode_base = 0 then [] else 0 # lens),
                lh_shape = \<lparr>us_off = us_off (u_shape u), us_version = version, us_format64 = format64,
                            us_addr_size = addr_size\<rparr>\<rparr>, c) } } }"

definition line_files :: "sections \<Rightarrow> unit_rec \<Rightarrow> line_hdr \<Rightarrow> cur \<Rightarrow> ((str list \<times> (str \<times> u64) list) \<times> cur) option" where
  "line_files sec u h c =
     (if 5 \<le> lh_version h then do {
        (d, c) \<leftarrow> read_entries_v5 sec u (lh_shape h) c;
        (f, c) \<leftarrow> read_entries_v5 sec u (lh_shape h) c;
        Some ((map fst d, f), c) }
      else do {
        (d, c) \<leftarrow> read_dirs_v2 c;
        (f, c) \<leftarrow> read_files_v2 c;
        Some ((d, f), c) })"

definition dir_of :: "u16 \<Rightarrow> str list \<Rightarrow> u64 \<Rightarrow> str" where
  "dir_of version dirs idx =
     (let get = (\<lambda>i. case nth_opt dirs i of Some s \<Rightarrow> s | None \<Rightarrow> []) in
      if 5 \<le> version then get (unat idx)
      else if idx = 0 then []
      else get (unat idx - 1))"

definition line_paths :: "unit_rec \<Rightarrow> u16 \<Rightarrow> str list \<Rightarrow> (str \<times> u64) list \<Rightarrow> str list" where
  "line_paths u version dirs files =
     (let comp_dir = (case u_comp_dir u of Some d \<Rightarrow> d | None \<Rightarrow> [])
      in map (\<lambda>(name, dir). line_join comp_dir (dir_of version dirs dir) name) files)"

section \<open>The program\<close>

record line_regs =
  lr_addr :: u64
  lr_file :: u32
  lr_line :: u32
  lr_rows :: "line_row list"

definition regs_init :: line_regs where
  "regs_init = \<lparr>lr_addr = 0, lr_file = 1, lr_line = 1, lr_rows = []\<rparr>"

definition regs_row :: "bool \<Rightarrow> line_regs \<Rightarrow> line_row" where
  "regs_row e r = \<lparr>row_addr = lr_addr r, row_file = lr_file r, row_line = lr_line r, row_end = e\<rparr>"

definition push_row :: "bool \<Rightarrow> line_regs \<Rightarrow> line_regs" where
  "push_row e r = r\<lparr>lr_rows := lr_rows r @ [regs_row e r]\<rparr>"

text \<open>\<^verbatim>\<open>(i64::from(line) + d).max(0) as u32\<close>, the sum in wrapping 64-bit arithmetic.\<close>

definition add_line :: "u32 \<Rightarrow> u64 \<Rightarrow> u32" where
  "add_line l d = (let t = ucast l + d in if sint t < 0 then 0 else ucast t)"

definition special_op :: "line_hdr \<Rightarrow> u8 \<Rightarrow> line_regs \<Rightarrow> line_regs" where
  "special_op h op r =
     (let adj = ucast (op - lh_opcode_base h) :: u64
      in push_row False
           (r\<lparr>lr_addr := lr_addr r + (adj div lh_line_range h) * lh_min_inst h,
              lr_line := add_line (lr_line r) (lh_line_base h + adj mod lh_line_range h)\<rparr>))"

text \<open>Extended opcodes carry their own length; the cursor ends right behind it whatever the
  operand reader consumed.\<close>

definition extended_operand :: "u8 \<Rightarrow> u64 \<Rightarrow> cur \<Rightarrow> line_regs \<Rightarrow> line_regs option" where
  "extended_operand sub len c r =
     (if sub = 1 then Some ((push_row True r)\<lparr>lr_addr := 0, lr_file := 1, lr_line := 1\<rparr>)
      else if sub = 2 then do { (a, _) \<leftarrow> cur_addr (of_nat (unat len - 1)) c; Some (r\<lparr>lr_addr := a\<rparr>) }
      else Some r)"

definition extended_op :: "cur \<Rightarrow> line_regs \<Rightarrow> (line_regs \<times> cur) option" where
  "extended_op c r = do {
     (len, c) \<leftarrow> cur_uleb c;
     (sub, c1) \<leftarrow> cur_u8 c;
     r \<leftarrow> extended_operand sub len c1 r;
     p \<leftarrow> checked_add (cur_pos c) (unat len);
     Some (r, c1\<lparr>cur_pos := p\<rparr>) }"

fun skip_ulebs :: "nat \<Rightarrow> cur \<Rightarrow> (unit \<times> cur) option" where
  "skip_ulebs 0 c = Some ((), c)"
| "skip_ulebs (Suc n) c = do { (_, c) \<leftarrow> cur_uleb c; skip_ulebs n c }"

definition standard_op :: "line_hdr \<Rightarrow> u8 \<Rightarrow> cur \<Rightarrow> line_regs \<Rightarrow> (line_regs \<times> cur) option" where
  "standard_op h op c r =
     (if op = 1 then Some (push_row False r, c)
      else if op = 2 then do {
        (d, c) \<leftarrow> cur_uleb c; Some (r\<lparr>lr_addr := lr_addr r + d * lh_min_inst h\<rparr>, c) }
      else if op = 3 then do { (d, c) \<leftarrow> cur_sleb c; Some (r\<lparr>lr_line := add_line (lr_line r) d\<rparr>, c) }
      else if op = 4 then do { (f, c) \<leftarrow> cur_uleb c; Some (r\<lparr>lr_file := ucast f\<rparr>, c) }
      else if op = 5 \<or> op = 12 then do { (_, c) \<leftarrow> cur_uleb c; Some (r, c) }
      else if op = 6 \<or> op = 7 \<or> op = 10 \<or> op = 11 then Some (r, c)
      else if op = 8 then
        Some (r\<lparr>lr_addr := lr_addr r +
                  (ucast (255 - lh_opcode_base h) div lh_line_range h) * lh_min_inst h\<rparr>, c)
      else if op = 9 then do { (d, c) \<leftarrow> cur_u16 c; Some (r\<lparr>lr_addr := lr_addr r + ucast d\<rparr>, c) }
      else do {
        (_, c) \<leftarrow> skip_ulebs (unat (lh_std_lens h ! unat op)) c; Some (r, c) })"

definition line_step :: "line_hdr \<Rightarrow> cur \<Rightarrow> line_regs \<Rightarrow> (line_regs \<times> cur) option" where
  "line_step h c r = do {
     (op, c) \<leftarrow> cur_u8 c;
     if lh_opcode_base h \<le> op then Some (special_op h op r, c)
     else if op = 0 then extended_op c r
     else standard_op h op c r }"

section \<open>Progress\<close>

text \<open>An opcode never moves the cursor back, even an extended one whose stated length is shorter
  than its operands.\<close>

definition forward :: "cur \<Rightarrow> ('a \<times> cur) option \<Rightarrow> bool" where
  "forward c r \<longleftrightarrow> (\<forall>v c'. r = Some (v, c') \<longrightarrow> cur_data c' = cur_data c \<and> cur_pos c \<le> cur_pos c')"

lemma adv_forward: "adv c r \<Longrightarrow> forward c r"
  unfolding adv_def forward_def advances_def by blast

lemma forwardD: "forward c r \<Longrightarrow> r = Some (v, c') \<Longrightarrow> cur_data c' = cur_data c \<and> cur_pos c \<le> cur_pos c'"
  unfolding forward_def by blast

lemma forward_if: "forward c x \<Longrightarrow> forward c y \<Longrightarrow> forward c (if b then x else y)"
  by simp

lemma adv_skip_ulebs: "adv c (skip_ulebs n c)"
  by (induction n c rule: skip_ulebs.induct) (auto intro!: adv_Some adv_bind adv_reads)

lemma adv_standard_op: "adv c (standard_op h op c r)"
  unfolding standard_op_def by (intro adv_if adv_bind adv_Some adv_reads adv_skip_ulebs)

lemma forward_extended_op: "forward c (extended_op c r)"
  unfolding forward_def
proof (intro allI impI)
  fix r' c' assume "extended_op c r = Some (r', c')"
  then obtain len c0 sub c1
    where 1: "cur_uleb c = Some (len, c0)" and 2: "cur_u8 c0 = Some (sub, c1)"
      and 3: "c' = c1\<lparr>cur_pos := cur_pos c0 + unat len\<rparr>"
    unfolding extended_op_def bind_pair_Some
    by (elim exE conjE) (auto simp: bind_simps)
  then show "cur_data c' = cur_data c \<and> cur_pos c \<le> cur_pos c'"
    using uleb.rd_data [OF 1] uleb.rd_forward [OF 1] u8.rd_data [OF 2] by simp
qed

lemma line_step_consumes:
  assumes "line_step h c r = Some (r', c')"
  shows "cur_data c' = cur_data c" and "cur_pos c < cur_pos c'" and "cur_pos c < length (cur_data c)"
proof -
  from assms obtain op c1 where 1: "cur_u8 c = Some (op, c1)"
    and 2: "(if lh_opcode_base h \<le> op then Some (special_op h op r, c1)
          else if op = 0 then extended_op c1 r else standard_op h op c1 r) = Some (r', c')"
    by (auto simp: line_step_def bind_simps)
  have "cur_data c' = cur_data c1 \<and> cur_pos c1 \<le> cur_pos c'"
    by (rule forwardD [OF _ 2])
      (intro forward_if forward_extended_op adv_forward [OF adv_standard_op] adv_forward [OF adv_Some])
  with 1 show "cur_data c' = cur_data c" "cur_pos c < cur_pos c'" "cur_pos c < length (cur_data c)"
    using u8.rd_consumes [OF 1] u8.rd_data [OF 1] u8.rd_inside [OF 1] by auto
qed

function line_run :: "line_hdr \<Rightarrow> cur \<Rightarrow> line_regs \<Rightarrow> line_regs option" where
  "line_run h c r =
     (if lh_end h \<le> cur_pos c then Some r
      else case line_step h c r of
        None \<Rightarrow> None
      | Some (r', c') \<Rightarrow> line_run h c' r')"
  by pat_completeness auto
termination
proof (relation "measure (\<lambda>(h, c, r). length (cur_data c) - cur_pos c)", goal_cases)
  case (2 h c r x r' c')
  with line_step_consumes [of h c r r' c'] show ?case by auto
qed simp

declare line_run.simps [simp del]

definition row_key :: "line_row \<Rightarrow> u64 \<times> bool" where
  "row_key r = (row_addr r, \<not> row_end r)"

definition line_parse :: "sections \<Rightarrow> unit_rec \<Rightarrow> nat \<Rightarrow> line_table option" where
  "line_parse sec u off = do {
     (h, c) \<leftarrow> line_header (s_line sec) u off;
     ((dirs, files), c) \<leftarrow> line_files sec u h c;
     r \<leftarrow> line_run h (cur_new (s_line sec) (lh_prog h)) regs_init;
     Some \<lparr>lt_rows = sort_key row_key (lr_rows r),
           lt_files = line_paths u (lh_version h) dirs files,
           lt_v5 = (5 \<le> lh_version h)\<rparr> }"

definition line_find :: "line_table \<Rightarrow> u64 \<Rightarrow> (str \<times> u32) option" where
  "line_find t pc = do {
     j \<leftarrow> checked_sub (partition_point (\<lambda>r. row_addr r \<le> pc) (lt_rows t)) 1;
     r \<leftarrow> nth_opt (lt_rows t) j;
     if row_end r then None
     else do {
       idx \<leftarrow> (if lt_v5 t then Some (unat (row_file r)) else checked_sub (unat (row_file r)) 1);
       f \<leftarrow> nth_opt (lt_files t) idx;
       Some (f, row_line r) } }"

definition line_extent :: "bytes \<Rightarrow> nat \<Rightarrow> bytes option" where
  "line_extent sec off = do {
     ((len, _), c) \<leftarrow> cur_initial_length (cur_new sec off);
     e \<leftarrow> checked_add (cur_pos c) len;
     slice_get sec off (min e (length sec)) }"

section \<open>Assembled programs\<close>

text \<open>The line-number instructions as data, their effect on the registers as the DWARF standard
  describes it, and their byte encoding.\<close>

datatype lop =
    Copy | AdvancePc u64 | AdvanceLine u64 | SetFile u64 | SetColumn u64 | NegateStmt | BasicBlock
  | ConstAddPc | FixedAdvancePc u16 | SetAddress u64 | EndSequence | Special u8

fun lop_exec :: "line_hdr \<Rightarrow> line_regs \<Rightarrow> lop \<Rightarrow> line_regs" where
  "lop_exec h r Copy = push_row False r"
| "lop_exec h r (AdvancePc d) = r\<lparr>lr_addr := lr_addr r + d * lh_min_inst h\<rparr>"
| "lop_exec h r (AdvanceLine d) = r\<lparr>lr_line := add_line (lr_line r) d\<rparr>"
| "lop_exec h r (SetFile f) = r\<lparr>lr_file := ucast f\<rparr>"
| "lop_exec h r (SetColumn f) = r"
| "lop_exec h r NegateStmt = r"
| "lop_exec h r BasicBlock = r"
| "lop_exec h r ConstAddPc =
     r\<lparr>lr_addr := lr_addr r + (ucast (255 - lh_opcode_base h) div lh_line_range h) * lh_min_inst h\<rparr>"
| "lop_exec h r (FixedAdvancePc d) = r\<lparr>lr_addr := lr_addr r + ucast d\<rparr>"
| "lop_exec h r (SetAddress a) = r\<lparr>lr_addr := a\<rparr>"
| "lop_exec h r EndSequence = (push_row True r)\<lparr>lr_addr := 0, lr_file := 1, lr_line := 1\<rparr>"
| "lop_exec h r (Special op) =
     (let adj = ucast (op - lh_opcode_base h) :: u64
      in push_row False
           (r\<lparr>lr_addr := lr_addr r + (adj div lh_line_range h) * lh_min_inst h,
              lr_line := add_line (lr_line r) (lh_line_base h + adj mod lh_line_range h)\<rparr>))"

fun lop_enc :: "lop \<Rightarrow> bytes" where
  "lop_enc Copy = [1]"
| "lop_enc (AdvancePc d) = 2 # uleb_encode (unat d)"
| "lop_enc (AdvanceLine d) = 3 # sleb_encode (sint d)"
| "lop_enc (SetFile f) = 4 # uleb_encode (unat f)"
| "lop_enc (SetColumn f) = 5 # uleb_encode (unat f)"
| "lop_enc NegateStmt = [6]"
| "lop_enc BasicBlock = [7]"
| "lop_enc ConstAddPc = [8]"
| "lop_enc (FixedAdvancePc d) = 9 # le_of_word 2 d"
| "lop_enc (SetAddress a) = 0 # 9 # 2 # le_of_word 8 a"
| "lop_enc EndSequence = [0, 1, 1]"
| "lop_enc (Special op) = [op]"

fun lop_ok :: "line_hdr \<Rightarrow> lop \<Rightarrow> bool" where
  "lop_ok h (Special op) \<longleftrightarrow> lh_opcode_base h \<le> op"
| "lop_ok h _ \<longleftrightarrow> True"

definition lops_enc :: "lop list \<Rightarrow> bytes" where
  "lops_enc ops = concat (map lop_enc ops)"

lemma read_bytes:
  assumes "drop p D = bs @ y" and "length D \<le> usize_max" and "bs \<noteq> []"
  shows "cur_bytes (length bs) (cur_new D p) = Some (bs, cur_new D (p + length bs))"
proof -
  have "p + length bs \<le> length D"
    using assms(1,3) by (metis add.commute append_is_Nil_conv drop_all length_append length_drop
        le_add1 less_diff_conv2 nat_le_linear not_le_imp_less le_diff_conv2)
  moreover have "take (length bs) (drop p D) = bs" using assms(1) by simp
  ultimately show ?thesis using assms(2) by (simp add: cur_bytes_def checked_add_def slice_get_def)
qed

lemma read_u16:
  "drop p D = le_of_word 2 v @ y \<Longrightarrow> length D \<le> usize_max \<Longrightarrow>
     cur_u16 (cur_new D p) = Some (v, cur_new D (p + 2))"
  using read_bytes [of p D "le_of_word 2 v" y]
  by (simp add: cur_u16_def le_simps length_0_conv [symmetric] del: length_0_conv)

lemma read_u64:
  "drop p D = le_of_word 8 v @ y \<Longrightarrow> length D \<le> usize_max \<Longrightarrow>
     cur_u64 (cur_new D p) = Some (v, cur_new D (p + 8))"
  using read_bytes [of p D "le_of_word 8 v" y]
  by (simp add: cur_u64_def le_simps length_0_conv [symmetric] del: length_0_conv)

lemma read_small_uleb:
  "drop p D = b # y \<Longrightarrow> unat b < 128 \<Longrightarrow> cur_uleb (cur_new D p) = Some (ucast b, cur_new D (p + 1))"
proof -
  assume a: "drop p D = b # y" "unat b < 128"
  then have "uleb_encode (unat (ucast b :: u64)) = [b]"
    by (subst uleb_encode.simps) (simp add: unat_ucast_up)
  with a read_uleb [of p D "ucast b" y] show ?thesis by simp
qed

lemma line_step_encoded:
  assumes "10 \<le> lh_opcode_base h" and "lop_ok h op"
    and d: "drop p D = lop_enc op @ y" and len: "length D \<le> usize_max"
  shows "line_step h (cur_new D p) r = Some (lop_exec h r op, cur_new D (p + length (lop_enc op)))"
proof -
  have std: "\<not> lh_opcode_base h \<le> b" if "b \<le> 9" for b :: u8
    using assms(1) that by (simp add: word_le_nat_alt)
  obtain b rest where e: "lop_enc op = b # rest" by (cases op) auto
  have d': "drop p D = b # rest @ y" using d e by simp
  note r0 = read_u8 [OF d']
  have d1: "drop (p + 1) D = rest @ y" using drop_chunk [of p D "[b]"] d' by simp
  show ?thesis
  proof (cases op)
    case (SetAddress a)
    with e have e': "b = 0" "rest = 9 # 2 # le_of_word 8 a" by auto
    have d2: "drop (p + 2) D = 2 # le_of_word 8 a @ y"
      using drop_chunk [of "p + 1" D "[9]"] d1 e' by simp
    have d3: "drop (p + 3) D = le_of_word 8 a @ y"
      using drop_chunk [of "p + 2" D "[2]"] d2 by (simp add: numeral_3_eq_3)
    have "p + 3 + 8 \<le> length D"
      using arg_cong [OF d3, of length] by (simp; linarith)
    moreover have "Suc (Suc (Suc p)) = p + 3" "p + 3 + 8 = 11 + p" "p + 11 = 11 + p" by simp_all
    then have "cur_u64 (cur_new D (Suc (Suc (Suc p)))) = Some (a, cur_new D (11 + p))"
      using read_u64 [OF d3 len] by metis
    ultimately show ?thesis
      using SetAddress e' d1 r0 std [of 0] len read_small_uleb [of "p + 1" D 9] read_u8 [OF d2]
      by (simp add: line_step_def extended_op_def extended_operand_def cur_addr_def checked_add_def
          add.commute [of 11 p])
  next
    case EndSequence
    with e have e': "b = 0" "rest = [1, 1]" by auto
    have d2: "drop (p + 2) D = 1 # y" using drop_chunk [of "p + 1" D "[1]"] d1 e' by simp
    have "p + 3 \<le> length D" using arg_cong [OF d2, of length] by (simp; linarith)
    with EndSequence e' d1 r0 std [of 0] len show ?thesis
      using read_small_uleb [of "p + 1" D 1] read_u8 [OF d2]
      by (simp add: line_step_def extended_op_def extended_operand_def checked_add_def)
  next
    case (Special o')
    with e r0 assms(2) show ?thesis by (simp add: line_step_def special_op_def)
  qed (use e r0 d1 std [of b] len read_uleb [of "p + 1" D] read_sleb [of "p + 1" D] read_u16 [of "p + 1" D] in
      \<open>auto simp: line_step_def standard_op_def\<close>)
qed

lemma line_run_encoded:
  assumes "10 \<le> lh_opcode_base h" and "length D \<le> usize_max"
  shows "list_all (lop_ok h) ops \<Longrightarrow> drop p D = lops_enc ops @ y \<Longrightarrow> lh_end h = p + length (lops_enc ops) \<Longrightarrow>
    line_run h (cur_new D p) r = Some (foldl (lop_exec h) r ops)"
proof (induction ops arbitrary: p r)
  case Nil
  then show ?case by (subst line_run.simps) (simp add: lops_enc_def)
next
  case (Cons op ops)
  let ?q = "p + length (lop_enc op)"
  from Cons.prems(2) have d: "drop p D = lop_enc op @ lops_enc ops @ y" by (simp add: lops_enc_def)
  have s: "line_step h (cur_new D p) r = Some (lop_exec h r op, cur_new D ?q)"
    using assms Cons.prems(1) by (intro line_step_encoded [OF _ _ d]) auto
  have "0 < length (lop_enc op)" by (cases op) auto
  then have "\<not> lh_end h \<le> p" using Cons.prems(3) by (simp add: lops_enc_def)
  then have "line_run h (cur_new D p) r = line_run h (cur_new D ?q) (lop_exec h r op)"
    by (subst line_run.simps) (simp add: s)
  with Cons.IH [OF _ drop_chunk [OF d], of "lop_exec h r op"] Cons.prems show ?case
    by (simp add: lops_enc_def add.assoc)
qed

text \<open>C2. Line-number programs. A program assembled from line-number instructions, with a header that
  declares at least the nine standard opcodes used, is decoded and executed to exactly the rows its
  instructions describe: decoding recovers every operand, and the program ends normally at its end
  offset.\<close>

theorem line_run_assembled:
  assumes "10 \<le> lh_opcode_base h" and "list_all (lop_ok h) ops"
    and "length (pre @ lops_enc ops @ suf) \<le> usize_max"
    and "lh_end h = length (pre @ lops_enc ops)"
  shows "line_run h (cur_new (pre @ lops_enc ops @ suf) (length pre)) regs_init =
    Some (foldl (lop_exec h) regs_init ops)"
  using assms by (intro line_run_encoded) auto

definition line_example_hdr :: line_hdr where
  "line_example_hdr =
     \<lparr>lh_version = 4, lh_end = 18, lh_prog = 1, lh_min_inst = 1, lh_line_base = - 5, lh_line_range = 14,
      lh_opcode_base = 13, lh_std_lens = [], lh_shape =
        \<lparr>us_off = 0, us_version = 4, us_format64 = False, us_addr_size = 8\<rparr>\<rparr>"

theorem line_run_assembled_witness:
  "map_option lr_rows (line_run line_example_hdr
      (cur_new ([7] @ lops_enc [SetAddress 0x1000, AdvanceLine 9, Special 75, EndSequence] @ [8, 8]) 1) regs_init) =
   Some [\<lparr>row_addr = 0x1004, row_file = 1, row_line = 11, row_end = False\<rparr>,
         \<lparr>row_addr = 0x1004, row_file = 1, row_line = 11, row_end = True\<rparr>]"
proof -
  let ?ops = "[SetAddress 0x1000, AdvanceLine 9, Special 75, EndSequence]"
  have e: "sleb_encode 9 = [9]" by (subst sleb_encode.simps) simp
  have l: "length (lops_enc ?ops) = 17" by (simp add: lops_enc_def e)
  have "line_run line_example_hdr (cur_new ([7] @ lops_enc ?ops @ [8, 8]) (length [7 :: u8])) regs_init =
      Some (foldl (lop_exec line_example_hdr) regs_init ?ops)"
    by (rule line_run_assembled)
      (simp_all add: line_example_hdr_def l usize_max_def)
  moreover have "map_option lr_rows (Some (foldl (lop_exec line_example_hdr) regs_init ?ops)) =
     Some [\<lparr>row_addr = 0x1004, row_file = 1, row_line = 11, row_end = False\<rparr>,
         \<lparr>row_addr = 0x1004, row_file = 1, row_line = 11, row_end = True\<rparr>]" by code_simp
  ultimately show ?thesis by simp
qed

section \<open>Row lookup\<close>

lemma row_key_mono: "row_key a \<le> row_key b \<Longrightarrow> row_addr a \<le> row_addr b"
  by (auto simp: row_key_def less_eq_prod_def)

lemma sorted_rows: "sorted (map row_addr (sort_key row_key rs))"
  using sorted_sort_key [of row_key rs] unfolding sorted_map
  by (rule sorted_wrt_mono_rel [rotated]) (rule row_key_mono)

interpretation rows: sorted_table row_addr "sort_key row_key rs" for rs
  by unfold_locales (rule sorted_rows)

text \<open>The row the lookup uses: the last one at or below the program counter in the sorted table.\<close>

lemma last_row_key:
  assumes p: "partition_point (\<lambda>r. row_addr r \<le> pc) (sort_key row_key rs) = Suc j"
    and r: "r \<in> set rs" "row_addr r \<le> pc"
  shows "row_key r \<le> row_key (sort_key row_key rs ! j)"
proof -
  let ?t = "sort_key row_key rs"
  from r(1) obtain i where i: "i < length ?t" "?t ! i = r" by (metis in_set_conv_nth set_sort)
  with r(2) p rows.below_iff [of i rs pc] have "i \<le> j" by simp
  moreover have "j < length ?t" by (rule rows.last_below(1) [OF p])
  ultimately have "map row_key ?t ! i \<le> map row_key ?t ! j"
    by (intro sorted_nth_mono) simp_all
  with i \<open>j < length ?t\<close> show ?thesis by simp
qed

definition row_answer :: "line_table \<Rightarrow> line_row \<Rightarrow> (str \<times> u32) option" where
  "row_answer t r = do {
     idx \<leftarrow> (if lt_v5 t then Some (unat (row_file r)) else checked_sub (unat (row_file r)) 1);
     f \<leftarrow> nth_opt (lt_files t) idx;
     Some (f, row_line r) }"

lemma line_find_nth:
  assumes "lt_rows t = sort_key row_key rs" and "partition_point (\<lambda>r. row_addr r \<le> pc) (sort_key row_key rs) = Suc j"
  shows "line_find t pc = (let r = sort_key row_key rs ! j in if row_end r then None else row_answer t r)"
  using assms rows.last_below(1) [OF assms(2)]
  by (simp add: line_find_def checked_sub_def nth_opt_def row_answer_def Let_def)

lemma last_filter_nth:
  assumes "j < length xs" and "P (xs ! j)" and "\<And>i. j < i \<Longrightarrow> i < length xs \<Longrightarrow> \<not> P (xs ! i)"
  shows "last (filter P xs) = xs ! j"
proof -
  have "\<not> P x" if "x \<in> set (drop (Suc j) xs)" for x
  proof -
    from that obtain i where "i < length (drop (Suc j) xs)" "drop (Suc j) xs ! i = x" unfolding in_set_conv_nth by blast
    then show ?thesis using assms(3) [of "Suc j + i"] by auto
  qed
  then have "filter P (drop (Suc j) xs) = []" by (simp add: filter_empty_conv)
  with assms(2) have "last (filter P (take j xs @ xs ! j # drop (Suc j) xs)) = xs ! j" by simp
  then show ?thesis by (simp only: id_take_nth_drop [OF assms(1), symmetric])
qed

text \<open>Of the rows with the greatest key, the table keeps the order of the program, so the one used is the last.\<close>

lemma last_row_stable:
  assumes "partition_point (\<lambda>r. row_addr r \<le> pc) (sort_key row_key rs) = Suc j"
  shows "last (filter (\<lambda>r. row_key r = row_key (sort_key row_key rs ! j)) rs) = sort_key row_key rs ! j"
proof -
  let ?t = "sort_key row_key rs"
  have "last (filter (\<lambda>r. row_key r = row_key (?t ! j)) ?t) = ?t ! j"
  proof (rule last_filter_nth)
    show "j < length ?t" by (rule rows.last_below(1) [OF assms])
    fix i assume "j < i" "i < length ?t"
    then have "\<not> row_addr (?t ! i) \<le> pc" using rows.below_iff [of i rs pc] assms by simp
    then show "row_key (?t ! i) \<noteq> row_key (?t ! j)" using rows.last_below(2) [OF assms] by (auto simp: row_key_def)
  qed simp
  then show ?thesis by (simp only: sort_key_stable)
qed

text \<open>C5. The line lookup, against the rows in the order the program emitted them: with no row at or below the program
  counter there is no answer; otherwise only the rows of the greatest address not above it count, and of those the
  last real one answers. If they are all ends of sequences there is no answer: an end never hides a real row.\<close>

theorem line_find_spec:
  assumes "line_parse sec u off = Some t" and "line_header (s_line sec) u off = Some (h, c)"
    and "line_run h (cur_new (s_line sec) (lh_prog h)) regs_init = Some regs"
  shows "line_find t pc =
    (let below = filter (\<lambda>r. row_addr r \<le> pc) (lr_rows regs); a = Max (row_addr ` set below);
         real = filter (\<lambda>r. row_addr r = a \<and> \<not> row_end r) (lr_rows regs)
     in if below = [] \<or> real = [] then None else row_answer t (last real))"
proof -
  let ?rs = "lr_rows regs" and ?t = "sort_key row_key (lr_rows regs)"
  have t: "lt_rows t = ?t" using assms by (auto simp: line_parse_def bind_simps)
  show ?thesis
  proof (cases "partition_point (\<lambda>r. row_addr r \<le> pc) ?t")
    case 0
    then have "filter (\<lambda>r. row_addr r \<le> pc) ?rs = []"
      using rows.none_below [OF 0] by (auto simp: filter_empty_conv not_le)
    with 0 show ?thesis by (simp add: line_find_def t checked_sub_def)
  next
    case (Suc j)
    let ?x = "?t ! j" and ?real = "filter (\<lambda>r. row_addr r = row_addr (?t ! j) \<and> \<not> row_end r) ?rs"
    have x: "?x \<in> set ?rs" "row_addr ?x \<le> pc" using rows.last_below(1,2) [OF Suc] by (metis nth_mem set_sort)+
    have top: "row_key r \<le> row_key ?x" if "r \<in> set ?rs" "row_addr r \<le> pc" for r by (rule last_row_key [OF Suc that])
    have "Max (row_addr ` set (filter (\<lambda>r. row_addr r \<le> pc) ?rs)) = row_addr ?x"
      using x top row_key_mono by (intro Max_eqI) auto
    moreover have "filter (\<lambda>r. row_addr r \<le> pc) ?rs \<noteq> []" using x by (auto simp: filter_empty_conv)
    moreover have "row_end ?x \<longleftrightarrow> ?real = []"
      using x top by (fastforce simp: filter_empty_conv row_key_def less_eq_prod_def)
    moreover have "?x = last ?real" if "\<not> row_end ?x"
    proof -
      have "(row_key r = row_key ?x) = (row_addr r = row_addr ?x \<and> \<not> row_end r)" for r
        using that by (auto simp: row_key_def)
      then show ?thesis using last_row_stable [OF Suc] by simp
    qed
    ultimately show ?thesis using line_find_nth [OF t Suc] by (simp add: Let_def)
  qed
qed

definition line_example_sec :: sections where
  "line_example_sec = walk_example_sec\<lparr>s_line :=
     [34, 0, 0, 0, 2, 0, 12, 0, 0, 0, 1, 1, 0, 1, 1, 0, 0x61, 0, 0, 0, 0, 0,
      0, 9, 2, 0, 0x10, 0, 0, 0, 0, 0, 0, 1, 5, 0, 1, 1]\<rparr>"

definition line_example_table :: line_table where
  "line_example_table =
     \<lparr>lt_rows = [\<lparr>row_addr = 0x1000, row_file = 1, row_line = 1, row_end = False\<rparr>,
                 \<lparr>row_addr = 0x1004, row_file = 1, row_line = 1, row_end = True\<rparr>,
                 \<lparr>row_addr = 0x1004, row_file = 1, row_line = 1, row_end = False\<rparr>],
      lt_files = [[0x61]], lt_v5 = False\<rparr>"

theorem line_find_spec_witness:
  "line_parse line_example_sec walk_example_unit 0 = Some line_example_table \<and>
   line_find line_example_table 0x1004 = Some ([0x61], 1) \<and> line_find line_example_table 0xfff = None"
proof -
  have p: "line_parse line_example_sec walk_example_unit 0 = Some line_example_table" by code_simp
  have "\<exists>h c regs. line_header (s_line line_example_sec) walk_example_unit 0 = Some (h, c) \<and>
    line_run h (cur_new (s_line line_example_sec) (lh_prog h)) regs_init = Some regs"
    using p by (auto simp: line_parse_def bind_simps)
  then obtain h c regs where h: "line_header (s_line line_example_sec) walk_example_unit 0 = Some (h, c)"
    "line_run h (cur_new (s_line line_example_sec) (lh_prog h)) regs_init = Some regs" by blast
  have "map_option (\<lambda>(h, c). map_option lr_rows (line_run h (cur_new (s_line line_example_sec) (lh_prog h)) regs_init))
      (line_header (s_line line_example_sec) walk_example_unit 0) =
    Some (Some [\<lparr>row_addr = 0x1000, row_file = 1, row_line = 1, row_end = False\<rparr>,
      \<lparr>row_addr = 0x1004, row_file = 1, row_line = 1, row_end = False\<rparr>,
      \<lparr>row_addr = 0x1004, row_file = 1, row_line = 1, row_end = True\<rparr>])" by code_simp
  then have rows: "lr_rows regs = [\<lparr>row_addr = 0x1000, row_file = 1, row_line = 1, row_end = False\<rparr>,
      \<lparr>row_addr = 0x1004, row_file = 1, row_line = 1, row_end = False\<rparr>,
      \<lparr>row_addr = 0x1004, row_file = 1, row_line = 1, row_end = True\<rparr>]" by (simp add: h)
  from line_find_spec [OF p h, of "0x1004"] line_find_spec [OF p h, of "0xfff"] p show ?thesis
    by (simp add: rows line_example_table_def row_answer_def nth_opt_def checked_sub_def)
qed

end
