(* ===== verification/Dwarf_Elf.thy ===== *)
theory Dwarf_Elf
  imports Dwarf_Reader Rust_Str
begin

text \<open>
  The ELF64 reader of \<^verbatim>\<open>vock/src/dwarf/elf.rs\<close>: the section table (\<open>elf_parse\<close> is
  \<^verbatim>\<open>Elf::parse\<close>, one \<open>elf_error\<close> constructor per error message) and the symbol table used for
  program counters without debug information (\<open>symtab_parse\<close>, \<open>symtab_before\<close>,
  \<open>symtab_address_of\<close>). The section contents are slices of the file, so no read leaves it.

  Shown here: \<open>elf_parse\<close> inverts the table it reads entry by entry, and \<open>symtab_before\<close> finds
  the symbol at the greatest address not above the program counter, with the preference among
  symbols of one address that the comment in \<^verbatim>\<open>SymTab::parse\<close> states.
\<close>

record elf_section =
  sec_name :: bytes
  sec_type :: u32
  sec_flags :: u64
  sec_data :: bytes
  sec_link :: u32

datatype elf_error =
    NotElf | Not64Bit | BigEndian | TruncatedHeader | NoSectionTable
  | TruncatedSectionTable | BadShstrndx | BadShstrtab | Compressed bytes

definition SHF_COMPRESSED :: u64 where "SHF_COMPRESSED = 0x800"
definition SHT_NOBITS :: u32 where "SHT_NOBITS = 8"
definition SHT_SYMTAB :: u32 where "SHT_SYMTAB = 2"

text \<open>A section header: name, type, flags, offset, size and link.\<close>

type_synonym raw_section = "u32 \<times> u32 \<times> u64 \<times> nat \<times> nat \<times> u32"

definition elf_shdr :: "bytes \<Rightarrow> nat \<Rightarrow> raw_section option" where
  "elf_shdr d p = do {
     (name, c) \<leftarrow> cur_u32 (cur_new d p);
     (sh_type, c) \<leftarrow> cur_u32 c;
     (flags, c) \<leftarrow> cur_u64 c;
     (_, c) \<leftarrow> cur_u64 c;
     (offset, c) \<leftarrow> cur_u64 c;
     (sz, c) \<leftarrow> cur_u64 c;
     (link, c) \<leftarrow> cur_u32 c;
     Some (name, sh_type, flags, unat offset, unat sz, link) }"

text \<open>The loop over \<open>0..shnum\<close>: the first header that cannot be read ends it.\<close>

fun elf_shdrs :: "bytes \<Rightarrow> nat \<Rightarrow> nat \<Rightarrow> nat list \<Rightarrow> raw_section list option" where
  "elf_shdrs d shoff shentsize [] = Some []"
| "elf_shdrs d shoff shentsize (i # is) = do {
     h \<leftarrow> elf_shdr d (wadd shoff (wmul i shentsize));
     hs \<leftarrow> elf_shdrs d shoff shentsize is;
     Some (h # hs) }"

definition elf_section_of :: "bytes \<Rightarrow> bytes \<Rightarrow> raw_section \<Rightarrow> elf_section" where
  "elf_section_of d shstr r =
     (case r of (name, sh_type, flags, offset, sz, link) \<Rightarrow>
        \<lparr>sec_name = (case cstr_at shstr (unat name) of Some n \<Rightarrow> n | None \<Rightarrow> []),
         sec_type = sh_type, sec_flags = flags,
         sec_data = (if sh_type = SHT_NOBITS then []
                     else case slice_get d offset (saturating_add offset sz) of
                       Some s \<Rightarrow> s | None \<Rightarrow> []),
         sec_link = link\<rparr>)"

definition elf_header :: "bytes \<Rightarrow> (nat \<times> nat \<times> nat \<times> nat) option" where
  "elf_header d = do {
     (shoff, _) \<leftarrow> cur_u64 (cur_new d 0x28);
     (shentsize, c) \<leftarrow> cur_u16 (cur_new d 0x3a);
     (shnum, c) \<leftarrow> cur_u16 c;
     (shstrndx, c) \<leftarrow> cur_u16 c;
     Some (unat shoff, unat shentsize, unat shnum, unat shstrndx) }"

definition elf_parse :: "bytes \<Rightarrow> elf_error + elf_section list" where
  "elf_parse d =
     (if length d < 64 \<or> take 4 d \<noteq> [0x7f, 0x45, 0x4c, 0x46] then Inl NotElf
      else if d ! 4 \<noteq> 2 then Inl Not64Bit
      else if d ! 5 \<noteq> 1 then Inl BigEndian
      else case elf_header d of
        None \<Rightarrow> Inl TruncatedHeader
      | Some (shoff, shentsize, shnum, shstrndx) \<Rightarrow>
          if shentsize < 64 \<or> shnum = 0 then Inl NoSectionTable
          else case elf_shdrs d shoff shentsize [0..<shnum] of
            None \<Rightarrow> Inl TruncatedSectionTable
          | Some raw \<Rightarrow>
              (case nth_opt raw shstrndx of
                 None \<Rightarrow> Inl BadShstrndx
               | Some (_, _, _, stroff, strsize, _) \<Rightarrow>
                   (case slice_get d stroff (wadd stroff strsize) of
                      None \<Rightarrow> Inl BadShstrtab
                    | Some shstr \<Rightarrow> Inr (map (elf_section_of d shstr) raw))))"

definition elf_section_named :: "elf_section list \<Rightarrow> bytes \<Rightarrow> elf_error + bytes" where
  "elf_section_named secs name =
     (case find (\<lambda>s. sec_name s = name) secs of
        None \<Rightarrow> Inr []
      | Some s \<Rightarrow> if sec_flags s AND SHF_COMPRESSED \<noteq> 0 then Inl (Compressed name) else Inr (sec_data s))"

definition elf_symtab :: "elf_section list \<Rightarrow> bytes \<times> bytes" where
  "elf_symtab secs =
     (case find (\<lambda>s. sec_type s = SHT_SYMTAB) secs of
        None \<Rightarrow> ([], [])
      | Some s \<Rightarrow> (sec_data s, case nth_opt secs (unat (sec_link s)) of Some t \<Rightarrow> sec_data t | None \<Rightarrow> []))"

section \<open>The symbol table\<close>

type_synonym symtab = "(u64 \<times> bytes) list"

text \<open>\<open>chunks_exact n\<close> is \<^verbatim>\<open>slice::chunks_exact(n)\<close>: the full chunks, an incomplete tail dropped.\<close>

function chunks_exact :: "nat \<Rightarrow> 'a list \<Rightarrow> 'a list list" where
  "chunks_exact n xs =
     (if n = 0 \<or> length xs < n then [] else take n xs # chunks_exact n (drop n xs))"
  by pat_completeness auto
termination
  by (relation "measure (\<lambda>(n, xs). length xs)") auto

declare chunks_exact.simps [simp del]

definition STT_NOTYPE :: u8 where "STT_NOTYPE = 0"
definition STT_FUNC :: u8 where "STT_FUNC = 2"

text \<open>The loop body of \<^verbatim>\<open>SymTab::parse\<close>: value, type, size and name of an entry that is kept.\<close>

definition sym_entry :: "bytes \<Rightarrow> bytes \<Rightarrow> (u64 \<times> u8 \<times> u64 \<times> bytes) option" where
  "sym_entry strtab ent =
     (let name = unat (word_of_le (take 4 ent) :: u32);
          info = ent ! 4;
          shndx = (word_of_le (take 2 (drop 6 ent)) :: u16);
          value = (word_of_le (take 8 (drop 8 ent)) :: u64);
          sz = (word_of_le (take 8 (drop 16 ent)) :: u64);
          typ = info AND 0xf
      in if shndx = 0 \<or> value = 0 \<or> (typ \<noteq> STT_FUNC \<and> typ \<noteq> STT_NOTYPE) then None
         else do {
           n \<leftarrow> cstr_at strtab name;
           if n = [] \<or> starts_with [0x2e, 0x4c] n \<or> starts_with [0x24] n then None
           else Some (value, typ, sz, n) })"

definition sym_entries :: "bytes \<Rightarrow> bytes \<Rightarrow> (u64 \<times> u8 \<times> u64 \<times> bytes) list" where
  "sym_entries st strtab = List.map_filter (sym_entry strtab) (chunks_exact 24 st)"

definition sym_key :: "u64 \<times> u8 \<times> u64 \<times> bytes \<Rightarrow> u64 \<times> bool \<times> bool" where
  "sym_key e = (case e of (v, t, sz, n) \<Rightarrow> (v, t \<noteq> STT_FUNC, sz = 0))"

definition symtab_parse :: "bytes \<Rightarrow> bytes \<Rightarrow> symtab" where
  "symtab_parse st strtab =
     map (\<lambda>(a, _, _, n). (a, n)) (sort_key sym_key (sym_entries st strtab))"

definition symtab_before :: "symtab \<Rightarrow> u64 \<Rightarrow> bytes option" where
  "symtab_before syms pc = do {
     j \<leftarrow> checked_sub (partition_point (\<lambda>s. fst s \<le> pc) syms) 1;
     let addr = fst (syms ! j);
     let first = (case rposition (\<lambda>s. fst s \<noteq> addr) (take j syms) of None \<Rightarrow> 0 | Some k \<Rightarrow> k + 1);
     Some (snd (syms ! first)) }"

definition symtab_address_of :: "symtab \<Rightarrow> bytes \<Rightarrow> u64 option" where
  "symtab_address_of syms name = map_option fst (find (\<lambda>s. snd s = name) syms)"

section \<open>Lookup\<close>

lemma sorted_symtab: "sorted (map fst (symtab_parse st strtab))"
proof -
  let ?es = "sort_key sym_key (sym_entries st strtab)"
  have "sorted_wrt (\<lambda>x y. sym_key x \<le> sym_key y) ?es"
    using sorted_sort_key [of sym_key "sym_entries st strtab"] by (simp only: sorted_map)
  then have "sorted_wrt (\<lambda>x y. fst x \<le> fst y) ?es"
    by (rule sorted_wrt_mono_rel [rotated]) (auto simp: sym_key_def less_eq_prod_def)
  then have "sorted (map fst ?es)" by (simp only: sorted_map)
  moreover have "map fst (symtab_parse st strtab) = map fst ?es"
    by (auto simp: symtab_parse_def)
  ultimately show ?thesis by simp
qed

interpretation symtab_tbl: sorted_table fst "symtab_parse st strtab" for st strtab
  by unfold_locales (rule sorted_symtab)

lemma find_filter: "find P xs = (case filter P xs of [] \<Rightarrow> None | x # _ \<Rightarrow> Some x)"
  by (induction xs) auto

lemma find_sort_key: "find (\<lambda>e. k e = x) (sort_key k es) = find (\<lambda>e. k e = x) es"
  by (simp add: find_filter sort_key_stable)

text \<open>The step back to the first entry of a run of equal addresses.\<close>

definition run_start :: "symtab \<Rightarrow> nat \<Rightarrow> nat" where
  "run_start syms j =
     (case rposition (\<lambda>s. fst s \<noteq> fst (syms ! j)) (take j syms) of None \<Rightarrow> 0 | Some k \<Rightarrow> k + 1)"

lemma run_start:
  assumes "sorted (map fst syms)" and j: "j < length syms"
  shows "run_start syms j \<le> j" and "fst (syms ! run_start syms j) = fst (syms ! j)"
    and "\<And>i. i < run_start syms j \<Longrightarrow> fst (syms ! i) \<noteq> fst (syms ! j)"
proof -
  let ?P = "\<lambda>s. fst s \<noteq> fst (syms ! j)"
  have eq: "fst (syms ! run_start syms j) = fst (syms ! j)" if "run_start syms j \<le> j"
    "\<And>i. run_start syms j \<le> i \<Longrightarrow> i < j \<Longrightarrow> \<not> ?P (syms ! i)"
    using that by (cases "run_start syms j = j") auto
  show le: "run_start syms j \<le> j"
    using j by (auto simp: run_start_def dest!: rposition_Some(1) split: option.split)
  have "\<not> ?P (syms ! i)" if "run_start syms j \<le> i" "i < j" for i
    using that j rposition_Some(3) [of ?P "take j syms" _ i] rposition_None [of ?P "take j syms"]
      nth_mem [of i "take j syms"]
    by (auto simp: run_start_def split: option.splits)
  with eq le show "fst (syms ! run_start syms j) = fst (syms ! j)" by blast
  fix i assume i: "i < run_start syms j"
  then obtain k where k: "rposition ?P (take j syms) = Some k" "i \<le> k"
    by (auto simp: run_start_def split: option.splits)
  from rposition_Some(1,2) [OF k(1)] j have "k < j" "?P (syms ! k)" by auto
  moreover have "fst (syms ! i) \<le> fst (syms ! k)" "fst (syms ! k) \<le> fst (syms ! j)"
    using assms \<open>k < j\<close> k(2) by (auto simp: sorted_iff_nth_mono)
  ultimately show "?P (syms ! i)" by auto
qed

lemma symtab_before_eq:
  "symtab_before syms pc =
     (case partition_point (\<lambda>s. fst s \<le> pc) syms of
        0 \<Rightarrow> None | Suc j \<Rightarrow> Some (snd (syms ! run_start syms j)))"
  by (auto simp: symtab_before_def run_start_def checked_sub_def Let_def split: nat.split)

definition sym_addr :: "u64 \<times> u8 \<times> u64 \<times> bytes \<Rightarrow> u64" where
  "sym_addr e = fst e"

definition sym_name :: "u64 \<times> u8 \<times> u64 \<times> bytes \<Rightarrow> bytes" where
  "sym_name e = snd (snd (snd e))"

lemma symtab_parse_proj:
  "symtab_parse st strtab =
     map (\<lambda>e. (sym_addr e, sym_name e)) (sort_key sym_key (sym_entries st strtab))"
  by (auto simp: symtab_parse_def sym_addr_def sym_name_def)

text \<open>The entry the lookup answers with is the best one of its address.\<close>

lemma run_start_best:
  fixes st strtab
  defines "es \<equiv> sort_key sym_key (sym_entries st strtab)"
  assumes j: "j < length es"
  shows "find (\<lambda>e. sym_key e = sym_key (es ! run_start (symtab_parse st strtab) j)) (sym_entries st strtab)
           = Some (es ! run_start (symtab_parse st strtab) j)" (is ?first)
    and "e \<in> set (sym_entries st strtab) \<Longrightarrow> sym_addr e = sym_addr (es ! j) \<Longrightarrow>
           sym_key (es ! run_start (symtab_parse st strtab) j) \<le> sym_key e"
proof -
  let ?f = "run_start (symtab_parse st strtab) j"
  have len: "length (symtab_parse st strtab) = length es"
    and nth: "\<And>i. i < length es \<Longrightarrow> fst (symtab_parse st strtab ! i) = sym_addr (es ! i)"
    by (simp_all add: symtab_parse_proj es_def)
  note rs = run_start [OF sorted_symtab, of j st strtab, unfolded len, OF j]
  have f: "?f < length es" using rs(1) j by simp
  have before: "sym_addr (es ! i) \<noteq> sym_addr (es ! ?f)" if "i < ?f" for i
    using rs(2) rs(3) [OF that] nth that f j by simp
  have key_addr: "sym_key x = sym_key y \<Longrightarrow> sym_addr x = sym_addr y" for x y
    by (cases x; cases y) (auto simp: sym_key_def sym_addr_def)
  have "find (\<lambda>e. sym_key e = sym_key (es ! ?f)) es = Some (es ! ?f)"
    unfolding find_Some_iff using f before key_addr by blast
  then show ?first by (simp add: es_def find_sort_key)
  assume "e \<in> set (sym_entries st strtab)" and a: "sym_addr e = sym_addr (es ! j)"
  then obtain i where i: "i < length es" "e = es ! i"
    by (metis es_def in_set_conv_nth set_sort)
  have "sym_addr (es ! ?f) = sym_addr (es ! i)" using a i(2) rs(2) nth [OF f] nth [OF j] by simp
  then have "?f \<le> i" using before [of i] by (metis not_less)
  then have "map sym_key es ! ?f \<le> map sym_key es ! i"
    using i(1) by (intro sorted_nth_mono) (simp_all add: es_def)
  with i f show "sym_key (es ! ?f) \<le> sym_key e" by simp
qed

text \<open>C4. The symbol lookup for a program counter. When it answers, the answer names an entry of the
  symbol table whose address is the greatest one not above the program counter; among the entries of
  that address it is the least in the documented preference (a function before a label, a sized
  symbol before a bare marker) and, among equals, the first in table order. It fails only when every
  kept symbol lies above the program counter.\<close>

theorem symtab_before_spec:
  "case symtab_before (symtab_parse st strtab) pc of
     None \<Rightarrow> \<forall>e\<in>set (sym_entries st strtab). pc < sym_addr e
   | Some n \<Rightarrow> \<exists>e. find (\<lambda>e'. sym_key e' = sym_key e) (sym_entries st strtab) = Some e \<and>
       sym_name e = n \<and> sym_addr e \<le> pc \<and>
       (\<forall>e'\<in>set (sym_entries st strtab). sym_addr e' \<le> pc \<longrightarrow>
          sym_addr e' \<le> sym_addr e \<and> (sym_addr e' = sym_addr e \<longrightarrow> sym_key e \<le> sym_key e'))"
proof (cases "partition_point (\<lambda>s. fst s \<le> pc) (symtab_parse st strtab)")
  case 0
  have "pc < sym_addr e" if "e \<in> set (sym_entries st strtab)" for e
    using symtab_tbl.none_below [OF 0, of "(sym_addr e, sym_name e)"] that
    by (force simp: symtab_parse_proj image_iff)
  with 0 show ?thesis by (simp add: symtab_before_eq)
next
  case (Suc j)
  let ?es = "sort_key sym_key (sym_entries st strtab)"
  let ?e = "?es ! run_start (symtab_parse st strtab) j"
  have len: "length (symtab_parse st strtab) = length ?es" by (simp add: symtab_parse_proj)
  note lb = symtab_tbl.last_below [OF Suc]
  have j: "j < length ?es" using lb(1) by (simp add: len)
  have f: "run_start (symtab_parse st strtab) j < length ?es"
    using run_start(1) [OF sorted_symtab lb(1)] j by simp
  have addr: "sym_addr ?e = fst (symtab_parse st strtab ! j)" "sym_addr (?es ! j) = sym_addr ?e"
    using run_start(2) [OF sorted_symtab lb(1)] f j by (simp_all add: symtab_parse_proj)
  have top: "sym_addr e' \<le> sym_addr ?e"
    if "e' \<in> set (sym_entries st strtab)" "sym_addr e' \<le> pc" for e'
    using lb(3) [of "(sym_addr e', sym_name e')"] that addr(1)
    by (force simp: symtab_parse_proj image_iff)
  have "symtab_before (symtab_parse st strtab) pc = Some (sym_name ?e)"
    using Suc f by (simp add: symtab_before_eq symtab_parse_proj)
  moreover have "sym_key ?e \<le> sym_key e'"
    if "e' \<in> set (sym_entries st strtab)" "sym_addr e' = sym_addr ?e" for e'
    using run_start_best(2) [OF j that(1)] that(2) addr(2) by simp
  ultimately show ?thesis
    using run_start_best(1) [OF j] top addr(1) lb(2)
    by (simp del: split_paired_Ex) (rule exI [of _ ?e], auto simp del: split_paired_All)
qed

theorem symtab_before_spec_witness:
  "symtab_before (symtab_parse
      ([1, 0, 0, 0, 2, 0, 1, 0, 16, 0, 0, 0, 0, 0, 0, 0, 4, 0, 0, 0, 0, 0, 0, 0,
        3, 0, 0, 0, 0, 0, 1, 0, 32, 0, 0, 0, 0, 0, 0, 0, 4, 0, 0, 0, 0, 0, 0, 0])
      [0, 0x66, 0, 0x67, 0]) 0x1f = Some [0x66]"
  (is "symtab_before (symtab_parse ?st ?str) _ = _")
proof -
  have e: "sym_entries ?st ?str = [(16, 2, 4, [0x66]), (32, 0, 4, [0x67])]" by code_simp
  show ?thesis
    using symtab_before_spec [where st = ?st and strtab = ?str and pc = "0x1f"]
    by (auto simp: e sym_addr_def sym_name_def split: option.splits if_splits)
qed

end
