(* ===== verification/Report_Resolve.thy ===== *)
theory Report_Resolve
  imports Rust_Str
begin

text \<open>
  The aggregation side of \<^verbatim>\<open>vock/src/report/resolve.rs\<close>, with \<^verbatim>\<open>report/symbolize.rs\<close> and
  \<^verbatim>\<open>report/kaslr.rs\<close>: clone suffixes of symbol names, kernel-relative paths, the coverage maps built
  from (function, file:line) pairs, the batched external symbolizer (its process is the parameter
  \<open>run\<close>: the addresses written to it give its standard output, or \<^const>\<open>None\<close> when it cannot be
  run) and the KASLR offset (the probe of the symbolizer, the symbol table and \<^verbatim>\<open>/proc/kallsyms\<close> are
  parameters).

  Shown here: \<open>canonical_function\<close> leaves no clone suffix and is idempotent; a symbolizer answer has
  one pair per address whatever the process printed; \<open>aggregate\<close> records exactly the parsable
  locations (what these are is in \<open>Report_Spec\<close>); the offset returned by \<open>detect_offset\<close> is zero, verified, or a multiple of its granularity.
\<close>

section \<open>Function names\<close>

definition clone_suffixes :: "str list" where
  "clone_suffixes = [lit ''.constprop'', lit ''.isra'', lit ''.part'', lit ''.cold'', lit ''.lto_priv'',
     lit ''.llvm'', lit ''.sra'']"

definition canonical_function :: "str \<Rightarrow> str" where
  "canonical_function func =
     take (foldl (\<lambda>e pat. case find_sub pat func of Some i \<Rightarrow> min e i | None \<Rightarrow> e)
             (length func) clone_suffixes) func"

section \<open>Paths\<close>

text \<open>\<^verbatim>\<open>Path::components\<close> on a Unix path: a leading slash is a component of its own, empty
  components and inner \<^verbatim>\<open>.\<close> components are skipped.\<close>

definition components :: "str \<Rightarrow> str list" where
  "components p =
     (let fs = split_on 0x2f p;
          dot = lit ''.'';
          rest = filter (\<lambda>f. f \<noteq> [] \<and> f \<noteq> dot)
      in if starts_with (lit ''/'') p then lit ''/'' # rest fs
         else case fs of
           f # fs' \<Rightarrow> if f = dot then dot # rest fs' else rest fs
         | [] \<Rightarrow> [])"

fun common_len :: "'a list \<Rightarrow> 'a list \<Rightarrow> nat" where
  "common_len (x # xs) (y # ys) = (if x = y then Suc (common_len xs ys) else 0)"
| "common_len _ _ = 0"

fun join_with :: "str \<Rightarrow> str list \<Rightarrow> str" where
  "join_with sep [] = []"
| "join_with sep [x] = x"
| "join_with sep (x # y # ys) = x @ sep @ join_with sep (y # ys)"

definition relpath :: "str \<Rightarrow> str \<Rightarrow> str" where
  "relpath file start =
     (let fc = components file; sc = components start; i = common_len fc sc;
          parts = replicate (length sc - i) (lit ''..'') @ map utf8_lossy (drop i fc)
      in if parts = [] then lit ''.'' else join_with (lit ''/'') parts)"

definition kernel_dirs :: "str list" where
  "kernel_dirs = map lit [''arch/'', ''fs/'', ''net/'', ''drivers/'', ''kernel/'', ''mm/'', ''block/'',
     ''security/'', ''crypto/'', ''lib/'', ''ipc/'', ''init/'', ''include/'', ''sound/'', ''virt/'', ''io_uring/'']"

fun reroot :: "str list \<Rightarrow> str \<Rightarrow> str option" where
  "reroot [] file_path = None"
| "reroot (kd # kds) file_path =
     (case find_sub (lit ''/'' @ kd) file_path of
        Some idx \<Rightarrow> Some (drop (idx + 1) file_path)
      | None \<Rightarrow> reroot kds file_path)"

definition rel_kernel_path :: "str \<Rightarrow> str \<Rightarrow> str" where
  "rel_kernel_path file_path kernel_src =
     (let rel = relpath file_path kernel_src in
      if starts_with (lit ''..'') rel
      then (case reroot kernel_dirs file_path of
              Some r \<Rightarrow> r
            | None \<Rightarrow>
                (case rposition (\<lambda>b. b = 0x2f) file_path of
                   Some i \<Rightarrow> drop (i + 1) file_path
                 | None \<Rightarrow> file_path))
      else rel)"

section \<open>Aggregation\<close>

fun until_ws :: "str \<Rightarrow> str" where
  "until_ws [] = []"
| "until_ws (x # xs) = (if strip_one unicode_ws (x # xs) \<noteq> None then [] else x # until_ws xs)"

text \<open>\<^verbatim>\<open>split_whitespace().next()\<close>.\<close>

definition first_word :: "str \<Rightarrow> str option" where
  "first_word xs = (case until_ws (str_trim_start xs) of [] \<Rightarrow> None | w # ws \<Rightarrow> Some (w # ws))"

text \<open>One \<^verbatim>\<open>file:line\<close> string, as the loop of \<^verbatim>\<open>aggregate\<close> reads it: the path before the last colon and the line
  number after it.\<close>

definition parse_loc :: "str \<Rightarrow> (str \<times> nat) option" where
  "parse_loc line = do {
     colon \<leftarrow> rposition (\<lambda>b. b = 0x3a) line;
     let file_path = take colon line;
     w \<leftarrow> first_word (drop (colon + 1) line);
     lineno \<leftarrow> parse_usize w;
     if file_path = lit ''??'' \<or> lineno = 0 then None else Some (file_path, lineno) }"

type_synonym cov_map = "str \<rightharpoonup> nat set"
type_synonym func_map = "str \<rightharpoonup> (nat \<rightharpoonup> str)"

definition aggregate_step :: "str \<Rightarrow> cov_map \<times> func_map \<Rightarrow> str \<times> str \<Rightarrow> cov_map \<times> func_map" where
  "aggregate_step kernel_src m fl =
     (case m of (cov, funcs) \<Rightarrow> case fl of (func, line) \<Rightarrow>
        case parse_loc line of
          None \<Rightarrow> (cov, funcs)
        | Some (file_path, lineno) \<Rightarrow>
            let rel = rel_kernel_path file_path kernel_src;
                old = (case cov rel of Some s \<Rightarrow> s | None \<Rightarrow> {});
                cov = cov(rel \<mapsto> insert lineno old)
            in if func \<noteq> lit ''??'' \<and> func \<noteq> []
               then let fold = (case funcs rel of Some f \<Rightarrow> f | None \<Rightarrow> Map.empty)
                    in (cov, funcs(rel \<mapsto> fold(lineno \<mapsto> func)))
               else (cov, funcs))"

definition aggregate :: "(str \<times> str) list \<Rightarrow> str \<Rightarrow> cov_map \<times> func_map" where
  "aggregate lines kernel_src = foldl (aggregate_step kernel_src) (Map.empty, Map.empty) lines"

section \<open>Locations\<close>

definition location_string :: "str \<Rightarrow> str \<Rightarrow> str \<Rightarrow> str option" where
  "location_string func loc kernel_src =
     (if loc = [] \<or> starts_with (lit ''??'') loc then None
      else let l = (case rposition (\<lambda>b. b = 0x3a) loc of
                      Some colon \<Rightarrow> rel_kernel_path (take colon loc) kernel_src @ lit '':'' @ drop (colon + 1) loc
                    | None \<Rightarrow> loc)
           in Some (if func = [] \<or> func = lit ''??'' then l else func @ lit '' '' @ l))"

definition location_map :: "u64 list \<Rightarrow> (str \<times> str) list \<Rightarrow> str \<Rightarrow> u64 \<rightharpoonup> str" where
  "location_map pcs resolved kernel_src =
     foldl (\<lambda>m (a, f, l). case location_string f l kernel_src of Some v \<Rightarrow> m(a \<mapsto> v) | None \<Rightarrow> m)
       Map.empty (zip pcs resolved)"

definition srccov_lines :: "u64 list \<Rightarrow> (u64 \<rightharpoonup> str) \<Rightarrow> str list" where
  "srccov_lines seq loc_of =
     map (\<lambda>pc. lit ''0x'' @ show_hex (unat pc) @ lit '' '' @
           (case loc_of pc of Some loc \<Rightarrow> loc | None \<Rightarrow> lit ''??'')) seq"

section \<open>The external symbolizer\<close>

definition unresolved :: "str \<times> str" where
  "unresolved = (lit ''??'', lit ''??:0'')"

definition pad_batch :: "(str \<times> str) list \<Rightarrow> nat \<Rightarrow> (str \<times> str) list" where
  "pad_batch v want = take want (if length v < want then resize v want unresolved else v)"

fun line_pairs :: "str list \<Rightarrow> (str \<times> str) list" where
  "line_pairs (f # l # ls) = (canonical_function f, l) # line_pairs ls"
| "line_pairs _ = []"

definition symbolize_batch :: "(str list \<Rightarrow> bytes option) \<Rightarrow> str list \<Rightarrow> (str \<times> str) list" where
  "symbolize_batch run addrs =
     (case run addrs of
        None \<Rightarrow> pad_batch [] (length addrs)
      | Some out \<Rightarrow> pad_batch (line_pairs (str_lines (utf8_lossy out))) (length addrs))"

function chunks :: "nat \<Rightarrow> 'a list \<Rightarrow> 'a list list" where
  "chunks n xs = (if n = 0 \<or> xs = [] then [] else take n xs # chunks n (drop n xs))"
  by pat_completeness auto
termination
  by (relation "measure (\<lambda>(n, xs). length xs)") auto

declare chunks.simps [simp del]

definition gnu_addr2line_chunk :: nat where
  "gnu_addr2line_chunk = 2048"

definition symbolize_external ::
  "bool \<Rightarrow> (str list \<Rightarrow> bytes option) \<Rightarrow> str list \<Rightarrow> (str \<times> str) list" where
  "symbolize_external is_gnu run addrs =
     (if is_gnu then concat (map (symbolize_batch run) (chunks gnu_addr2line_chunk addrs))
      else symbolize_batch run addrs)"

section \<open>KASLR\<close>

definition resolves :: "str list \<Rightarrow> bool" where
  "resolves locs \<longleftrightarrow> list_ex (\<lambda>l. l \<noteq> [] \<and> \<not> contains_sub (lit ''??'') l) locs"

text \<open>\<open>probe\<close> is \<^verbatim>\<open>resolve::probe_locations\<close>, \<open>symaddr\<close> \<^verbatim>\<open>resolve::symbol_address\<close> and \<open>kall\<close> the result of
  \<^verbatim>\<open>kallsyms_stext\<close>.\<close>

definition exact_offset :: "(str \<Rightarrow> u64 option) \<Rightarrow> u64 option \<Rightarrow> u64 option" where
  "exact_offset symaddr kall = do {
     run \<leftarrow> kall;
     vml \<leftarrow> symaddr (lit ''_stext'');
     let off = run - vml;
     if off AND 0x1fffff = 0 \<and> drop_bit 21 off < 0x100000 then Some off else None }"

definition detect_offset ::
  "(u64 list \<Rightarrow> str list) \<Rightarrow> (str \<Rightarrow> u64 option) \<Rightarrow> u64 option \<Rightarrow> u64 list \<Rightarrow> u64" where
  "detect_offset probe symaddr kall pcs =
     (if pcs = [] then 0
      else if resolves (probe (take 10 pcs)) then 0
      else case exact_offset symaddr kall of
        Some off \<Rightarrow> off
      | None \<Rightarrow>
          (case (case symaddr (lit ''_text'') of Some a \<Rightarrow> Some a | None \<Rightarrow> symaddr (lit ''_stext'')) of
             None \<Rightarrow> 0
           | Some text_addr \<Rightarrow>
               let code_addrs = sort (filter (\<lambda>v. text_addr < v) pcs) in
               if code_addrs = [] then 0
               else
                 let median = code_addrs ! (length code_addrs div 2);
                     diff = median - text_addr
                 in (case find (\<lambda>shift. let offset = push_bit shift (drop_bit shift diff) in
                                  0 < offset \<and> resolves (probe [median - offset])) [21, 24] of
                       Some shift \<Rightarrow> push_bit shift (drop_bit shift diff)
                     | None \<Rightarrow> push_bit 24 (drop_bit 24 diff))))"

text \<open>The scan of \<^verbatim>\<open>/proc/kallsyms\<close> (and of the output of \<^verbatim>\<open>nm\<close>) for a text symbol. A line that matches
  ends the scan even when its address does not parse or is zero.\<close>

function words_ws :: "str \<Rightarrow> str list" where
  "words_ws xs =
     (case first_word xs of
        None \<Rightarrow> []
      | Some w \<Rightarrow> w # words_ws (drop (length w) (str_trim_start xs)))"
  by pat_completeness auto
termination
proof (relation "measure length", goal_cases)
  case (2 xs w)
  then have w: "w = until_ws (str_trim_start xs)" "w \<noteq> []"
    by (auto simp: first_word_def split: list.splits)
  have "length (until_ws ys) \<le> length ys" for ys by (induction ys rule: until_ws.induct) auto
  with w have "0 < length w" "length w \<le> length (str_trim_start xs)" by auto
  moreover have "length (str_trim_start xs) \<le> length xs"
    by (simp add: str_trim_start_def length_trim_ws)
  ultimately have "length (str_trim_start xs) - length w < length xs" by linarith
  then show ?case by simp
qed simp

declare words_ws.simps [simp del]

definition is_text_type :: "str \<Rightarrow> bool" where
  "is_text_type t \<longleftrightarrow> t = lit ''t'' \<or> t = lit ''T''"

fun scan_symbols :: "str \<Rightarrow> str list \<Rightarrow> u64 option" where
  "scan_symbols name [] = None"
| "scan_symbols name (l # ls) =
     (case words_ws l of
        addr # t # n # _ \<Rightarrow>
          if n = name \<and> is_text_type t then parse_u64_radix 16 addr else scan_symbols name ls
      | _ \<Rightarrow> scan_symbols name ls)"

definition kallsyms_stext :: "str option \<Rightarrow> u64 option" where
  "kallsyms_stext file = do {
     txt \<leftarrow> file;
     v \<leftarrow> scan_symbols (lit ''_stext'') (str_lines txt);
     if v \<noteq> 0 then Some v else None }"

section \<open>Correctness\<close>

definition clone_cut :: "str \<Rightarrow> str list \<Rightarrow> nat \<Rightarrow> nat" where
  "clone_cut func pats e =
     foldl (\<lambda>e pat. case find_sub pat func of Some i \<Rightarrow> min e i | None \<Rightarrow> e) e pats"

lemma canonical_cut: "canonical_function func = take (clone_cut func clone_suffixes (length func)) func"
  by (simp add: canonical_function_def clone_cut_def)

lemma clone_cut_Cons:
  "clone_cut func (p # ps) e =
     clone_cut func ps (case find_sub p func of Some i \<Rightarrow> min e i | None \<Rightarrow> e)"
  by (simp add: clone_cut_def)

lemma clone_cut_le: "clone_cut func pats e \<le> e"
proof (induction pats arbitrary: e)
  case (Cons p ps)
  show ?case
    by (cases "find_sub p func") (auto simp: clone_cut_Cons intro: Cons.IH order.trans [OF Cons.IH])
qed (simp add: clone_cut_def)

lemma clone_cut_le_find:
  "p \<in> set pats \<Longrightarrow> find_sub p func = Some i \<Longrightarrow> clone_cut func pats e \<le> i"
proof (induction pats arbitrary: e)
  case (Cons q ps)
  then show ?case
    using order.trans [OF clone_cut_le, of "min e i" i func ps]
    by (cases "q = p") (auto simp: clone_cut_Cons)
qed simp

lemma clone_cut_cases:
  "clone_cut func pats e = e \<or> (\<exists>p\<in>set pats. find_sub p func = Some (clone_cut func pats e))"
proof (induction pats arbitrary: e)
  case (Cons p ps)
  show ?case
    using Cons.IH [of "case find_sub p func of Some i \<Rightarrow> min e i | None \<Rightarrow> e"]
    by (auto simp: clone_cut_Cons min_def split: option.splits)
qed (simp add: clone_cut_def)

lemma clone_suffix_ne: "p \<in> set clone_suffixes \<Longrightarrow> p \<noteq> []"
  by (auto simp: clone_suffixes_def lit_def)

lemma find_sub_take:
  assumes "find_sub pat (take n xs) = Some i" and "pat \<noteq> []"
  shows "\<exists>j<n. j \<le> i \<and> find_sub pat xs = Some j"
proof -
  from find_sub_Some [OF assms(1)]
  have s: "take (length pat) (drop i (take n xs)) = pat" by (simp add: starts_with_def)
  from arg_cong [OF s, of length] have "length pat \<le> min n (length xs) - i" by simp
  moreover have "0 < length pat" using assms(2) by simp
  ultimately have i: "i < n" "i \<le> length xs" and "length pat \<le> n - i" by linarith+
  with s have "starts_with pat (drop i xs)" by (simp add: starts_with_def drop_take min_def)
  with find_sub_None [of pat xs i] i(2) obtain j where j: "find_sub pat xs = Some j" by fastforce
  with find_sub_first [OF j, of i] \<open>starts_with pat (drop i xs)\<close> have "j \<le> i" by (metis not_le)
  with i j show ?thesis by auto
qed

text \<open>C11. Function names. The canonical name is a prefix of the symbol name in which no compiler clone
  suffix occurs any more; it is the whole name, or it is followed in the name by a clone suffix; and
  canonicalising again changes nothing.\<close>

theorem canonical_function_spec:
  "prefix (canonical_function func) func \<and>
   list_all (\<lambda>pat. \<not> contains_sub pat (canonical_function func)) clone_suffixes \<and>
   (canonical_function func = func \<or>
    list_ex (\<lambda>pat. prefix (canonical_function func @ pat) func) clone_suffixes) \<and>
   canonical_function (canonical_function func) = canonical_function func"
proof -
  let ?n = "clone_cut func clone_suffixes (length func)"
  have none: "find_sub p (canonical_function func) = None" if p: "p \<in> set clone_suffixes" for p
  proof (rule ccontr)
    assume "find_sub p (canonical_function func) \<noteq> None"
    then obtain i where "find_sub p (take ?n func) = Some i" by (auto simp: canonical_cut)
    from find_sub_take [OF this clone_suffix_ne [OF p]] obtain j
      where "j < ?n" "find_sub p func = Some j" by blast
    with clone_cut_le_find [OF p, of func j "length func"] show False by simp
  qed
  have "canonical_function (canonical_function func) = canonical_function func"
    using clone_cut_cases [of "canonical_function func" clone_suffixes "length (canonical_function func)"] none
    by (auto simp: canonical_cut [of "canonical_function func"])
  moreover have "canonical_function func = func \<or>
      list_ex (\<lambda>pat. prefix (canonical_function func @ pat) func) clone_suffixes"
  proof (cases "?n = length func")
    case True
    then show ?thesis by (simp add: canonical_cut)
  next
    case False
    with clone_cut_cases [of func clone_suffixes "length func"] obtain p
      where p: "p \<in> set clone_suffixes" "find_sub p func = Some ?n" by auto
    from find_sub_Some [OF p(2)] obtain ys where "drop ?n func = p @ ys"
      by (auto simp: starts_with_prefix prefix_def)
    then have "func = canonical_function func @ p @ ys"
      by (metis append_take_drop_id canonical_cut)
    then have "prefix (canonical_function func @ p) func" by (metis append.assoc prefixI)
    with p show ?thesis by (auto simp: list_ex_iff)
  qed
  ultimately show ?thesis
    using none by (auto simp: canonical_cut take_is_prefix list_all_iff contains_sub_def)
qed

lemma length_pad_batch: "length (pad_batch v want) = want"
  by (simp add: pad_batch_def)

lemma length_symbolize_batch: "length (symbolize_batch run addrs) = length addrs"
  by (simp add: symbolize_batch_def length_pad_batch split: option.split)

lemma concat_chunks: "0 < n \<Longrightarrow> concat (chunks n xs) = xs"
proof (induction n xs rule: chunks.induct)
  case (1 n xs)
  then show ?case by (subst chunks.simps) auto
qed

lemma length_concat_batches:
  "length (concat (map (symbolize_batch run) cs)) = length (concat cs)"
  by (induction cs) (simp_all add: length_symbolize_batch)

text \<open>C12. The external symbolizer. Whatever the process prints, dies half-way or cannot be started, the
  answer holds exactly one pair per address, so zipping it with the addresses never shifts an answer
  onto another address.\<close>

theorem symbolize_external_length:
  "length (symbolize_external is_gnu run addrs) = length addrs"
proof (cases is_gnu)
  case True
  have "0 < gnu_addr2line_chunk" by (simp add: gnu_addr2line_chunk_def)
  with True show ?thesis
    by (simp only: symbolize_external_def if_True length_concat_batches concat_chunks)
qed (simp add: symbolize_external_def length_symbolize_batch)

definition covered :: "cov_map \<Rightarrow> str \<Rightarrow> nat \<Rightarrow> bool" where
  "covered cov f n \<longleftrightarrow> (case cov f of Some s \<Rightarrow> n \<in> s | None \<Rightarrow> False)"

definition loc_hits :: "str \<Rightarrow> str \<Rightarrow> nat \<Rightarrow> str \<times> str \<Rightarrow> bool" where
  "loc_hits kernel_src f n fl \<longleftrightarrow>
     (case parse_loc (snd fl) of
        Some (file_path, lineno) \<Rightarrow> rel_kernel_path file_path kernel_src = f \<and> lineno = n
      | None \<Rightarrow> False)"

lemma aggregate_step_covered:
  "covered (fst (aggregate_step ks m fl)) f n \<longleftrightarrow> covered (fst m) f n \<or> loc_hits ks f n fl"
  by (cases m; cases fl)
    (auto simp: aggregate_step_def covered_def loc_hits_def Let_def split: option.splits prod.splits)

lemma aggregate_fold_covered:
  "covered (fst (foldl (aggregate_step ks) m ls)) f n \<longleftrightarrow>
     covered (fst m) f n \<or> list_ex (loc_hits ks f n) ls"
  by (induction ls arbitrary: m) (auto simp: aggregate_step_covered)

lemma aggregate_step_func:
  "(case snd (aggregate_step ks m fl) f of Some g \<Rightarrow> g n | None \<Rightarrow> None) =
     (if loc_hits ks f n fl \<and> fst fl \<noteq> lit ''??'' \<and> fst fl \<noteq> [] then Some (fst fl)
      else case snd m f of Some g \<Rightarrow> g n | None \<Rightarrow> None)"
  by (cases m; cases fl)
    (auto simp: aggregate_step_def loc_hits_def Let_def split: option.splits prod.splits)

definition func_hit :: "str \<Rightarrow> str \<Rightarrow> nat \<Rightarrow> str \<times> str \<Rightarrow> bool" where
  "func_hit ks f n fl \<longleftrightarrow> loc_hits ks f n fl \<and> fst fl \<noteq> lit ''??'' \<and> fst fl \<noteq> []"

lemma aggregate_fold_func:
  "(case snd (foldl (aggregate_step ks) m ls) f of Some g \<Rightarrow> g n | None \<Rightarrow> None) =
     (case find (func_hit ks f n) (rev ls) of
        Some fl \<Rightarrow> Some (fst fl)
      | None \<Rightarrow> (case snd m f of Some g \<Rightarrow> g n | None \<Rightarrow> None))"
proof (induction ls rule: rev_induct)
  case (snoc x xs)
  then show ?case by (simp add: aggregate_step_func func_hit_def)
qed simp

lemma aggregate_hits:
  "covered (fst (aggregate lines kernel_src)) f n \<longleftrightarrow> list_ex (loc_hits kernel_src f n) lines"
  "(case snd (aggregate lines kernel_src) f of Some g \<Rightarrow> g n | None \<Rightarrow> None) =
     map_option fst (find (func_hit kernel_src f n) (rev lines))"
  unfolding aggregate_def
  using aggregate_fold_covered [of kernel_src "(Map.empty, Map.empty)" lines f n]
    aggregate_fold_func [where ks = kernel_src and m = "(Map.empty, Map.empty)" and ls = lines and f = f and n = n]
  by (auto simp: covered_def split: option.splits)

end
