(* ===== verification/Dwarf_Symbolizer.thy ===== *)
theory Dwarf_Symbolizer
  imports Dwarf_Line Dwarf_Elf Report_Resolve
begin

text \<open>
  The symbolizer of \<^verbatim>\<open>vock/src/dwarf/mod.rs\<close>: the unit index from \<^verbatim>\<open>.debug_aranges\<close>
  (\<open>parse_aranges\<close>, \<open>find_range\<close>), the interior caches, and \<open>resolve\<close>, which maps a program counter to
  a function and a \<^verbatim>\<open>file:line\<close>. The record \<open>symbolizer\<close> is \<^verbatim>\<open>Symbolizer\<close>; its \<^verbatim>\<open>RefCell\<close> and
  \<^verbatim>\<open>OnceCell\<close> caches are fields, the once-cells of the shared \<^verbatim>\<open>Rc<Unit>\<close> objects are maps keyed by the
  unit's offset (the unit cache holds one object per offset), and every method that fills a cache
  returns the updated record. The environment variable \<^verbatim>\<open>VOCK_DWARF_FULL_INDEX\<close> is the parameter
  \<open>force_full\<close>; faulting pages in is not part of the model, only the byte ranges it is asked for.

  Shown here: the index loops end and keep their progress; the caches only ever hold what parsing the
  sections gives (locale \<open>memo\<close>), so lookups of units, abbreviations and lines do not depend on the
  history of calls.
\<close>

record srange =
  rg_start :: u64
  rg_end :: u64
  rg_unit :: nat

section \<open>The unit index\<close>

function aranges_tuples ::
  "u8 \<Rightarrow> nat \<Rightarrow> nat \<Rightarrow> nat \<Rightarrow> cur \<Rightarrow> srange list \<Rightarrow> srange list" where
  "aranges_tuples addr_size tuple limit unit c out =
     (if limit < cur_pos c + tuple then out
      else case do { (a, c) \<leftarrow> cur_addr addr_size c; (l, c) \<leftarrow> cur_addr addr_size c; Some ((a, l), c) } of
        None \<Rightarrow> out
      | Some ((a, l), c') \<Rightarrow>
          if a = 0 \<and> l = 0 then out
          else aranges_tuples addr_size tuple limit unit c'
                 (if l \<noteq> 0 then out @ [\<lparr>rg_start = a, rg_end = a + l, rg_unit = unit\<rparr>] else out))"
  by pat_completeness auto
termination
  by (relation "measure (\<lambda>(asz, t, lim, u, c, out). length (cur_data c) - cur_pos c)")
    (auto simp: bind_simps dest!: addr.rd_shrinks)

declare aranges_tuples.simps [simp del]

text \<open>The header of one set: the end of the set, its unit, its address size, and the cursor at the first
  tuple. A \<^const>\<open>None\<close> is one of the \<^verbatim>\<open>break\<close>s of the outer loop.\<close>

definition aranges_header :: "cur \<Rightarrow> ((nat \<times> nat \<times> u8) \<times> cur) option" where
  "aranges_header c = do {
     ((len, format64), c) \<leftarrow> cur_initial_length c;
     e \<leftarrow> checked_add (cur_pos c) len;
     (version, c) \<leftarrow> cur_u16 c;
     if version \<noteq> 2 then None
     else do {
       (unit, c) \<leftarrow> cur_off format64 c;
       (addr_size, c) \<leftarrow> cur_u8 c;
       (_, c) \<leftarrow> cur_u8 c;
       let tuple = 2 * unat addr_size;
       if tuple = 0 then None
       else do {
         (_, c) \<leftarrow> cur_skip ((tuple - cur_pos c mod tuple) mod tuple) c;
         Some ((e, unit, addr_size), c) } } }"

lemma aranges_header_progress:
  assumes "aranges_header c = Some ((e, u, asz), c')"
  shows "cur_pos c < e" and "cur_data c' = cur_data c"
proof -
  from assms obtain len f c1 where 1: "cur_initial_length c = Some ((len, f), c1)"
    and e: "e = cur_pos c1 + len"
    unfolding aranges_header_def bind_pair_Some
    by (auto simp: bind_simps Let_def split: if_splits prod.splits)
  from initial_length.rd_consumes [OF 1] e show "cur_pos c < e" by simp
  have "adv c (aranges_header c)"
    unfolding aranges_header_def Let_def
    by (rule adv_bind, rule adv_reads, split prod.split)
      (intro allI impI adv_bind_pure adv_bind adv_if adv_Some adv_None adv_reads)
  with assms show "cur_data c' = cur_data c" by (auto simp: adv_def advances_def)
qed

function aranges_loop :: "cur \<Rightarrow> srange list \<Rightarrow> nat list \<Rightarrow> srange list \<times> nat list" where
  "aranges_loop c out units =
     (if cur_at_end c then (out, units)
      else case aranges_header c of
        None \<Rightarrow> (out, units)
      | Some ((e, unit, addr_size), c') \<Rightarrow>
          aranges_loop (c'\<lparr>cur_pos := e\<rparr>)
            (aranges_tuples addr_size (2 * unat addr_size) (min e (length (cur_data c'))) unit c' out)
            (units @ [unit]))"
  by pat_completeness auto
termination
proof (relation "measure (\<lambda>(c, out, units). length (cur_data c) - cur_pos c)", goal_cases)
  case (2 c out units x y c' e z unit asz)
  with aranges_header_progress [of c e unit asz c'] show ?case
    by (auto simp: cur_at_end_def)
qed simp

declare aranges_loop.simps [simp del]

text \<open>Here and in \<open>full_index\<close> the sort is unstable in the code; the model keeps the order of ranges of equal start.\<close>

definition parse_aranges :: "bytes \<Rightarrow> srange list \<times> nat list" where
  "parse_aranges sec =
     (case aranges_loop (cur_new sec 0) [] [] of
        (out, units) \<Rightarrow> (sort_key rg_start out, dedup (sort units)))"

definition find_range :: "srange list \<Rightarrow> u64 \<Rightarrow> nat option" where
  "find_range ranges pc =
     (let i = partition_point (\<lambda>r. rg_start r \<le> pc) ranges in
      map_option (\<lambda>j. rg_unit (ranges ! j))
        (lookback 3 (\<lambda>j. rg_start (ranges ! j) \<le> pc \<and> pc < rg_end (ranges ! j)) i))"

section \<open>The symbolizer and its caches\<close>

record symbolizer =
  sy_sec :: sections
  sy_symtab_raw :: "bytes \<times> bytes"
  sy_aranges :: "srange list"
  sy_unit_offsets :: "nat list"
  sy_threads :: nat
  sy_symtab :: "symtab option"
  sy_full :: "srange list option"
  sy_units :: "nat \<rightharpoonup> unit_rec"
  sy_abbrevs :: "nat \<rightharpoonup> abbrev_table"
  sy_lines :: "nat \<rightharpoonup> line_table option"
  sy_funcs :: "nat \<rightharpoonup> func_table"

datatype open_error = ElfError elf_error | NoDebugInfo

definition all_sections :: "elf_section list \<Rightarrow> elf_error + sections" where
  "all_sections secs =
     (let get = (\<lambda>n k. case elf_section_named secs (lit n) of Inl e \<Rightarrow> Inl e | Inr d \<Rightarrow> k d) in
      get ''.debug_info'' (\<lambda>info.
      get ''.debug_abbrev'' (\<lambda>ab.
      get ''.debug_str'' (\<lambda>st.
      get ''.debug_line'' (\<lambda>ln.
      get ''.debug_line_str'' (\<lambda>lstr.
      get ''.debug_ranges'' (\<lambda>rng.
      get ''.debug_rnglists'' (\<lambda>rl.
      get ''.debug_addr'' (\<lambda>ad.
      get ''.debug_str_offsets'' (\<lambda>so.
      get ''.debug_aranges'' (\<lambda>ar.
        Inr \<lparr>s_info = info, s_abbrev = ab, s_str = st, s_line = ln, s_line_str = lstr,
             s_ranges = rng, s_rnglists = rl, s_addr = ad, s_str_offsets = so, s_aranges = ar\<rparr>)))))))))))"

definition sym_open :: "nat \<Rightarrow> bytes \<Rightarrow> open_error + symbolizer" where
  "sym_open threads data =
     (case elf_parse data of
        Inl e \<Rightarrow> Inl (ElfError e)
      | Inr secs \<Rightarrow>
          (case all_sections secs of
             Inl e \<Rightarrow> Inl (ElfError e)
           | Inr sec \<Rightarrow>
               if s_info sec = [] then Inl NoDebugInfo
               else case parse_aranges (s_aranges sec) of
                 (ar, uo) \<Rightarrow>
                   Inr \<lparr>sy_sec = sec, sy_symtab_raw = elf_symtab secs, sy_aranges = ar, sy_unit_offsets = uo,
                        sy_threads = threads, sy_symtab = None, sy_full = None, sy_units = Map.empty,
                        sy_abbrevs = Map.empty, sy_lines = Map.empty, sy_funcs = Map.empty\<rparr>))"

definition sym_tables :: "symbolizer \<Rightarrow> bytes list" where
  "sym_tables s =
     (let sec = sy_sec s in
      concat (map (chunks (8 * 1024 * 1024))
        (filter (\<lambda>b. b \<noteq> [])
          [s_abbrev sec, s_ranges sec, s_rnglists sec, s_str sec, s_line_str sec, s_str_offsets sec,
           s_addr sec, fst (sy_symtab_raw s), snd (sy_symtab_raw s)])))"

definition sym_symtab :: "symbolizer \<Rightarrow> symtab \<times> symbolizer" where
  "sym_symtab s =
     (case sy_symtab s of
        Some t \<Rightarrow> (t, s)
      | None \<Rightarrow> let t = symtab_parse (fst (sy_symtab_raw s)) (snd (sy_symtab_raw s))
                in (t, s\<lparr>sy_symtab := Some t\<rparr>))"

definition symbol_address :: "symbolizer \<Rightarrow> str \<Rightarrow> u64 option \<times> symbolizer" where
  "symbol_address s name = (case sym_symtab s of (t, s) \<Rightarrow> (symtab_address_of t name, s))"

definition sym_abbrevs :: "symbolizer \<Rightarrow> nat \<Rightarrow> abbrev_table option \<times> symbolizer" where
  "sym_abbrevs s off =
     (case sy_abbrevs s off of
        Some a \<Rightarrow> (Some a, s)
      | None \<Rightarrow>
          (case abbrevs_parse (s_abbrev (sy_sec s)) off of
             None \<Rightarrow> (None, s)
           | Some a \<Rightarrow> (Some a, s\<lparr>sy_abbrevs := (sy_abbrevs s)(off \<mapsto> a)\<rparr>)))"

text \<open>\<^verbatim>\<open>Unit::parse\<close> through the abbreviation cache.\<close>

definition unit_parse_cached :: "symbolizer \<Rightarrow> nat \<Rightarrow> unit_rec option \<times> symbolizer" where
  "unit_parse_cached s off =
     (case parse_header (s_info (sy_sec s)) off of
        None \<Rightarrow> (None, s)
      | Some h \<Rightarrow>
          if \<not> unit_type_ok (h_unit_type h) then (None, s)
          else case sym_abbrevs s (h_abbrev_off h) of
            (None, s) \<Rightarrow> (None, s)
          | (Some ab, s) \<Rightarrow> (unit_parse_with (sy_sec s) h ab, s))"

definition sym_unit :: "symbolizer \<Rightarrow> nat \<Rightarrow> unit_rec option \<times> symbolizer" where
  "sym_unit s off =
     (case sy_units s off of
        Some u \<Rightarrow> (Some u, s)
      | None \<Rightarrow>
          (case unit_parse_cached s off of
             (None, s) \<Rightarrow> (None, s)
           | (Some u, s) \<Rightarrow> (Some u, s\<lparr>sy_units := (sy_units s)(off \<mapsto> u)\<rparr>)))"

definition unit_containing :: "symbolizer \<Rightarrow> nat \<Rightarrow> unit_rec option \<times> symbolizer" where
  "unit_containing s off =
     (let i = partition_point (\<lambda>u. u \<le> off) (sy_unit_offsets s) in
      case do { j \<leftarrow> checked_sub i 1; nth_opt (sy_unit_offsets s) j } of
        None \<Rightarrow> (None, s)
      | Some uoff \<Rightarrow>
          (case sym_unit s uoff of
             (None, s) \<Rightarrow> (None, s)
           | (Some u, s) \<Rightarrow> (if off < u_end u then Some u else None, s)))"

definition unit_off :: "unit_rec \<Rightarrow> nat" where
  "unit_off u = us_off (u_shape u)"

definition unit_lines :: "symbolizer \<Rightarrow> unit_rec \<Rightarrow> line_table option \<times> symbolizer" where
  "unit_lines s u =
     (case sy_lines s (unit_off u) of
        Some t \<Rightarrow> (t, s)
      | None \<Rightarrow>
          let t = u_stmt_list u \<bind> line_parse (sy_sec s) u
          in (t, s\<lparr>sy_lines := (sy_lines s)(unit_off u \<mapsto> t)\<rparr>))"

definition unit_funcs :: "symbolizer \<Rightarrow> unit_rec \<Rightarrow> func_table \<times> symbolizer" where
  "unit_funcs s u =
     (case sy_funcs s (unit_off u) of
        Some t \<Rightarrow> (t, s)
      | None \<Rightarrow>
          let t = unit_walk (sy_sec s) u
          in (t, s\<lparr>sy_funcs := (sy_funcs s)(unit_off u \<mapsto> t)\<rparr>))"

section \<open>The full index\<close>

lemma sym_abbrevs_sec: "sy_sec (snd (sym_abbrevs s off)) = sy_sec s"
  by (simp add: sym_abbrevs_def split: option.split)

lemma sym_unit_sec: "sy_sec (snd (sym_unit s off)) = sy_sec s"
  using sym_abbrevs_sec [of s]
  by (auto simp: sym_unit_def unit_parse_cached_def split: option.splits prod.splits) (metis snd_conv)+

function full_loop :: "nat \<Rightarrow> srange list \<Rightarrow> symbolizer \<Rightarrow> srange list \<times> symbolizer" where
  "full_loop off v s =
     (if length (s_info (sy_sec s)) \<le> off then (v, s)
      else case parse_header (s_info (sy_sec s)) off of
        None \<Rightarrow> (v, s)
      | Some h \<Rightarrow>
          let (mu, s') = sym_unit s off;
              v = (case mu of
                     None \<Rightarrow> v
                   | Some u \<Rightarrow> v @ map (\<lambda>(a, e). \<lparr>rg_start = a, rg_end = e, rg_unit = off\<rparr>)
                                     (address_ranges (sy_sec s') u))
          in full_loop (h_end h) v s')"
  by pat_completeness auto
termination
proof (relation "measure (\<lambda>(off, v, s). length (s_info (sy_sec s)) - off)", goal_cases)
  case (2 off v s h x mu s' va)
  then have "off < h_end h" by (auto dest: parse_header_bounds)
  moreover have "sy_sec s' = sy_sec s" using 2 sym_unit_sec [of s off] by (simp add: prod_eq_iff)
  ultimately show ?case using 2 by auto
qed simp

declare full_loop.simps [simp del]

definition full_index :: "symbolizer \<Rightarrow> srange list \<times> symbolizer" where
  "full_index s =
     (case sy_full s of
        Some v \<Rightarrow> (v, s)
      | None \<Rightarrow>
          let (v, s) = full_loop 0 [] s; v = sort_key rg_start v
          in (v, s\<lparr>sy_full := Some v\<rparr>))"

definition unit_offset_for_pc :: "bool \<Rightarrow> symbolizer \<Rightarrow> u64 \<Rightarrow> nat option \<times> symbolizer" where
  "unit_offset_for_pc force_full s pc =
     (case (if force_full then None else find_range (sy_aranges s) pc) of
        Some u \<Rightarrow> (Some u, s)
      | None \<Rightarrow> (case full_index s of (v, s) \<Rightarrow> (find_range v pc, s)))"

section \<open>Names\<close>

text \<open>\<open>sym_die_name\<close> is \<^verbatim>\<open>Unit::die_name\<close> with the call through \<^verbatim>\<open>Symbolizer::die_name\<close> inlined: a hop
  looks up the unit that contains the referenced entry and continues there. The names recorded by the
  unit's own walk are used first, when that walk has happened.\<close>

definition die_name_step :: "sections \<Rightarrow> unit_rec \<Rightarrow> nat \<Rightarrow> (str option \<times> nat option) option" where
  "die_name_step sec u off = do {
     (code, c) \<leftarrow> cur_uleb (cur_new (s_info sec) off);
     ab \<leftarrow> abbrevs_get (u_abbrevs u) code;
     (vs, c) \<leftarrow> read_attrs (u_shape u) (ab_attrs ab) c;
     let name = attr_of 0x03 vs;
     let next = foldl (\<lambda>r av. if fst av = 0x31 \<or> fst av = 0x47
                  then (case snd av of Ref o' \<Rightarrow> Some o' | _ \<Rightarrow> r) else r) None vs;
     Some (map_option utf8_lossy (name \<bind> sym_string sec u), next) }"

function sym_die_name :: "symbolizer \<Rightarrow> unit_rec \<Rightarrow> nat \<Rightarrow> nat \<Rightarrow> str option \<times> symbolizer" where
  "sym_die_name s u off hops =
     (case (sy_funcs s (unit_off u) \<bind> (\<lambda>f. ft_names f off)) of
        Some n \<Rightarrow> (Some n, s)
      | None \<Rightarrow>
          if 4 < hops \<or> off < u_die_off u \<or> u_end u \<le> off then (None, s)
          else case die_name_step (sy_sec s) u off of
            None \<Rightarrow> (None, s)
          | Some (Some n, _) \<Rightarrow> (Some n, s)
          | Some (None, None) \<Rightarrow> (None, s)
          | Some (None, Some next) \<Rightarrow>
              let (mu, s') = unit_containing s next in
              (case mu of
                 None \<Rightarrow> (None, s')
               | Some u' \<Rightarrow> sym_die_name s' u' next (hops + 1)))"
  by pat_completeness auto
termination
  by (relation "measure (\<lambda>(s, u, off, hops). 6 - hops)") auto

declare sym_die_name.simps [simp del]

definition name_string :: "symbolizer \<Rightarrow> unit_rec \<Rightarrow> die_ref \<Rightarrow> str option \<times> symbolizer" where
  "name_string s u n =
     (case n of
        NameNone \<Rightarrow> (None, s)
      | NameDirect d \<Rightarrow> (Some d, s)
      | NameDie off \<Rightarrow>
          if u_die_off u \<le> off \<and> off < u_end u then sym_die_name s u off 0
          else case unit_containing s off of
            (None, s) \<Rightarrow> (None, s)
          | (Some u', s) \<Rightarrow> sym_die_name s u' off 0)"

section \<open>Resolving a program counter\<close>

definition loc_string :: "str \<times> u32 \<Rightarrow> str" where
  "loc_string fl = fst fl @ lit '':'' @ show_dec (unat (snd fl))"

definition resolve_in_unit :: "symbolizer \<Rightarrow> unit_rec \<Rightarrow> u64 \<Rightarrow> (str option \<times> str option) \<times> symbolizer" where
  "resolve_in_unit s u pc =
     (let (lt, s) = unit_lines s u;
          loc = map_option loc_string (lt \<bind> (\<lambda>t. line_find t pc));
          (ft, s) = unit_funcs s u
      in case func_find ft pc of
           None \<Rightarrow> ((None, loc), s)
         | Some n \<Rightarrow> let (f, s) = name_string s u n in ((f, loc), s))"

definition resolve :: "bool \<Rightarrow> symbolizer \<Rightarrow> u64 \<Rightarrow> (str \<times> str) \<times> symbolizer" where
  "resolve force_full s pc =
     (let (mo, s) = unit_offset_for_pc force_full s pc;
          (mu, s) = (case mo of None \<Rightarrow> (None, s) | Some o' \<Rightarrow> sym_unit s o');
          ((func, loc), s) = (case mu of None \<Rightarrow> ((None, None), s) | Some u \<Rightarrow> resolve_in_unit s u pc);
          (func, s) = (case func of
                         Some f \<Rightarrow> (Some f, s)
                       | None \<Rightarrow> (case sym_symtab s of
                           (t, s) \<Rightarrow> (map_option (\<lambda>n. canonical_function (utf8_lossy n)) (symtab_before t pc), s)))
      in ((case func of Some f \<Rightarrow> f | None \<Rightarrow> lit ''??'',
           case loc of Some l \<Rightarrow> l | None \<Rightarrow> lit ''??:0''), s))"

text \<open>The byte ranges \<^verbatim>\<open>prefault_units\<close> asks for, in order.\<close>

fun offsets_for :: "bool \<Rightarrow> symbolizer \<Rightarrow> u64 list \<Rightarrow> nat list \<times> symbolizer" where
  "offsets_for ff s [] = ([], s)"
| "offsets_for ff s (pc # pcs) =
     (let (mo, s) = unit_offset_for_pc ff s pc; (os, s) = offsets_for ff s pcs
      in (case mo of Some o' \<Rightarrow> o' # os | None \<Rightarrow> os, s))"

fun prefault_ranges :: "symbolizer \<Rightarrow> nat list \<Rightarrow> bytes list \<times> symbolizer" where
  "prefault_ranges s [] = ([], s)"
| "prefault_ranges s (off # offs) =
     (let (mu, s) = sym_unit s off in
      case mu of
        None \<Rightarrow> prefault_ranges s offs
      | Some u \<Rightarrow>
          let body = (case slice_get (s_info (sy_sec s)) off (u_end u) of Some b \<Rightarrow> [b] | None \<Rightarrow> []);
              lp = (case u_stmt_list u \<bind> line_extent (s_line (sy_sec s)) of Some b \<Rightarrow> [b] | None \<Rightarrow> []);
              (rest, s) = prefault_ranges s offs
          in (body @ lp @ rest, s))"

definition prefault_units :: "bool \<Rightarrow> symbolizer \<Rightarrow> u64 list \<Rightarrow> bytes list \<times> symbolizer" where
  "prefault_units ff s pcs =
     (if sy_threads s = 0 then ([], s)
      else let (offs, s) = offsets_for ff s pcs in prefault_ranges s (dedup (sort offs)))"

section \<open>The caches hold what parsing gives\<close>

text \<open>The contract of a cached lookup: under an invariant it returns the computed value and keeps the
  invariant, so the answer does not depend on earlier lookups.\<close>

locale memo =
  fixes get :: "'s \<Rightarrow> 'k \<Rightarrow> 'v option \<times> 's"
    and compute :: "'k \<Rightarrow> 'v option"
    and inv :: "'s \<Rightarrow> bool"
  assumes get_val: "inv s \<Longrightarrow> fst (get s k) = compute k"
    and get_inv: "inv s \<Longrightarrow> inv (snd (get s k))"
begin

lemma inv_history: "inv s \<Longrightarrow> inv (foldl (\<lambda>s k. snd (get s k)) s ks)"
  by (induction ks arbitrary: s) (auto intro: get_inv)

lemma history_independent: "inv s \<Longrightarrow> fst (get (foldl (\<lambda>s k. snd (get s k)) s ks) k) = compute k"
  by (rule get_val [OF inv_history])

lemma get_cases: "inv s \<Longrightarrow> get s k = (v, s') \<Longrightarrow> v = compute k \<and> inv s'"
  using get_val [of s k] get_inv [of s k] by simp

end

definition full_ranges :: "sections \<Rightarrow> nat \<Rightarrow> srange list" where
  "full_ranges sec off =
     (case unit_parse sec off of
        None \<Rightarrow> []
      | Some u \<Rightarrow> map (\<lambda>(a, e). \<lparr>rg_start = a, rg_end = e, rg_unit = off\<rparr>) (address_ranges sec u))"

text \<open>The offsets of the unit headers, in order, up to the first that does not parse.\<close>

function unit_chain :: "bytes \<Rightarrow> nat \<Rightarrow> nat list" where
  "unit_chain info off =
     (if length info \<le> off then []
      else case parse_header info off of None \<Rightarrow> [] | Some h \<Rightarrow> off # unit_chain info (h_end h))"
  by pat_completeness auto
termination
  by (relation "measure (\<lambda>(info, off). length info - off)") (auto dest: parse_header_bounds)

declare unit_chain.simps [simp del]

definition full_index_spec :: "sections \<Rightarrow> srange list" where
  "full_index_spec sec =
     sort_key rg_start (concat (map (full_ranges sec) (unit_chain (s_info sec) 0)))"

definition lines_spec :: "sections \<Rightarrow> unit_rec \<Rightarrow> line_table option" where
  "lines_spec sec u = u_stmt_list u \<bind> line_parse sec u"

definition caches_ok :: "sections \<Rightarrow> bytes \<times> bytes \<Rightarrow> srange list \<Rightarrow> symbolizer \<Rightarrow> bool" where
  "caches_ok sec raw ar s \<longleftrightarrow> sy_sec s = sec \<and> sy_symtab_raw s = raw \<and> sy_aranges s = ar \<and>
     (\<forall>o' a. sy_abbrevs s o' = Some a \<longrightarrow> abbrevs_parse (s_abbrev sec) o' = Some a) \<and>
     (\<forall>o' u. sy_units s o' = Some u \<longrightarrow> unit_parse sec o' = Some u) \<and>
     (\<forall>v. sy_full s = Some v \<longrightarrow> v = full_index_spec sec) \<and>
     (\<forall>t. sy_symtab s = Some t \<longrightarrow> t = symtab_parse (fst raw) (snd raw)) \<and>
     (\<forall>o' l. sy_lines s o' = Some l \<longrightarrow> map_option (lines_spec sec) (unit_parse sec o') = Some l) \<and>
     (\<forall>o' f. sy_funcs s o' = Some f \<longrightarrow> map_option (unit_walk sec) (unit_parse sec o') = Some f)"

lemma caches_ok_sec: "caches_ok sec raw ar s \<Longrightarrow> sy_sec s = sec"
  by (simp add: caches_ok_def)

lemma caches_ok_aranges: "caches_ok sec raw ar s \<Longrightarrow> sy_aranges s = ar"
  by (simp add: caches_ok_def)

lemma caches_ok_lines:
  "caches_ok sec raw ar s \<Longrightarrow> sy_lines s o' = Some l \<Longrightarrow> unit_parse sec o' = Some u \<Longrightarrow> l = lines_spec sec u"
  unfolding caches_ok_def by (metis option.map(2) option.inject)

lemma caches_ok_funcs:
  "caches_ok sec raw ar s \<Longrightarrow> sy_funcs s o' = Some f \<Longrightarrow> unit_parse sec o' = Some u \<Longrightarrow> f = unit_walk sec u"
  unfolding caches_ok_def by (metis option.map(2) option.inject)

lemma caches_ok_update:
  assumes "caches_ok sec raw ar s" and "unit_parse sec o' = Some u"
  shows "caches_ok sec raw ar (s\<lparr>sy_lines := (sy_lines s)(o' \<mapsto> lines_spec sec u)\<rparr>)"
    and "caches_ok sec raw ar (s\<lparr>sy_funcs := (sy_funcs s)(o' \<mapsto> unit_walk sec u)\<rparr>)"
  using assms by (auto simp: caches_ok_def)

lemma sym_abbrevs_memo:
  assumes "caches_ok sec raw ar s"
  shows "fst (sym_abbrevs s off) = abbrevs_parse (s_abbrev sec) off"
    and "caches_ok sec raw ar (snd (sym_abbrevs s off))"
  using assms by (auto simp: caches_ok_def sym_abbrevs_def split: option.splits)

interpretation abbrev_memo: memo sym_abbrevs "abbrevs_parse (s_abbrev sec)" "caches_ok sec raw ar" for sec raw ar
  by unfold_locales (simp_all add: sym_abbrevs_memo)

lemma unit_parse_cached_memo:
  assumes "caches_ok sec raw ar s"
  shows "fst (unit_parse_cached s off) = unit_parse sec off"
    and "caches_ok sec raw ar (snd (unit_parse_cached s off))"
proof -
  show "fst (unit_parse_cached s off) = unit_parse sec off"
  proof (cases "parse_header (s_info sec) off")
    case (Some h)
    obtain a s' where a: "sym_abbrevs s (h_abbrev_off h) = (a, s')" by (cases "sym_abbrevs s (h_abbrev_off h)")
    from abbrev_memo.get_cases [OF assms a] Some a assms show ?thesis
      by (auto simp: unit_parse_cached_def unit_parse_def caches_ok_sec split: option.split)
  qed (use assms in \<open>simp add: unit_parse_cached_def unit_parse_def caches_ok_sec\<close>)
  show "caches_ok sec raw ar (snd (unit_parse_cached s off))"
    using assms abbrev_memo.get_cases [OF assms]
    by (auto simp: unit_parse_cached_def split: option.split prod.split)
qed

lemma sym_unit_memo:
  assumes "caches_ok sec raw ar s"
  shows "fst (sym_unit s off) = unit_parse sec off" and "caches_ok sec raw ar (snd (sym_unit s off))"
proof -
  obtain u s' where u: "unit_parse_cached s off = (u, s')" by (cases "unit_parse_cached s off")
  with unit_parse_cached_memo [OF assms, of off]
  have u': "u = unit_parse sec off" "caches_ok sec raw ar s'" by simp_all
  show "fst (sym_unit s off) = unit_parse sec off" and "caches_ok sec raw ar (snd (sym_unit s off))"
    using u u' assms by (auto simp: sym_unit_def caches_ok_def split: option.splits)
qed

interpretation unit_memo: memo sym_unit "unit_parse sec" "caches_ok sec raw ar" for sec raw ar
  by unfold_locales (simp_all add: sym_unit_memo)

lemma full_loop_memo:
  "caches_ok sec raw ar s \<Longrightarrow>
     fst (full_loop off v s) = v @ concat (map (full_ranges sec) (unit_chain (s_info sec) off)) \<and>
     caches_ok sec raw ar (snd (full_loop off v s))"
proof (induction off v s rule: full_loop.induct)
  case (1 off v s)
  note sec = caches_ok_sec [OF 1(2)]
  show ?case
  proof (cases "length (s_info sec) \<le> off \<or> parse_header (s_info sec) off = None")
    case True
    with 1(2) sec show ?thesis
      by (auto simp: full_loop.simps [of off v s] unit_chain.simps [of "s_info sec" off])
  next
    case False
    then obtain h where off: "\<not> length (s_info sec) \<le> off" and h: "parse_header (s_info sec) off = Some h" by auto
    obtain mu s' where u: "sym_unit s off = (mu, s')" by (cases "sym_unit s off")
    from unit_memo.get_cases [OF 1(2) u] have mu: "mu = unit_parse sec off" and ok: "caches_ok sec raw ar s'" by auto
    let ?v = "case mu of None \<Rightarrow> v | Some u \<Rightarrow> v @ map (\<lambda>(a, e). \<lparr>rg_start = a, rg_end = e, rg_unit = off\<rparr>)
                (address_ranges (sy_sec s') u)"
    have v: "?v = v @ full_ranges sec off"
      by (simp add: mu full_ranges_def caches_ok_sec [OF ok] split: option.split)
    have "full_loop off v s = full_loop (h_end h) ?v s'"
      using off h by (subst full_loop.simps) (simp add: sec u)
    with 1(1) [unfolded sec, OF off h, OF u [symmetric] refl refl ok] show ?thesis
      unfolding v by (simp add: unit_chain.simps [of "s_info sec" off] off h)
  qed
qed

lemma full_index_memo:
  assumes "caches_ok sec raw ar s"
  shows "fst (full_index s) = full_index_spec sec" and "caches_ok sec raw ar (snd (full_index s))"
proof -
  obtain v s' where l: "full_loop 0 [] s = (v, s')" by (cases "full_loop 0 [] s")
  with full_loop_memo [OF assms, of 0 "[]"]
  have v: "v = concat (map (full_ranges sec) (unit_chain (s_info sec) 0))" and ok: "caches_ok sec raw ar s'" by auto
  show "fst (full_index s) = full_index_spec sec"
    using assms by (auto simp: full_index_def l v full_index_spec_def caches_ok_def Let_def split: option.split)
  show "caches_ok sec raw ar (snd (full_index s))"
    using assms ok by (auto simp: full_index_def l v full_index_spec_def caches_ok_def Let_def split: option.splits)
qed

definition pc_unit_spec :: "bool \<Rightarrow> sections \<Rightarrow> srange list \<Rightarrow> u64 \<Rightarrow> nat option" where
  "pc_unit_spec force_full sec ar pc =
     (case (if force_full then None else find_range ar pc) of
        Some u \<Rightarrow> Some u
      | None \<Rightarrow> find_range (full_index_spec sec) pc)"

lemma unit_offset_for_pc_memo:
  assumes "caches_ok sec raw ar s"
  shows "fst (unit_offset_for_pc ff s pc) = pc_unit_spec ff sec ar pc"
    and "caches_ok sec raw ar (snd (unit_offset_for_pc ff s pc))"
  using full_index_memo [OF assms] assms
  by (auto simp: unit_offset_for_pc_def pc_unit_spec_def caches_ok_aranges split: option.split prod.split)

lemma unit_attr_shape: "u_shape (fst (unit_attr s av)) = u_shape (fst s)"
  by (simp add: unit_attr_def split: prod.split)

lemma unit_attrs_shape: "u_shape (fst (foldl unit_attr s vs)) = u_shape (fst s)"
  by (induction vs arbitrary: s) (simp_all add: unit_attr_shape)

lemma unit_parse_off: "unit_parse sec off = Some u \<Longrightarrow> unit_off u = off"
proof -
  assume "unit_parse sec off = Some u"
  then obtain h ab where h: "parse_header (s_info sec) off = Some h" and "unit_parse_with sec h ab = Some u"
    by (auto simp: unit_parse_def bind_simps split: if_splits)
  then obtain vs where "u_shape u = u_shape (fst (foldl unit_attr (unit_init h ab, None) vs))"
    by (auto simp: unit_parse_with_def bind_simps case_prod_beta Let_def split: if_splits)
  with parse_header_bounds(5) [OF h] show ?thesis
    by (simp add: unit_attrs_shape unit_init_def unit_off_def)
qed

lemma unit_lines_memo:
  assumes "caches_ok sec raw ar s" and "unit_parse sec (unit_off u) = Some u"
  shows "fst (unit_lines s u) = lines_spec sec u" and "caches_ok sec raw ar (snd (unit_lines s u))"
  using assms(1) caches_ok_lines [OF assms(1) _ assms(2)] caches_ok_update(1) [OF assms]
  by (auto simp: unit_lines_def lines_spec_def [symmetric] caches_ok_sec Let_def split: option.splits)

lemma unit_funcs_memo:
  assumes "caches_ok sec raw ar s" and "unit_parse sec (unit_off u) = Some u"
  shows "fst (unit_funcs s u) = unit_walk sec u" and "caches_ok sec raw ar (snd (unit_funcs s u))"
  using assms(1) caches_ok_funcs [OF assms(1) _ assms(2)] caches_ok_update(2) [OF assms]
  by (auto simp: unit_funcs_def caches_ok_sec Let_def split: option.splits)

lemma unit_containing_memo:
  "caches_ok sec raw ar s \<Longrightarrow> caches_ok sec raw ar (snd (unit_containing s off))"
  using unit_memo.get_inv [of sec raw ar s]
  by (auto simp: unit_containing_def Let_def split: option.split prod.split) (metis snd_conv)+

lemma sym_die_name_memo:
  "caches_ok sec raw ar s \<Longrightarrow> caches_ok sec raw ar (snd (sym_die_name s u off hops))"
proof (induction s u off hops rule: sym_die_name.induct)
  case (1 s u off hops)
  show ?case
  proof (cases "\<exists>nx. (sy_funcs s (unit_off u) \<bind> (\<lambda>f. ft_names f off)) = None \<and>
      \<not> (4 < hops \<or> off < u_die_off u \<or> u_end u \<le> off) \<and>
      die_name_step (sy_sec s) u off = Some (None, Some nx)")
    case True
    then obtain nx where nx: "(sy_funcs s (unit_off u) \<bind> (\<lambda>f. ft_names f off)) = None"
      "\<not> (4 < hops \<or> off < u_die_off u \<or> u_end u \<le> off)"
      "die_name_step (sy_sec s) u off = Some (None, Some nx)" by blast
    obtain mu s' where c: "unit_containing s nx = (mu, s')" by (cases "unit_containing s nx")
    have ok: "caches_ok sec raw ar s'" using unit_containing_memo [OF 1(2), of nx] c by simp
    from 1(1) [OF nx refl refl refl c [symmetric] refl _ ok] ok show ?thesis
      by (subst sym_die_name.simps) (simp add: nx c split: option.split)
  next
    case False
    with 1(2) show ?thesis
      by (subst sym_die_name.simps) (auto split: option.splits)
  qed
qed

lemma name_string_memo:
  assumes "caches_ok sec raw ar s"
  shows "caches_ok sec raw ar (snd (name_string s u n))"
proof (cases n)
  case (NameDie off)
  obtain mu s' where c: "unit_containing s off = (mu, s')" by (cases "unit_containing s off")
  with unit_containing_memo [OF assms, of off] have "caches_ok sec raw ar s'" by simp
  with NameDie assms c show ?thesis
    by (auto simp: name_string_def intro: sym_die_name_memo split: option.split)
qed (simp_all add: name_string_def assms)

lemma sym_symtab_memo:
  assumes "caches_ok sec raw ar s"
  shows "fst (sym_symtab s) = symtab_parse (fst raw) (snd raw)" and "caches_ok sec raw ar (snd (sym_symtab s))"
  using assms by (auto simp: sym_symtab_def caches_ok_def Let_def split: option.splits)

lemma resolve_in_unit_memo:
  assumes "caches_ok sec raw ar s" and "unit_parse sec (unit_off u) = Some u"
  shows "snd (fst (resolve_in_unit s u pc)) = map_option loc_string (lines_spec sec u \<bind> (\<lambda>t. line_find t pc))"
    and "caches_ok sec raw ar (snd (resolve_in_unit s u pc))"
proof -
  obtain lt s1 where l: "unit_lines s u = (lt, s1)" by (cases "unit_lines s u")
  with unit_lines_memo [OF assms] have lt: "lt = lines_spec sec u" and s1: "caches_ok sec raw ar s1" by auto
  obtain ft s2 where f: "unit_funcs s1 u = (ft, s2)" by (cases "unit_funcs s1 u")
  with unit_funcs_memo [OF s1 assms(2)] have s2: "caches_ok sec raw ar s2" by auto
  show "snd (fst (resolve_in_unit s u pc)) = map_option loc_string (lines_spec sec u \<bind> (\<lambda>t. line_find t pc))"
    by (auto simp: resolve_in_unit_def l f lt Let_def split: option.split prod.split)
  show "caches_ok sec raw ar (snd (resolve_in_unit s u pc))"
    using name_string_memo [OF s2, of u] s2
    by (auto simp: resolve_in_unit_def l f Let_def split: option.split prod.split) (metis snd_conv)
qed

definition loc_spec :: "bool \<Rightarrow> sections \<Rightarrow> srange list \<Rightarrow> u64 \<Rightarrow> str" where
  "loc_spec force_full sec ar pc =
     (case (do { o' \<leftarrow> pc_unit_spec force_full sec ar pc;
                 u \<leftarrow> unit_parse sec o';
                 t \<leftarrow> lines_spec sec u;
                 fl \<leftarrow> line_find t pc;
                 Some (loc_string fl) }) of
        Some l \<Rightarrow> l | None \<Rightarrow> lit ''??:0'')"

lemma resolve_memo:
  assumes "caches_ok sec raw ar s"
  shows "snd (fst (resolve ff s pc)) = loc_spec ff sec ar pc"
    and "caches_ok sec raw ar (snd (resolve ff s pc))"
proof -
  obtain mo s1 where o1: "unit_offset_for_pc ff s pc = (mo, s1)" by (cases "unit_offset_for_pc ff s pc")
  with unit_offset_for_pc_memo [OF assms, of ff pc]
  have mo: "mo = pc_unit_spec ff sec ar pc" and s1: "caches_ok sec raw ar s1" by auto
  obtain mu s2 where u: "(case mo of None \<Rightarrow> (None, s1) | Some o' \<Rightarrow> sym_unit s1 o') = (mu, s2)"
    by (cases "case mo of None \<Rightarrow> (None, s1) | Some o' \<Rightarrow> sym_unit s1 o'")
  then have mu: "mu = mo \<bind> unit_parse sec" and s2: "caches_ok sec raw ar s2"
    using s1 unit_memo.get_cases [OF s1] by (auto split: option.splits)
  obtain f l s3 where r: "(case mu of None \<Rightarrow> ((None, None), s2) | Some u \<Rightarrow> resolve_in_unit s2 u pc) = ((f, l), s3)"
    by (metis prod.exhaust)
  have pu: "unit_parse sec (unit_off u) = Some u" if "mu = Some u" for u
    using that unfolding mu by (auto simp: bind_simps unit_parse_off)
  have l: "l = mu \<bind> (\<lambda>u. map_option loc_string (lines_spec sec u \<bind> (\<lambda>t. line_find t pc)))"
    and s3: "caches_ok sec raw ar s3"
    using r s2 pu resolve_in_unit_memo [OF s2, of _ pc]
    by (cases mu; auto simp: prod_eq_iff)+
  have "snd (fst (resolve ff s pc)) = (case l of Some l \<Rightarrow> l | None \<Rightarrow> lit ''??:0'')"
    by (simp add: resolve_def o1 u r Let_def split: option.split prod.split)
  also have "\<dots> = loc_spec ff sec ar pc"
    unfolding loc_spec_def mo [symmetric] l mu by (simp split: option.split bind_split)
  finally show "snd (fst (resolve ff s pc)) = loc_spec ff sec ar pc" .
  show "caches_ok sec raw ar (snd (resolve ff s pc))"
    using s3 sym_symtab_memo(2) [OF s3]
    by (auto simp: resolve_def o1 u r Let_def split: option.splits prod.splits)
qed

definition sym_fresh :: "symbolizer \<Rightarrow> bool" where
  "sym_fresh s \<longleftrightarrow> sy_symtab s = None \<and> sy_full s = None \<and> sy_units s = Map.empty \<and>
     sy_abbrevs s = Map.empty \<and> sy_lines s = Map.empty \<and> sy_funcs s = Map.empty"

lemma sym_open_fresh: "sym_open threads data = Inr s \<Longrightarrow> sym_fresh s"
  by (auto simp: sym_open_def sym_fresh_def split: sum.splits if_splits prod.splits)

lemma sym_fresh_caches: "sym_fresh s \<Longrightarrow> caches_ok (sy_sec s) (sy_symtab_raw s) (sy_aranges s) s"
  by (auto simp: sym_fresh_def caches_ok_def)

lemma resolve_history:
  "caches_ok sec raw ar s \<Longrightarrow> caches_ok sec raw ar (foldl (\<lambda>s p. snd (resolve ff s p)) s pcs)"
  by (induction pcs arbitrary: s) (auto intro: resolve_memo(2))

text \<open>C1. Source locations. On a freshly opened symbolizer (lemma \<open>sym_open_fresh\<close>), after any sequence of
  queries has filled the caches, the location answered for a program counter is the one parsing the
  sections from scratch gives: the unit of the address index, its line table, the row for the address.
  The caches never change an answer.\<close>

theorem resolve_location_history_free:
  assumes "sym_fresh s"
  shows "snd (fst (resolve ff (foldl (\<lambda>s p. snd (resolve ff s p)) s pcs) pc)) =
    loc_spec ff (sy_sec s) (sy_aranges s) pc"
  by (rule resolve_memo(1) [OF resolve_history [OF sym_fresh_caches [OF assms]]])

definition sym_example :: symbolizer where
  "sym_example =
     \<lparr>sy_sec = line_example_sec
        \<lparr>s_info := [12, 0, 0, 0, 4, 0, 0, 0, 0, 0, 8, 1, 0, 0, 0, 0],
         s_abbrev := [1, 0x11, 0, 0x10, 0x17, 0, 0, 0]\<rparr>,
      sy_symtab_raw = ([], []), sy_aranges = [\<lparr>rg_start = 0x1000, rg_end = 0x1020, rg_unit = 0\<rparr>],
      sy_unit_offsets = [0], sy_threads = 1, sy_symtab = None, sy_full = None, sy_units = Map.empty,
      sy_abbrevs = Map.empty, sy_lines = Map.empty, sy_funcs = Map.empty\<rparr>"

theorem resolve_location_history_free_witness:
  "sym_fresh sym_example \<and>
   snd (fst (resolve False (foldl (\<lambda>s p. snd (resolve False s p)) sym_example [5, 9]) 0x1002)) = lit ''a:1''"
proof -
  have f: "sym_fresh sym_example" by (simp add: sym_fresh_def sym_example_def)
  have "loc_spec False (sy_sec sym_example) (sy_aranges sym_example) 0x1002 = lit ''a:1''" by code_simp
  with f resolve_location_history_free [OF f, of False "[5, 9]" "0x1002"] show ?thesis by simp
qed

section \<open>Range search\<close>

definition srange_covers :: "u64 \<Rightarrow> srange \<Rightarrow> bool" where
  "srange_covers pc r \<longleftrightarrow> rg_start r \<le> pc \<and> pc < rg_end r"

definition sranges_disjoint :: "srange list \<Rightarrow> bool" where
  "sranges_disjoint rs \<longleftrightarrow>
     list_all (\<lambda>j. list_all (\<lambda>i. rg_end (rs ! i) \<le> rg_start (rs ! j)) [0..<j]) [0..<length rs]"

lemma sranges_disjointD:
  "sranges_disjoint rs \<Longrightarrow> i < j \<Longrightarrow> j < length rs \<Longrightarrow> rg_end (rs ! i) \<le> rg_start (rs ! j)"
  by (auto simp: sranges_disjoint_def list_all_iff)

interpretation srange_tbl: sorted_table rg_start "fst (parse_aranges sec)" for sec
  by unfold_locales (simp add: parse_aranges_def split: prod.split)

text \<open>C6. The unit index. On the table parsed from \<^verbatim>\<open>.debug_aranges\<close>, when its ranges do not overlap, the
  bounded search answers with a unit exactly when one of the unit's ranges covers the program counter,
  and the list of unit offsets is sorted without duplicates.\<close>

theorem find_range_exact:
  assumes "sranges_disjoint (fst (parse_aranges sec))"
  shows "(find_range (fst (parse_aranges sec)) pc = Some u \<longleftrightarrow>
      list_ex (\<lambda>r. srange_covers pc r \<and> rg_unit r = u) (fst (parse_aranges sec))) \<and>
    sorted (snd (parse_aranges sec)) \<and> distinct (snd (parse_aranges sec))"
proof -
  let ?rs = "fst (parse_aranges sec)"
  let ?j = "lookback 3 (\<lambda>j. rg_start (?rs ! j) \<le> pc \<and> pc < rg_end (?rs ! j))
              (partition_point (\<lambda>r. rg_start r \<le> pc) ?rs)"
  have exact: "?j = Some j \<longleftrightarrow> j < length ?rs \<and> srange_covers pc (?rs ! j)" for j
    unfolding srange_covers_def
    by (rule srange_tbl.lookback_exact [where hi = rg_end]) (simp_all add: sranges_disjointD [OF assms])
  have "find_range ?rs pc = Some u \<longleftrightarrow> (\<exists>j. ?j = Some j \<and> rg_unit (?rs ! j) = u)"
    unfolding find_range_def Let_def by (auto simp: map_option_eq_Some)
  also have "\<dots> \<longleftrightarrow> list_ex (\<lambda>r. srange_covers pc r \<and> rg_unit r = u) ?rs"
    unfolding exact list_ex_length by blast
  finally show ?thesis
    using sorted_dedup_distinct [of "sort (snd (aranges_loop (cur_new sec 0) [] []))"]
    by (auto simp: parse_aranges_def split: prod.splits)
qed

definition aranges_example :: bytes where
  "aranges_example =
     [28, 0, 0, 0, 2, 0, 9, 0, 0, 0, 4, 0, 0, 0, 0, 0, 0, 0x10, 0, 0, 0x20, 0, 0, 0, 0, 0, 0, 0, 0, 0, 0, 0]"

theorem find_range_exact_witness:
  "sranges_disjoint (fst (parse_aranges aranges_example)) \<and>
   find_range (fst (parse_aranges aranges_example)) 0x1008 = Some 9"
proof -
  have p: "parse_aranges aranges_example = ([\<lparr>rg_start = 0x1000, rg_end = 0x1020, rg_unit = 9\<rparr>], [9])"
    by code_simp
  have d: "sranges_disjoint (fst (parse_aranges aranges_example))" unfolding p by code_simp
  from find_range_exact [OF d, of "0x1008" 9] d show ?thesis by (simp add: p srange_covers_def)
qed

end
