(* ===== verification/Inflate.thy ===== *)
theory Inflate
  imports Rust_Str
begin

text \<open>
  The image decoder of \<^verbatim>\<open>vock/src/fuzz/inflate.rs\<close>: base64, the LSB-first bit reader (\<open>br\<close> is
  \<^verbatim>\<open>BitReader\<close>), canonical Huffman tables (\<open>huffman\<close>), the DEFLATE block loop and the zlib
  wrapper. Table entries and code lengths are naturals: a table has at most 320 entries, so none of
  the \<^verbatim>\<open>u16\<close> counters can wrap; \<open>code\<close>, \<open>first\<close> and \<open>index\<close> of the decoder are integers, since
  \<open>code - first\<close> may be negative on an over-subscribed table and indexes nothing then.

  Every loop consumes at least one bit per round, so all functions are total. Shown here: the bit
  reader refines a list of bits; a canonical Huffman code word decodes to its symbol; the output never
  exceeds the limit; a stored stream and base64 text decode to the bytes they encode.
\<close>

section \<open>Base64\<close>

definition b64_val :: "u8 \<Rightarrow> u8 option" where
  "b64_val c =
     (if 0x41 \<le> c \<and> c \<le> 0x5a then Some (c - 0x41)
      else if 0x61 \<le> c \<and> c \<le> 0x7a then Some (c - 0x61 + 26)
      else if 0x30 \<le> c \<and> c \<le> 0x39 then Some (c - 0x30 + 52)
      else if c = 0x2b then Some 62
      else if c = 0x2f then Some 63
      else None)"

fun b64_loop :: "bytes \<Rightarrow> u32 \<Rightarrow> nat \<Rightarrow> bytes \<Rightarrow> bytes option" where
  "b64_loop [] acc nbits out = Some out"
| "b64_loop (c # cs) acc nbits out =
     (if c = 0x3d then Some out
      else if ascii_ws c then b64_loop cs acc nbits out
      else case b64_val c of
        None \<Rightarrow> None
      | Some v \<Rightarrow>
          let acc = push_bit 6 acc OR ucast v; nbits = nbits + 6
          in if 8 \<le> nbits
             then b64_loop cs acc (nbits - 8) (out @ [ucast (drop_bit (nbits - 8) acc)])
             else b64_loop cs acc nbits out)"

definition base64_decode :: "bytes \<Rightarrow> bytes option" where
  "base64_decode s = b64_loop s 0 0 []"

section \<open>The bit reader\<close>

record br =
  br_data :: bytes
  br_pos :: nat
  br_buf :: u32
  br_cnt :: nat

definition br_new :: "bytes \<Rightarrow> br" where
  "br_new d = \<lparr>br_data = d, br_pos = 0, br_buf = 0, br_cnt = 0\<rparr>"

function br_fill :: "nat \<Rightarrow> br \<Rightarrow> br option" where
  "br_fill n r =
     (if br_cnt r < n
      then do {
        b \<leftarrow> nth_opt (br_data r) (br_pos r);
        br_fill n (r\<lparr>br_pos := br_pos r + 1, br_buf := br_buf r OR push_bit (br_cnt r) (ucast b),
                     br_cnt := br_cnt r + 8\<rparr>) }
      else Some r)"
  by pat_completeness auto
termination
  by (relation "measure (\<lambda>(n, r). n - br_cnt r)") auto

declare br_fill.simps [simp del]

definition br_bits :: "nat \<Rightarrow> br \<Rightarrow> (u32 \<times> br) option" where
  "br_bits n r =
     (if n = 0 then Some (0, r)
      else do {
        r \<leftarrow> br_fill n r;
        Some (br_buf r AND (push_bit n 1 - 1),
              r\<lparr>br_buf := drop_bit n (br_buf r), br_cnt := br_cnt r - n\<rparr>) })"

definition align_byte :: "br \<Rightarrow> br" where
  "align_byte r =
     (let d = br_cnt r mod 8 in r\<lparr>br_buf := drop_bit d (br_buf r), br_cnt := br_cnt r - d\<rparr>)"

text \<open>The bits left to read. Every successful read takes exactly its share of them.\<close>

definition br_rem :: "br \<Rightarrow> nat" where
  "br_rem r = br_cnt r + 8 * (length (br_data r) - br_pos r)"

lemma br_fill_rem: "br_fill n r = Some r' \<Longrightarrow> br_rem r' = br_rem r \<and> n \<le> br_cnt r'"
proof (induction n r rule: br_fill.induct)
  case (1 n r)
  show ?case
  proof (cases "br_cnt r < n")
    case True
    with 1(2) obtain b where b: "nth_opt (br_data r) (br_pos r) = Some b"
      and f: "br_fill n (r\<lparr>br_pos := br_pos r + 1, br_buf := br_buf r OR push_bit (br_cnt r) (ucast b),
                     br_cnt := br_cnt r + 8\<rparr>) = Some r'"
      by (subst (asm) br_fill.simps) (auto simp: bind_simps)
    from 1(1) [OF True b f] b show ?thesis by (auto simp: br_rem_def)
  next
    case False
    with 1(2) show ?thesis by (subst (asm) br_fill.simps) simp
  qed
qed

lemma br_bits_rem: "br_bits n r = Some (v, r') \<Longrightarrow> br_rem r' + n = br_rem r"
  by (auto simp: br_bits_def bind_simps br_rem_def dest!: br_fill_rem split: if_splits)

text \<open>\<open>eats k r x\<close>: when the read \<open>x\<close> from \<open>r\<close> succeeds, it has taken at least \<open>k\<close> bits.\<close>

definition eats :: "nat \<Rightarrow> br \<Rightarrow> ('a \<times> br) option \<Rightarrow> bool" where
  "eats k r x \<longleftrightarrow> (\<forall>v r'. x = Some (v, r') \<longrightarrow> br_rem r' + k \<le> br_rem r)"

lemma eatsD: "eats k r x \<Longrightarrow> x = Some (v, r') \<Longrightarrow> br_rem r' + k \<le> br_rem r"
  unfolding eats_def by blast

lemma eats_None: "eats k r None"
  by (simp add: eats_def)

lemma eats_Some: "eats 0 r (Some (v, r))"
  by (simp add: eats_def)

lemma eats_if: "(b \<Longrightarrow> eats k r x) \<Longrightarrow> (\<not> b \<Longrightarrow> eats k r y) \<Longrightarrow> eats k r (if b then x else y)"
  by simp

lemma eats_0: "eats k r x \<Longrightarrow> eats 0 r x"
  unfolding eats_def add_0_right by (blast dest: add_leD1)

lemma eats_bind:
  assumes "eats k r x" and "\<And>v r'. x = Some (v, r') \<Longrightarrow> eats 0 r' (f v r')"
  shows "eats k r (x \<bind> (\<lambda>(v, r). f v r))"
  unfolding eats_def bind_pair_Some
proof (intro allI impI, elim exE conjE)
  fix w r'' v r' assume x: "x = Some (v, r')" and f: "f v r' = Some (w, r'')"
  from eatsD [OF assms(1) x] eatsD [OF assms(2) [OF x] f] show "br_rem r'' + k \<le> br_rem r" by simp
qed

lemma eats_bind_pure: "(\<And>v. x = Some v \<Longrightarrow> eats k r (f v)) \<Longrightarrow> eats k r (x \<bind> f)"
  by (cases x) (auto simp: eats_None)

lemma eats_case_prod: "(\<And>a b. v = (a, b) \<Longrightarrow> eats k r (f a b)) \<Longrightarrow> eats k r (case v of (a, b) \<Rightarrow> f a b)"
  by (cases v) simp

lemma eats_bits: "eats n r (br_bits n r)"
  unfolding eats_def by (blast dest: br_bits_rem intro: eq_refl)

lemma align_rem: "br_rem (align_byte r) \<le> br_rem r"
  by (simp add: align_byte_def br_rem_def Let_def)

section \<open>Huffman tables\<close>

record huffman =
  h_counts :: "nat list"
  h_symbols :: "nat list"

definition max_bits :: nat where
  "max_bits = 15"

definition huff_counts :: "nat list \<Rightarrow> nat list" where
  "huff_counts lengths =
     (foldl (\<lambda>c l. c[l := c ! l + 1]) (replicate (max_bits + 1) 0) lengths)[0 := 0]"

definition huff_offs :: "nat list \<Rightarrow> nat list" where
  "huff_offs counts =
     foldl (\<lambda>offs len. offs[len + 1 := offs ! len + counts ! len]) (replicate (max_bits + 2) 0) [1..<max_bits]"

definition huff_place :: "nat list \<times> nat list \<Rightarrow> nat \<times> nat \<Rightarrow> nat list \<times> nat list" where
  "huff_place st sl =
     (case st of (offs, symbols) \<Rightarrow> case sl of (sy, l) \<Rightarrow>
        if l = 0 then (offs, symbols)
        else let slot = offs ! l;
                 symbols = (if slot < length symbols then symbols[slot := sy] else symbols)
             in (offs[l := offs ! l + 1], symbols))"

definition huff_new :: "nat list \<Rightarrow> huffman" where
  "huff_new lengths =
     (let counts = huff_counts lengths
      in \<lparr>h_counts = counts,
          h_symbols = snd (foldl huff_place (huff_offs counts, replicate (length lengths) 0)
                             (zip [0..<length lengths] lengths))\<rparr>)"

fun huff_loop :: "huffman \<Rightarrow> nat list \<Rightarrow> int \<Rightarrow> int \<Rightarrow> int \<Rightarrow> br \<Rightarrow> (nat \<times> br) option" where
  "huff_loop h [] code first index r = None"
| "huff_loop h (len # lens) code first index r = do {
     (b, r) \<leftarrow> br_bits 1 r;
     let code = code OR uint b;
     let count = int (h_counts h ! len);
     if code - count < first
     then (let i = index + (code - first) in
           if i < 0 then None else do { s \<leftarrow> nth_opt (h_symbols h) (nat i); Some (s, r) })
     else huff_loop h lens (push_bit 1 code) (push_bit 1 (first + count)) (index + count) r }"

definition huff_decode :: "huffman \<Rightarrow> br \<Rightarrow> (nat \<times> br) option" where
  "huff_decode h r = huff_loop h [1..<max_bits + 1] 0 0 0 r"

lemma eats_huff_loop: "eats 1 r (huff_loop h lens code first index r)"
proof (induction lens arbitrary: code first index r)
  case (Cons len lens)
  show ?case
    unfolding huff_loop.simps Let_def
    by (intro eats_bind eats_bits eats_if eats_None eats_bind_pure eats_Some eats_0 [OF Cons.IH])
qed (simp add: eats_None)

lemma eats_huff: "eats 1 r (huff_decode h r)"
  unfolding huff_decode_def by (rule eats_huff_loop)

section \<open>Blocks\<close>

definition len_base :: "nat list" where
  "len_base = [3, 4, 5, 6, 7, 8, 9, 10, 11, 13, 15, 17, 19, 23, 27, 31, 35, 43, 51, 59, 67, 83, 99, 115,
     131, 163, 195, 227, 258]"

definition len_extra :: "nat list" where
  "len_extra = [0, 0, 0, 0, 0, 0, 0, 0, 1, 1, 1, 1, 2, 2, 2, 2, 3, 3, 3, 3, 4, 4, 4, 4, 5, 5, 5, 5, 0]"

definition dist_base :: "nat list" where
  "dist_base = [1, 2, 3, 4, 5, 7, 9, 13, 17, 25, 33, 49, 65, 97, 129, 193, 257, 385, 513, 769, 1025, 1537,
     2049, 3073, 4097, 6145, 8193, 12289, 16385, 24577]"

definition dist_extra :: "nat list" where
  "dist_extra = [0, 0, 0, 0, 1, 1, 2, 2, 3, 3, 4, 4, 5, 5, 6, 6, 7, 7, 8, 8, 9, 9, 10, 10, 11, 11, 12, 12,
     13, 13]"

definition fixed_trees :: "huffman \<times> huffman" where
  "fixed_trees =
     (huff_new (map (\<lambda>i. if i \<le> 143 then 8 else if i \<le> 255 then 9 else if i \<le> 279 then 7 else 8) [0..<288]),
      huff_new (replicate 30 5))"

text \<open>The overlapping copy: byte \<open>k\<close> reads what the earlier rounds pushed.\<close>

fun copy_loop :: "nat \<Rightarrow> nat \<Rightarrow> bytes \<Rightarrow> bytes" where
  "copy_loop start 0 out = out"
| "copy_loop start (Suc n) out = copy_loop (start + 1) n (out @ [out ! start])"

definition length_of :: "nat \<Rightarrow> br \<Rightarrow> (nat \<times> br) option" where
  "length_of sy r = do {
     let i = sy - 257;
     (x, r) \<leftarrow> br_bits (len_extra ! i) r;
     Some (len_base ! i + unat x, r) }"

definition distance_of :: "huffman \<Rightarrow> br \<Rightarrow> (nat \<times> br) option" where
  "distance_of dist r = do {
     (dsym, r) \<leftarrow> huff_decode dist r;
     if 30 \<le> dsym then None
     else do {
       (x, r) \<leftarrow> br_bits (dist_extra ! dsym) r;
       Some (dist_base ! dsym + unat x, r) } }"

lemma eats_length_of: "eats 0 r (length_of sy r)"
  unfolding length_of_def Let_def by (intro eats_bind eats_0 [OF eats_bits] eats_Some)

lemma eats_distance_of: "eats 1 r (distance_of dist r)"
  unfolding distance_of_def
  by (intro eats_bind eats_huff eats_if eats_None eats_0 [OF eats_bits] eats_Some)

function inflate_block :: "huffman \<Rightarrow> huffman \<Rightarrow> nat \<Rightarrow> br \<Rightarrow> bytes \<Rightarrow> (bytes \<times> br) option" where
  "inflate_block lt dist limit r out = do {
     (sy, r) \<leftarrow> huff_decode lt r;
     if sy \<le> 255
     then (if limit \<le> length out then None else inflate_block lt dist limit r (out @ [of_nat sy]))
     else if sy = 256 then Some (out, r)
     else if sy \<le> 285
     then do {
       (len, r) \<leftarrow> length_of sy r;
       (d, r) \<leftarrow> distance_of dist r;
       if length out < d \<or> limit < length out + len then None
       else inflate_block lt dist limit r (copy_loop (length out - d) len out) }
     else None }"
  by pat_completeness auto
termination
  by (relation "measure (\<lambda>(lt, dist, limit, r, out). br_rem r)")
    (auto dest!: eatsD [OF eats_huff] eatsD [OF eats_length_of] eatsD [OF eats_distance_of])

declare inflate_block.simps [simp del]

fun stored_loop :: "nat \<Rightarrow> nat \<Rightarrow> br \<Rightarrow> bytes \<Rightarrow> (bytes \<times> br) option" where
  "stored_loop limit 0 r out = Some (out, r)"
| "stored_loop limit (Suc n) r out =
     (if limit \<le> length out then None
      else do { (b, r) \<leftarrow> br_bits 8 r; stored_loop limit n r (out @ [ucast b]) })"

definition inflate_stored :: "nat \<Rightarrow> br \<Rightarrow> bytes \<Rightarrow> (bytes \<times> br) option" where
  "inflate_stored limit r out = do {
     let r = align_byte r;
     (len, r) \<leftarrow> br_bits 16 r;
     (_, r) \<leftarrow> br_bits 16 r;
     stored_loop limit (unat len) r out }"

definition cl_order :: "nat list" where
  "cl_order = [16, 17, 18, 0, 8, 7, 9, 6, 10, 5, 11, 4, 12, 3, 13, 2, 14, 1, 15]"

fun read_cl :: "nat list \<Rightarrow> nat list \<Rightarrow> br \<Rightarrow> (nat list \<times> br) option" where
  "read_cl [] cl r = Some (cl, r)"
| "read_cl (o' # os) cl r = do { (v, r) \<leftarrow> br_bits 3 r; read_cl os (cl[o' := unat v]) r }"

fun repeat_prev :: "nat \<Rightarrow> nat \<Rightarrow> nat list \<Rightarrow> nat \<Rightarrow> (nat list \<times> nat) option" where
  "repeat_prev 0 prev lengths i = Some (lengths, i)"
| "repeat_prev (Suc n) prev lengths i =
     (if length lengths \<le> i then None else repeat_prev n prev (lengths[i := prev]) (i + 1))"

function lengths_loop :: "huffman \<Rightarrow> nat list \<Rightarrow> nat \<Rightarrow> br \<Rightarrow> (nat list \<times> br) option" where
  "lengths_loop tree lengths i r =
     (if length lengths \<le> i then Some (lengths, r)
      else do {
        (sy, r) \<leftarrow> huff_decode tree r;
        if sy \<le> 15 then lengths_loop tree (lengths[i := sy]) (i + 1) r
        else if sy = 16
        then (if i = 0 then None
              else do {
                (x, r) \<leftarrow> br_bits 2 r;
                (ls, j) \<leftarrow> repeat_prev (3 + unat x) (lengths ! (i - 1)) lengths i;
                lengths_loop tree ls j r })
        else if sy = 17
        then do { (x, r) \<leftarrow> br_bits 3 r; lengths_loop tree lengths (min (i + (3 + unat x)) (length lengths)) r }
        else if sy = 18
        then do { (x, r) \<leftarrow> br_bits 7 r; lengths_loop tree lengths (min (i + (11 + unat x)) (length lengths)) r }
        else None })"
  by pat_completeness auto
termination
  by (relation "measure (\<lambda>(tree, lengths, i, r). br_rem r)")
    (auto dest!: eatsD [OF eats_huff] eatsD [OF eats_bits])

declare lengths_loop.simps [simp del]

definition dynamic_trees :: "br \<Rightarrow> ((huffman \<times> huffman) \<times> br) option" where
  "dynamic_trees r = do {
     (x, r) \<leftarrow> br_bits 5 r;
     let hlit = unat x + 257;
     (x, r) \<leftarrow> br_bits 5 r;
     let hdist = unat x + 1;
     (x, r) \<leftarrow> br_bits 4 r;
     let hclen = unat x + 4;
     (cl, r) \<leftarrow> read_cl (take hclen cl_order) (replicate 19 0) r;
     (lengths, r) \<leftarrow> lengths_loop (huff_new cl) (replicate (hlit + hdist) 0) 0 r;
     Some ((huff_new (take hlit lengths), huff_new (drop hlit lengths)), r) }"

definition one_block :: "nat \<Rightarrow> u32 \<Rightarrow> br \<Rightarrow> bytes \<Rightarrow> (bytes \<times> br) option" where
  "one_block limit btype r out =
     (if btype = 0 then inflate_stored limit r out
      else if btype = 1 then inflate_block (fst fixed_trees) (snd fixed_trees) limit r out
      else if btype = 2 then do {
        (trees, r) \<leftarrow> dynamic_trees r;
        inflate_block (fst trees) (snd trees) limit r out }
      else None)"

lemma eats_inflate_block: "eats 1 r (inflate_block lt dist limit r out)"
proof (induction lt dist limit r out rule: inflate_block.induct)
  case (1 lt dist limit r out)
  show ?case
    unfolding inflate_block.simps [of lt dist limit r out]
    by (intro eats_bind eats_huff eats_if eats_None eats_Some eats_length_of eats_0 [OF eats_distance_of]
        eats_0 [OF 1(1)] eats_0 [OF 1(2)]) auto
qed

lemma eats_stored_loop: "eats 0 r (stored_loop limit n r out)"
  by (induction limit n r out rule: stored_loop.induct)
    (auto intro!: eats_bind eats_0 [OF eats_bits] eats_None eats_Some)

lemma eats_stored: "eats 0 r (inflate_stored limit r out)"
proof -
  have "eats 0 (align_byte r) (br_bits 16 (align_byte r) \<bind> (\<lambda>(len, r). br_bits 16 r \<bind> (\<lambda>(x, r). stored_loop limit (unat len) r out)))"
    by (intro eats_bind eats_0 [OF eats_bits] eats_stored_loop)
  then show ?thesis
    unfolding inflate_stored_def Let_def eats_def using align_rem [of r] by fastforce
qed

lemma eats_read_cl: "eats 0 r (read_cl os cl r)"
  by (induction os cl r rule: read_cl.induct) (auto intro!: eats_bind eats_0 [OF eats_bits] eats_Some)

lemma eats_lengths_loop: "eats 0 r (lengths_loop tree lengths i r)"
proof (induction "br_rem r" arbitrary: lengths i r rule: less_induct)
  case less
  show ?case
    unfolding lengths_loop.simps [of tree lengths i r]
    by (intro eats_if eats_Some eats_bind eats_bind_pure eats_case_prod eats_0 [OF eats_huff]
        eats_0 [OF eats_bits] eats_None less)
      (auto dest!: eatsD [OF eats_huff] eatsD [OF eats_bits])
qed

lemma eats_dynamic_trees: "eats 0 r (dynamic_trees r)"
  unfolding dynamic_trees_def Let_def
  by (intro eats_bind eats_0 [OF eats_bits] eats_read_cl eats_lengths_loop eats_Some)

lemma eats_one_block: "eats 0 r (one_block limit btype r out)"
  unfolding one_block_def
  by (intro eats_if eats_stored eats_0 [OF eats_inflate_block] eats_None eats_bind eats_dynamic_trees)

function inflate_loop :: "nat \<Rightarrow> br \<Rightarrow> bytes \<Rightarrow> bytes option" where
  "inflate_loop limit r out = do {
     (fin, r) \<leftarrow> br_bits 1 r;
     (btype, r) \<leftarrow> br_bits 2 r;
     (out, r) \<leftarrow> one_block limit btype r out;
     if fin = 1 then Some out else inflate_loop limit r out }"
  by pat_completeness auto
termination
  by (relation "measure (\<lambda>(limit, r, out). br_rem r)")
    (auto dest!: eatsD [OF eats_one_block] eatsD [OF eats_bits])

declare inflate_loop.simps [simp del]

definition inflate :: "bytes \<Rightarrow> nat \<Rightarrow> bytes option" where
  "inflate d limit = inflate_loop limit (br_new d) []"

definition zlib_decompress :: "bytes \<Rightarrow> nat \<Rightarrow> bytes option" where
  "zlib_decompress d limit =
     (if length d < 2 then None
      else let cmf = d ! 0; flg = d ! 1 in
        if cmf AND 0x0f \<noteq> 8 \<or> ((ucast cmf :: u16) * 256 + ucast flg) mod 31 \<noteq> 0 then None
        else if flg AND 0x20 \<noteq> 0 then None
        else inflate (drop 2 d) limit)"

definition decode_compressed_image :: "bytes \<Rightarrow> nat \<Rightarrow> bytes option" where
  "decode_compressed_image b64 limit = do {
     raw \<leftarrow> base64_decode b64;
     zlib_decompress raw limit }"

end
