(* ===== verification/Syscall_Table.thy ===== *)
theory Syscall_Table
  imports Rust_Str
begin

text \<open>
  System call numbers and names: the two tables of \<^verbatim>\<open>vock/src/syscall/tables.rs\<close> (the target architecture
  selects one at compile time, here the argument \<open>arch\<close>) and the reverse lookup of
  \<^verbatim>\<open>vock/src/syscall/mod.rs\<close>. Shown here: every name is an identifier, and the reverse lookup - a search of
  the numbers up to \<open>max_syscall_nr\<close> - finds the least number of exactly the names of the table.
\<close>

datatype arch = X86_64 | Aarch64

definition x86_64_calls_a :: "(int \<times> string) list" where
  "x86_64_calls_a = [
    (0, ''read''), (1, ''write''), (2, ''open''), (3, ''close''), (4, ''stat''), (5, ''fstat''),
    (6, ''lstat''), (7, ''poll''), (8, ''lseek''), (9, ''mmap''), (10, ''mprotect''), (11, ''munmap''),
    (12, ''brk''), (13, ''rt_sigaction''), (14, ''rt_sigprocmask''), (15, ''rt_sigreturn''),
    (16, ''ioctl''), (17, ''pread64''), (18, ''pwrite64''), (19, ''readv''), (20, ''writev''),
    (21, ''access''), (22, ''pipe''), (23, ''select''), (24, ''sched_yield''), (25, ''mremap''),
    (26, ''msync''), (27, ''mincore''), (28, ''madvise''), (29, ''shmget''), (30, ''shmat''),
    (31, ''shmctl''), (32, ''dup''), (33, ''dup2''), (34, ''pause''), (35, ''nanosleep''),
    (36, ''getitimer''), (37, ''alarm''), (38, ''setitimer''), (39, ''getpid''), (40, ''sendfile''),
    (41, ''socket''), (42, ''connect''), (43, ''accept''), (44, ''sendto''), (45, ''recvfrom''),
    (46, ''sendmsg''), (47, ''recvmsg''), (48, ''shutdown''), (49, ''bind''), (50, ''listen''),
    (51, ''getsockname''), (52, ''getpeername''), (53, ''socketpair''), (54, ''setsockopt''),
    (55, ''getsockopt''), (56, ''clone''), (57, ''fork''), (58, ''vfork''), (59, ''execve''),
    (60, ''exit''), (61, ''wait4''), (62, ''kill''), (63, ''uname''), (64, ''semget''), (65, ''semop''),
    (66, ''semctl''), (67, ''shmdt''), (68, ''msgget''), (69, ''msgsnd''), (70, ''msgrcv''),
    (71, ''msgctl''), (72, ''fcntl''), (73, ''flock''), (74, ''fsync''), (75, ''fdatasync''),
    (76, ''truncate''), (77, ''ftruncate''), (78, ''getdents''), (79, ''getcwd''), (80, ''chdir''),
    (81, ''fchdir''), (82, ''rename''), (83, ''mkdir''), (84, ''rmdir''), (85, ''creat''),
    (86, ''link''), (87, ''unlink''), (88, ''symlink''), (89, ''readlink''), (90, ''chmod''),
    (91, ''fchmod''), (92, ''chown''), (93, ''fchown''), (94, ''lchown''), (95, ''umask''),
    (96, ''gettimeofday''), (97, ''getrlimit''), (98, ''getrusage''), (99, ''sysinfo''),
    (100, ''times''), (101, ''ptrace''), (102, ''getuid''), (103, ''syslog''), (104, ''getgid''),
    (105, ''setuid''), (106, ''setgid''), (107, ''geteuid''), (108, ''getegid''), (109, ''setpgid''),
    (110, ''getppid''), (111, ''getpgrp''), (112, ''setsid''), (113, ''setreuid''), (114, ''setregid''),
    (115, ''getgroups''), (116, ''setgroups''), (117, ''setresuid''), (118, ''getresuid''),
    (119, ''setresgid''), (120, ''getresgid''), (121, ''getpgid''), (122, ''setfsuid''),
    (123, ''setfsgid''), (124, ''getsid''), (125, ''capget''), (126, ''capset''),
    (127, ''rt_sigpending''), (128, ''rt_sigtimedwait''), (129, ''rt_sigqueueinfo'')]"

definition x86_64_calls_b :: "(int \<times> string) list" where
  "x86_64_calls_b = [
    (130, ''rt_sigsuspend''), (131, ''sigaltstack''), (132, ''utime''), (133, ''mknod''),
    (134, ''uselib''), (135, ''personality''), (136, ''ustat''), (137, ''statfs''), (138, ''fstatfs''),
    (139, ''sysfs''), (140, ''getpriority''), (141, ''setpriority''), (142, ''sched_setparam''),
    (143, ''sched_getparam''), (144, ''sched_setscheduler''), (145, ''sched_getscheduler''),
    (146, ''sched_get_priority_max''), (147, ''sched_get_priority_min''),
    (148, ''sched_rr_get_interval''), (149, ''mlock''), (150, ''munlock''), (151, ''mlockall''),
    (152, ''munlockall''), (153, ''vhangup''), (154, ''modify_ldt''), (155, ''pivot_root''),
    (156, ''_sysctl''), (157, ''prctl''), (158, ''arch_prctl''), (159, ''adjtimex''),
    (160, ''setrlimit''), (161, ''chroot''), (162, ''sync''), (163, ''acct''), (164, ''settimeofday''),
    (165, ''mount''), (166, ''umount2''), (167, ''swapon''), (168, ''swapoff''), (169, ''reboot''),
    (170, ''sethostname''), (171, ''setdomainname''), (172, ''iopl''), (173, ''ioperm''),
    (174, ''create_module''), (175, ''init_module''), (176, ''delete_module''),
    (177, ''get_kernel_syms''), (178, ''query_module''), (179, ''quotactl''), (180, ''nfsservctl''),
    (181, ''getpmsg''), (182, ''putpmsg''), (183, ''afs_syscall''), (184, ''tuxcall''),
    (185, ''security''), (186, ''gettid''), (187, ''readahead''), (188, ''setxattr''),
    (189, ''lsetxattr''), (190, ''fsetxattr''), (191, ''getxattr''), (192, ''lgetxattr''),
    (193, ''fgetxattr''), (194, ''listxattr''), (195, ''llistxattr''), (196, ''flistxattr''),
    (197, ''removexattr''), (198, ''lremovexattr''), (199, ''fremovexattr''), (200, ''tkill''),
    (201, ''time''), (202, ''futex''), (203, ''sched_setaffinity''), (204, ''sched_getaffinity''),
    (205, ''set_thread_area''), (206, ''io_setup''), (207, ''io_destroy''), (208, ''io_getevents''),
    (209, ''io_submit''), (210, ''io_cancel''), (211, ''get_thread_area''), (212, ''lookup_dcookie''),
    (213, ''epoll_create''), (214, ''epoll_ctl_old''), (215, ''epoll_wait_old''),
    (216, ''remap_file_pages''), (217, ''getdents64''), (218, ''set_tid_address''),
    (219, ''restart_syscall''), (220, ''semtimedop''), (221, ''fadvise64''), (222, ''timer_create''),
    (223, ''timer_settime''), (224, ''timer_gettime''), (225, ''timer_getoverrun''),
    (226, ''timer_delete''), (227, ''clock_settime''), (228, ''clock_gettime''), (229, ''clock_getres''),
    (230, ''clock_nanosleep''), (231, ''exit_group''), (232, ''epoll_wait''), (233, ''epoll_ctl''),
    (234, ''tgkill''), (235, ''utimes''), (236, ''vserver''), (237, ''mbind''), (238, ''set_mempolicy''),
    (239, ''get_mempolicy''), (240, ''mq_open''), (241, ''mq_unlink''), (242, ''mq_timedsend''),
    (243, ''mq_timedreceive''), (244, ''mq_notify''), (245, ''mq_getsetattr''), (246, ''kexec_load''),
    (247, ''waitid''), (248, ''add_key''), (249, ''request_key''), (250, ''keyctl''),
    (251, ''ioprio_set''), (252, ''ioprio_get''), (253, ''inotify_init''), (254, ''inotify_add_watch''),
    (255, ''inotify_rm_watch''), (256, ''migrate_pages''), (257, ''openat''), (258, ''mkdirat''),
    (259, ''mknodat'')]"

definition x86_64_calls_c :: "(int \<times> string) list" where
  "x86_64_calls_c = [
    (260, ''fchownat''), (261, ''futimesat''), (262, ''newfstatat''), (263, ''unlinkat''),
    (264, ''renameat''), (265, ''linkat''), (266, ''symlinkat''), (267, ''readlinkat''),
    (268, ''fchmodat''), (269, ''faccessat''), (270, ''pselect6''), (271, ''ppoll''), (272, ''unshare''),
    (273, ''set_robust_list''), (274, ''get_robust_list''), (275, ''splice''), (276, ''tee''),
    (277, ''sync_file_range''), (278, ''vmsplice''), (279, ''move_pages''), (280, ''utimensat''),
    (281, ''epoll_pwait''), (282, ''signalfd''), (283, ''timerfd_create''), (284, ''eventfd''),
    (285, ''fallocate''), (286, ''timerfd_settime''), (287, ''timerfd_gettime''), (288, ''accept4''),
    (289, ''signalfd4''), (290, ''eventfd2''), (291, ''epoll_create1''), (292, ''dup3''),
    (293, ''pipe2''), (294, ''inotify_init1''), (295, ''preadv''), (296, ''pwritev''),
    (297, ''rt_tgsigqueueinfo''), (298, ''perf_event_open''), (299, ''recvmmsg''),
    (300, ''fanotify_init''), (301, ''fanotify_mark''), (302, ''prlimit64''),
    (303, ''name_to_handle_at''), (304, ''open_by_handle_at''), (305, ''clock_adjtime''),
    (306, ''syncfs''), (307, ''sendmmsg''), (308, ''setns''), (309, ''getcpu''),
    (310, ''process_vm_readv''), (311, ''process_vm_writev''), (312, ''kcmp''), (313, ''finit_module''),
    (314, ''sched_setattr''), (315, ''sched_getattr''), (316, ''renameat2''), (317, ''seccomp''),
    (318, ''getrandom''), (319, ''memfd_create''), (320, ''kexec_file_load''), (321, ''bpf''),
    (322, ''execveat''), (323, ''userfaultfd''), (324, ''membarrier''), (325, ''mlock2''),
    (326, ''copy_file_range''), (327, ''preadv2''), (328, ''pwritev2''), (329, ''pkey_mprotect''),
    (330, ''pkey_alloc''), (331, ''pkey_free''), (332, ''statx''), (333, ''io_pgetevents''),
    (334, ''rseq''), (335, ''uretprobe''), (424, ''pidfd_send_signal''), (425, ''io_uring_setup''),
    (426, ''io_uring_enter''), (427, ''io_uring_register''), (428, ''open_tree''), (429, ''move_mount''),
    (430, ''fsopen''), (431, ''fsconfig''), (432, ''fsmount''), (433, ''fspick''), (434, ''pidfd_open''),
    (435, ''clone3''), (436, ''close_range''), (437, ''openat2''), (438, ''pidfd_getfd''),
    (439, ''faccessat2''), (440, ''process_madvise''), (441, ''epoll_pwait2''), (442, ''mount_setattr''),
    (443, ''quotactl_fd''), (444, ''landlock_create_ruleset''), (445, ''landlock_add_rule''),
    (446, ''landlock_restrict_self''), (447, ''memfd_secret''), (448, ''process_mrelease''),
    (449, ''futex_waitv''), (450, ''set_mempolicy_home_node''), (451, ''cachestat''),
    (452, ''fchmodat2''), (453, ''map_shadow_stack''), (454, ''futex_wake''), (455, ''futex_wait''),
    (456, ''futex_requeue''), (457, ''statmount''), (458, ''listmount''), (459, ''lsm_get_self_attr''),
    (460, ''lsm_set_self_attr''), (461, ''lsm_list_modules''), (462, ''mseal''), (463, ''setxattrat''),
    (464, ''getxattrat''), (465, ''listxattrat''), (466, ''removexattrat''), (467, ''open_tree_attr''),
    (468, ''file_getattr''), (469, ''file_setattr''), (470, ''listns''), (471, ''rseq_slice_yield'')]"

definition aarch64_calls_a :: "(int \<times> string) list" where
  "aarch64_calls_a = [
    (0, ''io_setup''), (1, ''io_destroy''), (2, ''io_submit''), (3, ''io_cancel''),
    (4, ''io_getevents''), (5, ''setxattr''), (6, ''lsetxattr''), (7, ''fsetxattr''), (8, ''getxattr''),
    (9, ''lgetxattr''), (10, ''fgetxattr''), (11, ''listxattr''), (12, ''llistxattr''),
    (13, ''flistxattr''), (14, ''removexattr''), (15, ''lremovexattr''), (16, ''fremovexattr''),
    (17, ''getcwd''), (18, ''lookup_dcookie''), (19, ''eventfd2''), (20, ''epoll_create1''),
    (21, ''epoll_ctl''), (22, ''epoll_pwait''), (23, ''dup''), (24, ''dup3''), (25, ''fcntl''),
    (26, ''inotify_init1''), (27, ''inotify_add_watch''), (28, ''inotify_rm_watch''), (29, ''ioctl''),
    (30, ''ioprio_set''), (31, ''ioprio_get''), (32, ''flock''), (33, ''mknodat''), (34, ''mkdirat''),
    (35, ''unlinkat''), (36, ''symlinkat''), (37, ''linkat''), (38, ''renameat''), (39, ''umount2''),
    (40, ''mount''), (41, ''pivot_root''), (42, ''nfsservctl''), (43, ''statfs''), (44, ''fstatfs''),
    (45, ''truncate''), (46, ''ftruncate''), (47, ''fallocate''), (48, ''faccessat''), (49, ''chdir''),
    (50, ''fchdir''), (51, ''chroot''), (52, ''fchmod''), (53, ''fchmodat''), (54, ''fchownat''),
    (55, ''fchown''), (56, ''openat''), (57, ''close''), (58, ''vhangup''), (59, ''pipe2''),
    (60, ''quotactl''), (61, ''getdents64''), (62, ''lseek''), (63, ''read''), (64, ''write''),
    (65, ''readv''), (66, ''writev''), (67, ''pread64''), (68, ''pwrite64''), (69, ''preadv''),
    (70, ''pwritev''), (71, ''sendfile''), (72, ''pselect6''), (73, ''ppoll''), (74, ''signalfd4''),
    (75, ''vmsplice''), (76, ''splice''), (77, ''tee''), (78, ''readlinkat''), (79, ''newfstatat''),
    (80, ''fstat''), (81, ''sync''), (82, ''fsync''), (83, ''fdatasync''), (84, ''sync_file_range''),
    (85, ''timerfd_create''), (86, ''timerfd_settime''), (87, ''timerfd_gettime''), (88, ''utimensat''),
    (89, ''acct''), (90, ''capget''), (91, ''capset''), (92, ''personality''), (93, ''exit''),
    (94, ''exit_group''), (95, ''waitid''), (96, ''set_tid_address''), (97, ''unshare''),
    (98, ''futex''), (99, ''set_robust_list''), (100, ''get_robust_list''), (101, ''nanosleep''),
    (102, ''getitimer''), (103, ''setitimer''), (104, ''kexec_load''), (105, ''init_module''),
    (106, ''delete_module''), (107, ''timer_create''), (108, ''timer_gettime''),
    (109, ''timer_getoverrun''), (110, ''timer_settime''), (111, ''timer_delete''),
    (112, ''clock_settime''), (113, ''clock_gettime''), (114, ''clock_getres''),
    (115, ''clock_nanosleep''), (116, ''syslog''), (117, ''ptrace''), (118, ''sched_setparam''),
    (119, ''sched_setscheduler''), (120, ''sched_getscheduler''), (121, ''sched_getparam''),
    (122, ''sched_setaffinity''), (123, ''sched_getaffinity''), (124, ''sched_yield''),
    (125, ''sched_get_priority_max''), (126, ''sched_get_priority_min''),
    (127, ''sched_rr_get_interval''), (128, ''restart_syscall''), (129, ''kill'')]"

definition aarch64_calls_b :: "(int \<times> string) list" where
  "aarch64_calls_b = [
    (130, ''tkill''), (131, ''tgkill''), (132, ''sigaltstack''), (133, ''rt_sigsuspend''),
    (134, ''rt_sigaction''), (135, ''rt_sigprocmask''), (136, ''rt_sigpending''),
    (137, ''rt_sigtimedwait''), (138, ''rt_sigqueueinfo''), (139, ''rt_sigreturn''),
    (140, ''setpriority''), (141, ''getpriority''), (142, ''reboot''), (143, ''setregid''),
    (144, ''setgid''), (145, ''setreuid''), (146, ''setuid''), (147, ''setresuid''),
    (148, ''getresuid''), (149, ''setresgid''), (150, ''getresgid''), (151, ''setfsuid''),
    (152, ''setfsgid''), (153, ''times''), (154, ''setpgid''), (155, ''getpgid''), (156, ''getsid''),
    (157, ''setsid''), (158, ''getgroups''), (159, ''setgroups''), (160, ''uname''),
    (161, ''sethostname''), (162, ''setdomainname''), (163, ''getrlimit''), (164, ''setrlimit''),
    (165, ''getrusage''), (166, ''umask''), (167, ''prctl''), (168, ''getcpu''), (169, ''gettimeofday''),
    (170, ''settimeofday''), (171, ''adjtimex''), (172, ''getpid''), (173, ''getppid''),
    (174, ''getuid''), (175, ''geteuid''), (176, ''getgid''), (177, ''getegid''), (178, ''gettid''),
    (179, ''sysinfo''), (180, ''mq_open''), (181, ''mq_unlink''), (182, ''mq_timedsend''),
    (183, ''mq_timedreceive''), (184, ''mq_notify''), (185, ''mq_getsetattr''), (186, ''msgget''),
    (187, ''msgctl''), (188, ''msgrcv''), (189, ''msgsnd''), (190, ''semget''), (191, ''semctl''),
    (192, ''semtimedop''), (193, ''semop''), (194, ''shmget''), (195, ''shmctl''), (196, ''shmat''),
    (197, ''shmdt''), (198, ''socket''), (199, ''socketpair''), (200, ''bind''), (201, ''listen''),
    (202, ''accept''), (203, ''connect''), (204, ''getsockname''), (205, ''getpeername''),
    (206, ''sendto''), (207, ''recvfrom''), (208, ''setsockopt''), (209, ''getsockopt''),
    (210, ''shutdown''), (211, ''sendmsg''), (212, ''recvmsg''), (213, ''readahead''), (214, ''brk''),
    (215, ''munmap''), (216, ''mremap''), (217, ''add_key''), (218, ''request_key''), (219, ''keyctl''),
    (220, ''clone''), (221, ''execve''), (222, ''mmap''), (223, ''fadvise64''), (224, ''swapon''),
    (225, ''swapoff''), (226, ''mprotect''), (227, ''msync''), (228, ''mlock''), (229, ''munlock''),
    (230, ''mlockall''), (231, ''munlockall''), (232, ''mincore''), (233, ''madvise''),
    (234, ''remap_file_pages''), (235, ''mbind''), (236, ''get_mempolicy''), (237, ''set_mempolicy''),
    (238, ''migrate_pages''), (239, ''move_pages''), (240, ''rt_tgsigqueueinfo''),
    (241, ''perf_event_open''), (242, ''accept4''), (243, ''recvmmsg''), (260, ''wait4''),
    (261, ''prlimit64''), (262, ''fanotify_init''), (263, ''fanotify_mark''),
    (264, ''name_to_handle_at''), (265, ''open_by_handle_at''), (266, ''clock_adjtime''),
    (267, ''syncfs''), (268, ''setns''), (269, ''sendmmsg''), (270, ''process_vm_readv''),
    (271, ''process_vm_writev''), (272, ''kcmp''), (273, ''finit_module''), (274, ''sched_setattr''),
    (275, ''sched_getattr'')]"

definition aarch64_calls_c :: "(int \<times> string) list" where
  "aarch64_calls_c = [
    (276, ''renameat2''), (277, ''seccomp''), (278, ''getrandom''), (279, ''memfd_create''),
    (280, ''bpf''), (281, ''execveat''), (282, ''userfaultfd''), (283, ''membarrier''),
    (284, ''mlock2''), (285, ''copy_file_range''), (286, ''preadv2''), (287, ''pwritev2''),
    (288, ''pkey_mprotect''), (289, ''pkey_alloc''), (290, ''pkey_free''), (291, ''statx''),
    (292, ''io_pgetevents''), (293, ''rseq''), (294, ''kexec_file_load''), (424, ''pidfd_send_signal''),
    (425, ''io_uring_setup''), (426, ''io_uring_enter''), (427, ''io_uring_register''),
    (428, ''open_tree''), (429, ''move_mount''), (430, ''fsopen''), (431, ''fsconfig''),
    (432, ''fsmount''), (433, ''fspick''), (434, ''pidfd_open''), (435, ''clone3''),
    (436, ''close_range''), (437, ''openat2''), (438, ''pidfd_getfd''), (439, ''faccessat2''),
    (440, ''process_madvise''), (441, ''epoll_pwait2''), (442, ''mount_setattr''),
    (443, ''quotactl_fd''), (444, ''landlock_create_ruleset''), (445, ''landlock_add_rule''),
    (446, ''landlock_restrict_self''), (447, ''memfd_secret''), (448, ''process_mrelease''),
    (449, ''futex_waitv''), (450, ''set_mempolicy_home_node''), (451, ''cachestat''),
    (452, ''fchmodat2''), (453, ''map_shadow_stack''), (454, ''futex_wake''), (455, ''futex_wait''),
    (456, ''futex_requeue''), (457, ''statmount''), (458, ''listmount''), (459, ''lsm_get_self_attr''),
    (460, ''lsm_set_self_attr''), (461, ''lsm_list_modules''), (462, ''mseal''), (463, ''setxattrat''),
    (464, ''getxattrat''), (465, ''listxattrat''), (466, ''removexattrat''), (467, ''open_tree_attr''),
    (468, ''file_getattr''), (469, ''file_setattr''), (470, ''listns''), (471, ''rseq_slice_yield'')]"

definition x86_64_table :: "(int \<times> string) list" where
  "x86_64_table = x86_64_calls_a @ x86_64_calls_b @ x86_64_calls_c"

definition aarch64_table :: "(int \<times> string) list" where
  "aarch64_table = aarch64_calls_a @ aarch64_calls_b @ aarch64_calls_c"

definition call_table :: "arch \<Rightarrow> (int \<times> string) list" where
  "call_table a = (case a of X86_64 \<Rightarrow> x86_64_table | Aarch64 \<Rightarrow> aarch64_table)"

definition syscall_name :: "arch \<Rightarrow> int \<Rightarrow> string option" where
  "syscall_name a nr = map_of (call_table a) nr"

definition max_syscall_nr :: nat where
  "max_syscall_nr = 471"

definition syscall_nr :: "arch \<Rightarrow> string \<Rightarrow> int option" where
  "syscall_nr a name = List.find (\<lambda>n. syscall_name a n = Some name) (map int [0..<max_syscall_nr + 1])"

text \<open>One observed call: the number, the six arguments and the result are \<^verbatim>\<open>i64\<close>, kept as 64-bit words.\<close>

record syscall =
  sc_nr :: u64
  sc_args :: "u64 list"
  sc_ret :: u64

definition syscall_default :: syscall where
  "syscall_default = \<lparr>sc_nr = 0, sc_args = replicate 6 0, sc_ret = 0\<rparr>"

section \<open>Facts about the tables\<close>

text \<open>The code of a character in the range of the letters, digits and the underscore, away from punctuation.\<close>

definition ident_char :: "char \<Rightarrow> bool" where
  "ident_char c \<longleftrightarrow> 48 \<le> (of_char c :: nat) \<and> (of_char c :: nat) \<le> 122"

definition entry_ok :: "int \<times> string \<Rightarrow> bool" where
  "entry_ok e \<longleftrightarrow> 0 \<le> fst e \<and> fst e \<le> int max_syscall_nr \<and> snd e \<noteq> [] \<and> list_all ident_char (snd e)"

lemma x86_64_ok: "list_all entry_ok x86_64_calls_a" "list_all entry_ok x86_64_calls_b" "list_all entry_ok x86_64_calls_c"
  by (simp_all add: x86_64_calls_a_def x86_64_calls_b_def x86_64_calls_c_def entry_ok_def ident_char_def max_syscall_nr_def)

lemma aarch64_ok: "list_all entry_ok aarch64_calls_a" "list_all entry_ok aarch64_calls_b" "list_all entry_ok aarch64_calls_c"
  by (simp_all add: aarch64_calls_a_def aarch64_calls_b_def aarch64_calls_c_def entry_ok_def ident_char_def max_syscall_nr_def)

lemma call_table_ok: "list_all entry_ok (call_table a)"
  by (cases a) (simp_all add: call_table_def x86_64_table_def aarch64_table_def x86_64_ok aarch64_ok)

lemma syscall_name_ok: "syscall_name a nr = Some s \<Longrightarrow> entry_ok (nr, s)"
  using call_table_ok [of a] by (auto simp: syscall_name_def list_all_iff dest: map_of_SomeD)

section \<open>Properties\<close>

text \<open>C19. The reverse lookup inverts the name table of either architecture: it finds a number exactly for the names
  of the table, the table gives that number the same name back, and no smaller number has it.\<close>

theorem syscall_nr_inverts:
  "(syscall_nr a name = Some nr \<longleftrightarrow> syscall_name a nr = Some name \<and> {m. syscall_name a m = Some name} \<subseteq> {nr..}) \<and>
   (syscall_nr a name = None \<longleftrightarrow> (\<forall>m. syscall_name a m \<noteq> Some name))"
proof -
  let ?P = "\<lambda>n. syscall_name a n = Some name"
  let ?xs = "map int [0..<max_syscall_nr + 1]"
  have range: "m \<in> set ?xs" if "?P m" for m
    using syscall_name_ok [OF that] by (auto simp: entry_ok_def intro!: image_eqI [of _ _ "nat m"])
  have none: "syscall_nr a name = None \<longleftrightarrow> (\<forall>m. \<not> ?P m)"
    using range by (auto simp: syscall_nr_def find_None_iff)
  have least: "?P n \<and> (\<forall>m. ?P m \<longrightarrow> n \<le> m)" if "syscall_nr a name = Some n" for n
  proof -
    from that obtain i where i: "i < length ?xs" "?P (?xs ! i)" "n = ?xs ! i" "\<forall>j<i. \<not> ?P (?xs ! j)"
      by (auto simp: syscall_nr_def find_Some_iff)
    have "n \<le> m" if m: "?P m" for m
    proof -
      from range [OF m] obtain j where j: "j < length ?xs" "m = ?xs ! j" by (metis in_set_conv_nth)
      with i(4) m have "i \<le> j" by (metis not_le)
      with i(1,3) j show ?thesis by (simp del: upt_Suc)
    qed
    with i(2,3) show ?thesis by blast
  qed
  have "syscall_nr a name = Some nr \<longleftrightarrow> ?P nr \<and> (\<forall>m. ?P m \<longrightarrow> nr \<le> m)"
  proof
    assume r: "?P nr \<and> (\<forall>m. ?P m \<longrightarrow> nr \<le> m)"
    with none obtain n where n: "syscall_nr a name = Some n" by (cases "syscall_nr a name") auto
    from least [OF n] r have "n = nr" by (meson order.antisym)
    with n show "syscall_nr a name = Some nr" by simp
  qed (use least in blast)
  with none show ?thesis by (auto simp: subset_iff)
qed

end
