(* ===== verification/Prog_Parse.thy ===== *)
theory Prog_Parse
  imports Inflate Syscall_Table
begin

text \<open>
  The syntax tree and the parser of \<^verbatim>\<open>vock/src/fuzz/prog_decode.rs\<close> for syzkaller's textual programs. The
  parser state \<^verbatim>\<open>P\<close> is the suffix of the text still to be read; its nesting depth is the number of levels
  left, the first argument of \<open>parse_arg\<close>. The loop of \<^verbatim>\<open>P::list\<close> carries fuel, one round per byte left and
  one more; running out of it is an outer \<open>None\<close>, apart from the \<^verbatim>\<open>None\<close> of \<^verbatim>\<open>parse_call\<close> for a line that is no
  call. Shown here: the parser never runs out of fuel and never reads past the text.
\<close>

section \<open>Syntax tree\<close>

datatype arg =
    Int_arg u64
  | Res nat u64 u64
  | Ptr u64 "arg option"
  | Data bytes
  | Struct "arg list"
  | Array "arg list"
  | Union_arg arg
  | Csum
  | Out nat arg
  | Nil_arg

record call =
  c_name :: str
  c_base :: str
  c_nr :: "int option"
  c_args :: "arg list"
  c_res :: "nat option"
  c_fail_nth :: "u32 option"
  c_async :: bool

type_synonym prog = "call list"

definition is_pseudo :: "call \<Rightarrow> bool" where
  "is_pseudo c \<longleftrightarrow> starts_with (lit ''syz_'') (c_base c)"

definition encoding_addr_base :: u64 where
  "encoding_addr_base = 0x7f0000000000"

definition auto_addr :: u64 where
  "auto_addr = 0xffffffffffffffff"

definition max_depth :: nat where
  "max_depth = 64"

definition max_image :: nat where
  "max_image = 134217728"

section \<open>Tokens\<close>

definition is_sep :: "u8 \<Rightarrow> bool" where
  "is_sep c \<longleftrightarrow> c \<in> {0x2c, 0x29, 0x7d, 0x5d, 0x3d, 0x20, 0x09, 0}"

definition parse_int :: "str \<Rightarrow> u64 option" where
  "parse_int s =
     (let s = str_trim s
      in if s = [] then None
         else case (case strip_prefix (lit ''0x'') s of Some h \<Rightarrow> Some h | None \<Rightarrow> strip_prefix (lit ''0X'') s) of
           Some h \<Rightarrow> parse_u64_radix 16 h
         | None \<Rightarrow>
             (case strip_prefix (lit ''-'') s of
                Some neg \<Rightarrow> map_option (\<lambda>v. word_of_int (- v)) (parse_i64 neg)
              | None \<Rightarrow>
                  if 1 < length s \<and> starts_with (lit ''0'') s \<and> list_all (\<lambda>c. 0x30 \<le> c \<and> c \<le> 0x37) s
                  then parse_u64_radix 8 (tl s)
                  else parse_u64_radix 10 s))"

definition ascii_digit :: "u8 \<Rightarrow> bool" where
  "ascii_digit c \<longleftrightarrow> 0x30 \<le> c \<and> c \<le> 0x39"

definition ascii_alnum :: "u8 \<Rightarrow> bool" where
  "ascii_alnum c \<longleftrightarrow> ascii_digit c \<or> (0x41 \<le> c \<and> c \<le> 0x5a) \<or> (0x61 \<le> c \<and> c \<le> 0x7a)"

definition ascii_hexdigit :: "u8 \<Rightarrow> bool" where
  "ascii_hexdigit c \<longleftrightarrow> ascii_digit c \<or> (0x41 \<le> c \<and> c \<le> 0x46) \<or> (0x61 \<le> c \<and> c \<le> 0x66)"

definition split_digits :: "str \<Rightarrow> str \<times> str" where
  "split_digits s = (takeWhile ascii_digit s, dropWhile ascii_digit s)"

definition split_int_token :: "str \<Rightarrow> str \<times> str" where
  "split_int_token s = (takeWhile ascii_alnum s, dropWhile ascii_alnum s)"

definition int_suffix :: "string \<Rightarrow> str \<Rightarrow> u64 \<times> str" where
  "int_suffix mark tail =
     (case strip_prefix (lit mark) tail of
        None \<Rightarrow> (0, tail)
      | Some t \<Rightarrow> let (d, r) = split_int_token t in (case parse_int d of Some v \<Rightarrow> v | None \<Rightarrow> 0, r))"

definition parse_res_ref :: "str \<Rightarrow> arg option" where
  "parse_res_ref w = do {
     rest \<leftarrow> strip_prefix (lit ''r'') w;
     let (num, tail) = split_digits rest;
     if num = [] then None
     else do {
       idx \<leftarrow> parse_usize num;
       let (dv, tail) = int_suffix ''/'' tail;
       let (add, tail) = int_suffix ''+'' tail;
       if tail \<noteq> [] then None else Some (Res idx dv add) } }"

fun unescape :: "bytes \<Rightarrow> bytes" where
  "unescape [] = []"
| "unescape [b] = [b]"
| "unescape (b # c # cs) =
     (if b = 0x5c
      then (if c = 0x6e then 0x0a # unescape cs
            else if c = 0x74 then 0x09 # unescape cs
            else if c = 0x72 then 0x0d # unescape cs
            else if c = 0x61 then 0x07 # unescape cs
            else if c = 0x62 then 0x08 # unescape cs
            else if c = 0x66 then 0x0c # unescape cs
            else if c = 0x76 then 0x0b # unescape cs
            else if c = 0x78
            then (case cs of
                    x # y # ds \<Rightarrow>
                      (case (to_digit 16 x, to_digit 16 y) of
                         (Some h, Some l) \<Rightarrow> of_nat (h * 16 + l) # unescape ds
                       | _ \<Rightarrow> 0x78 # unescape cs)
                  | _ \<Rightarrow> c # unescape cs)
            else c # unescape cs)
      else b # unescape (c # cs))"

fun hex_pairs :: "bytes \<Rightarrow> bytes" where
  "hex_pairs (x # y # s) =
     (case parse_unsigned 16 256 [x, y] of Some v \<Rightarrow> of_nat v # hex_pairs s | None \<Rightarrow> hex_pairs s)"
| "hex_pairs s = []"

definition decode_hex_bytes :: "str \<Rightarrow> bytes" where
  "decode_hex_bytes s =
     (case strip_prefix (lit ''$'') s of
        Some b64 \<Rightarrow> (case decode_compressed_image b64 max_image of Some d \<Rightarrow> d | None \<Rightarrow> [])
      | None \<Rightarrow>
          if s \<noteq> [] \<and> even (length s) \<and> list_all ascii_hexdigit s then hex_pairs s else unescape s)"

section \<open>The parser\<close>

definition peek :: "bytes \<Rightarrow> u8" where
  "peek r = (case r of [] \<Rightarrow> 0 | b # _ \<Rightarrow> b)"

definition eat_ws :: "bytes \<Rightarrow> bytes" where
  "eat_ws r = dropWhile latin1_ws r"

definition eat :: "u8 \<Rightarrow> bytes \<Rightarrow> bool \<times> bytes" where
  "eat c r = (let r = eat_ws r in if peek r = c then (True, drop 1 r) else (False, r))"

fun until_loop :: "u8 \<Rightarrow> bytes \<Rightarrow> bytes \<times> bytes" where
  "until_loop close [] = ([], [])"
| "until_loop close (b # bs) =
     (if b = close then ([], b # bs)
      else case bs of
        [] \<Rightarrow> ([b], [])
      | x # xs \<Rightarrow>
          if b = 0x5c then (let (p, r) = until_loop close xs in (b # x # p, r))
          else (let (p, r) = until_loop close (x # xs) in (b # p, r)))"

definition until :: "u8 \<Rightarrow> bytes \<Rightarrow> str \<times> bytes" where
  "until close r = (let (p, r) = until_loop close r in (utf8_lossy p, drop 1 r))"

definition skip_token :: "bytes \<Rightarrow> bytes" where
  "skip_token r = dropWhile (\<lambda>b. \<not> is_sep b) r"

definition opt_size_suffix :: "bytes \<Rightarrow> bytes" where
  "opt_size_suffix r = (if peek r = 0x2f then skip_token (drop 1 r) else r)"

definition word :: "bytes \<Rightarrow> arg \<times> bytes" where
  "word r =
     (let r = eat_ws r;
          w = str_trim (utf8_lossy (takeWhile (\<lambda>b. \<not> is_sep b) r));
          r = skip_token r
      in if w = [] then (Nil_arg, drop 1 r)
         else if w = lit ''nil'' \<or> w = lit ''AUTO'' then (Nil_arg, r)
         else if starts_with (lit ''csum'') w then (Csum, r)
         else case parse_res_ref w of
           Some a \<Rightarrow> (a, r)
         | None \<Rightarrow> (case parse_int w of Some v \<Rightarrow> Int_arg v | None \<Rightarrow> Nil_arg, r))"

type_synonym parser = "bytes \<Rightarrow> (arg \<times> bytes) option"

fun list_loop :: "nat \<Rightarrow> parser \<Rightarrow> u8 \<Rightarrow> bytes \<Rightarrow> arg list \<Rightarrow> (arg list \<times> bytes) option" where
  "list_loop 0 parse close r out = None"
| "list_loop (Suc fuel) parse close r out =
     (let r = eat_ws r
      in if r = [] then Some (out, r)
         else if peek r = close then Some (out, drop 1 r)
         else do {
           (a, r1) \<leftarrow> parse r;
           let out = out @ [a];
           let r1 = eat_ws r1;
           if peek r1 = 0x2c then list_loop fuel parse close (drop 1 r1) out
           else if peek r1 = close then Some (out, drop 1 r1)
           else if length r1 = length r then list_loop fuel parse close (drop 1 r1) out
           else list_loop fuel parse close r1 out })"

definition parse_list :: "parser \<Rightarrow> u8 \<Rightarrow> bytes \<Rightarrow> (arg list \<times> bytes) option" where
  "parse_list parse close r = list_loop (length r + 1) parse close r []"

definition ptr_addr :: "bytes \<Rightarrow> u64 \<times> bytes" where
  "ptr_addr r =
     (if starts_with (lit ''AUTO'') r then (auto_addr, drop 4 r)
      else let (e, r) = eat 0x28 r
           in if e
              then (let (body, r) = until 0x29 r;
                        hd_txt = str_trim (hd (split_on 0x2f body))
                    in ((case parse_int hd_txt of Some v \<Rightarrow> v | None \<Rightarrow> encoding_addr_base) - encoding_addr_base, r))
              else (0, r))"

definition ptr :: "parser \<Rightarrow> bytes \<Rightarrow> (arg \<times> bytes) option" where
  "ptr parse r =
     (let (addr, r) = ptr_addr (drop 1 r); (e, r) = eat 0x3d r
      in if e
         then (let r = eat_ws r; r = (if starts_with (lit ''ANY='') r then drop 4 r else r)
               in if starts_with (lit ''nil'') r then Some (Ptr addr None, drop 3 r)
                  else do { (inner, r) \<leftarrow> parse r; Some (Ptr addr (Some inner), r) })
         else Some (Ptr addr None, r))"

definition label :: "bytes \<Rightarrow> (nat option \<times> bytes) option" where
  "label r =
     (if peek r = 0x3c
      then let (lbl, r) = until 0x3e (drop 1 r)
           in (case strip_suffix (lit ''='') lbl of
                 Some name \<Rightarrow> Some (strip_prefix (lit ''r'') (str_trim name) \<bind> parse_usize, r)
               | None \<Rightarrow> None)
      else None)"

definition arg_plain :: "parser \<Rightarrow> bytes \<Rightarrow> (arg \<times> bytes) option" where
  "arg_plain parse r =
     (if peek r = 0x26 then ptr parse r
      else if peek r = 0x7b then do { (fs, r) \<leftarrow> parse_list parse 0x7d (drop 1 r); Some (Struct fs, r) }
      else if peek r = 0x5b then do { (fs, r) \<leftarrow> parse_list parse 0x5d (drop 1 r); Some (Array fs, r) }
      else if peek r = 0x40
      then (let r = dropWhile (\<lambda>b. b \<noteq> 0x3d \<and> \<not> is_sep b) (drop 1 r); (e, r) = eat 0x3d r
            in if e then do { (a, r) \<leftarrow> parse r; Some (Union_arg a, r) } else Some (Nil_arg, r))
      else if peek r = 0x22
      then (let (raw, r) = until 0x22 (drop 1 r) in Some (Data (decode_hex_bytes raw), opt_size_suffix r))
      else if peek r = 0x27
      then (let (raw, r) = until 0x27 (drop 1 r) in Some (Data (unescape raw), opt_size_suffix r))
      else Some (word r))"

definition arg_inner :: "parser \<Rightarrow> bytes \<Rightarrow> (arg \<times> bytes) option" where
  "arg_inner parse r =
     (case label r of
        Some (slot, r) \<Rightarrow> do {
          (inner, r) \<leftarrow> parse r;
          Some (case slot of Some n \<Rightarrow> Out n inner | None \<Rightarrow> inner, r) }
      | None \<Rightarrow> arg_plain parse r)"

primrec parse_arg :: "nat \<Rightarrow> parser" where
  "parse_arg 0 r = Some (Nil_arg, skip_token (eat_ws r))"
| "parse_arg (Suc levels) r = arg_inner (parse_arg levels) (eat_ws r)"

section \<open>Calls and programs\<close>

fun matching_loop :: "nat \<Rightarrow> int \<Rightarrow> u8 \<Rightarrow> bytes \<Rightarrow> nat option" where
  "matching_loop i depth quote [] = None"
| "matching_loop i depth quote (c # cs) =
     (if quote \<noteq> 0
      then (if c = 0x5c then (case cs of [] \<Rightarrow> None | _ # ds \<Rightarrow> matching_loop (i + 2) depth quote ds)
            else matching_loop (i + 1) depth (if c = quote then 0 else quote) cs)
      else if c = 0x22 \<or> c = 0x27 then matching_loop (i + 1) depth c cs
      else if c = 0x28 then matching_loop (i + 1) (depth + 1) quote cs
      else if c = 0x29 then (if depth - 1 = 0 then Some i else matching_loop (i + 1) (depth - 1) quote cs)
      else matching_loop (i + 1) depth quote cs)"

definition matching_paren :: "str \<Rightarrow> nat \<Rightarrow> nat option" where
  "matching_paren s open_at = matching_loop open_at 0 0 (drop open_at s)"

fun comment_loop :: "nat \<Rightarrow> u8 \<Rightarrow> bytes \<Rightarrow> nat option" where
  "comment_loop i quote [] = None"
| "comment_loop i quote (c # cs) =
     (if quote \<noteq> 0
      then (if c = 0x5c then (case cs of [] \<Rightarrow> None | _ # ds \<Rightarrow> comment_loop (i + 2) quote ds)
            else comment_loop (i + 1) (if c = quote then 0 else quote) cs)
      else if c = 0x22 \<or> c = 0x27 then comment_loop (i + 1) c cs
      else if c = 0x23 then Some i
      else comment_loop (i + 1) quote cs)"

definition comment_pos :: "str \<Rightarrow> nat option" where
  "comment_pos s = comment_loop 0 0 s"

definition parse_prop :: "str \<Rightarrow> call \<Rightarrow> call" where
  "parse_prop part c =
     (let p = str_trim part
      in if p = lit ''async'' then c\<lparr>c_async := True\<rparr>
         else case strip_prefix (lit ''fail_nth:'') p of
           Some v \<Rightarrow> c\<lparr>c_fail_nth := map_option ucast (parse_int (str_trim v))\<rparr>
         | None \<Rightarrow> c)"

definition parse_props :: "str \<Rightarrow> call \<Rightarrow> call" where
  "parse_props s c = fold parse_prop (split_on 0x2c s) c"

definition byte_string :: "str \<Rightarrow> string" where
  "byte_string s = map (\<lambda>b. char_of (unat b)) s"

definition strip_comment :: "str \<Rightarrow> str" where
  "strip_comment line = (case comment_pos line of Some pos \<Rightarrow> str_trim (take pos line) | None \<Rightarrow> line)"

definition split_res :: "str \<Rightarrow> nat \<Rightarrow> nat option \<times> str" where
  "split_res line paren =
     (case position (\<lambda>b. b = 0x3d) (take paren line) of
        Some eq \<Rightarrow> (strip_prefix (lit ''r'') (str_trim (take eq line)) \<bind> parse_usize, str_trim (drop (eq + 1) line))
      | None \<Rightarrow> (None, line))"

definition tail_props :: "str \<Rightarrow> call \<Rightarrow> call" where
  "tail_props tail c =
     (case (position (\<lambda>b. b = 0x28) tail, rposition (\<lambda>b. b = 0x29) tail) of
        (Some open_at, Some end_at) \<Rightarrow>
          if open_at < end_at then parse_props (take (end_at - (open_at + 1)) (drop (open_at + 1) tail)) c else c
      | _ \<Rightarrow> c)"

definition parse_call_body :: "arch \<Rightarrow> nat option \<Rightarrow> str \<Rightarrow> nat \<Rightarrow> str \<Rightarrow> nat \<Rightarrow> call option" where
  "parse_call_body a res rest paren name close = do {
     (args, _) \<leftarrow> parse_list (parse_arg max_depth) 0 (take (close - (paren + 1)) (drop (paren + 1) rest));
     let base = hd (split_on 0x24 name);
     let c = \<lparr>c_name = name, c_base = base, c_nr = syscall_nr a (byte_string base), c_args = args, c_res = res,
              c_fail_nth = None, c_async = False\<rparr>;
     Some (tail_props (str_trim (drop (close + 1) rest)) c) }"

text \<open>The outer option is the fuel, the inner one the result of the function.\<close>

definition parse_call :: "arch \<Rightarrow> str \<Rightarrow> call option option" where
  "parse_call a line =
     (let line = str_trim line
      in if line = [] \<or> starts_with (lit ''#'') line then Some None
         else let line = strip_comment line
         in case position (\<lambda>b. b = 0x28) line of
              None \<Rightarrow> Some None
            | Some paren \<Rightarrow>
                let (res, rest) = split_res line paren
                in case position (\<lambda>b. b = 0x28) rest of
                     None \<Rightarrow> Some None
                   | Some paren \<Rightarrow>
                       let name = str_trim (take paren rest)
                       in if name = [] then Some None
                          else case matching_paren rest paren of
                            None \<Rightarrow> Some None
                          | Some close \<Rightarrow> map_option Some (parse_call_body a res rest paren name close))"

fun parse_lines :: "arch \<Rightarrow> str list \<Rightarrow> prog option" where
  "parse_lines a [] = Some []"
| "parse_lines a (line # ls) =
     (let l = str_trim line
      in if l = [] \<or> starts_with (lit ''#'') l then parse_lines a ls
         else do {
           c \<leftarrow> parse_call a l;
           cs \<leftarrow> parse_lines a ls;
           Some (case c of Some c \<Rightarrow> c # cs | None \<Rightarrow> cs) })"

definition parse_prog :: "arch \<Rightarrow> str \<Rightarrow> prog option" where
  "parse_prog a text = parse_lines a (str_lines text)"

definition needs_arena :: "str \<Rightarrow> bool" where
  "needs_arena text \<longleftrightarrow> contains_sub (lit ''&(0x'') text \<or> contains_sub (lit ''&AUTO'') text"

section \<open>Progress\<close>

text \<open>\<open>shrinks p\<close>: the parser \<open>p\<close> always returns and never leaves more text than it was given.\<close>

definition shrinks :: "parser \<Rightarrow> bool" where
  "shrinks p \<longleftrightarrow> (\<forall>r. \<exists>a r'. p r = Some (a, r') \<and> length r' \<le> length r)"

lemma shrinksE: "shrinks p \<Longrightarrow> (\<And>a r'. p r = Some (a, r') \<Longrightarrow> length r' \<le> length r \<Longrightarrow> thesis) \<Longrightarrow> thesis"
  unfolding shrinks_def by blast

lemma length_eat_ws: "length (eat_ws r) \<le> length r"
  by (simp add: eat_ws_def length_dropWhile_le)

lemma length_eat: "eat c r = (e, r') \<Longrightarrow> length r' \<le> length r"
  using length_eat_ws [of r] by (auto simp: eat_def Let_def split: if_splits)

lemma length_until: "until c r = (s, r') \<Longrightarrow> length r' \<le> length r"
proof -
  have "length (snd (until_loop c r)) \<le> length r"
  proof (induction c r rule: until_loop.induct)
    case (2 c b bs)
    show ?case
    proof (cases bs)
      case (Cons x xs)
      have "length (snd (until_loop c xs)) \<le> length xs" if "b \<noteq> c" "b = 0x5c" using 2(1) [OF that(1) Cons that(2)] .
      moreover have "length (snd (until_loop c (x # xs))) \<le> Suc (length xs)" if "b \<noteq> c" "b \<noteq> 0x5c"
        using 2(2) [OF that(1) Cons that(2)] by simp
      ultimately show ?thesis by (simp add: Cons split_beta le_SucI)
    qed simp
  qed simp
  then show "until c r = (s, r') \<Longrightarrow> ?thesis" by (auto simp: until_def Let_def split: prod.splits)
qed

lemma length_skip_token: "length (skip_token r) \<le> length r"
  by (simp add: skip_token_def length_dropWhile_le)

lemma length_opt_size_suffix: "length (opt_size_suffix r) \<le> length r"
  using length_skip_token [of "drop 1 r"] by (auto simp: opt_size_suffix_def)

lemma length_word: "length (snd (word r)) \<le> length r"
  using length_skip_token [of "eat_ws r"] length_eat_ws [of r]
  by (auto simp: word_def Let_def split: option.splits)

lemma length_ptr_addr: "ptr_addr r = (v, r') \<Longrightarrow> length r' \<le> length r"
  using length_eat [of "0x28" r]
  by (fastforce simp: ptr_addr_def Let_def split: if_splits prod.splits dest!: length_until)

lemma list_loop_total:
  assumes p: "shrinks p"
  shows "length r < fuel \<Longrightarrow> \<exists>out' r'. list_loop fuel p close r out = Some (out', r') \<and> length r' \<le> length r"
proof (induction fuel arbitrary: r out)
  case (Suc fuel)
  define q where "q = eat_ws r"
  have q: "length q \<le> length r" by (simp add: q_def length_eat_ws)
  show ?case
  proof (cases "q = [] \<or> peek q = close")
    case True
    with q show ?thesis by (auto simp: q_def [symmetric] Let_def)
  next
    case False
    from p obtain a q1 where a: "p q = Some (a, q1)" "length q1 \<le> length q" by (rule shrinksE)
    define r1 where "r1 = eat_ws q1"
    have r1: "length r1 \<le> length q" using a(2) length_eat_ws [of q1] by (simp add: r1_def)
    have step: "list_loop (Suc fuel) p close r out =
      (if peek r1 = 0x2c then list_loop fuel p close (drop 1 r1) (out @ [a])
       else if peek r1 = close then Some (out @ [a], drop 1 r1)
       else if length r1 = length q then list_loop fuel p close (drop 1 r1) (out @ [a])
       else list_loop fuel p close r1 (out @ [a]))"
      using False a(1) by (simp add: q_def [symmetric] r1_def [symmetric])
    have comma: "length (drop 1 r1) < length q" if "peek r1 = 0x2c \<or> length r1 = length q"
      using that r1 False by (cases r1) (auto simp: peek_def)
    have IH: "\<exists>out' r'. list_loop fuel p close s out2 = Some (out', r') \<and> length r' \<le> length r" if "length s < length q" for s out2
    proof -
      have "length s < fuel" using that q Suc.prems by linarith
      from Suc.IH [OF this, of out2] that q show ?thesis by (meson le_trans less_imp_le)
    qed
    have "length (drop 1 r1) \<le> length r" using r1 q by (simp add: le_trans [OF diff_le_self])
    with IH [OF comma] IH [of r1] r1 show ?thesis unfolding step by (auto simp del: list_loop.simps drop_Suc)
  qed
qed simp

lemma parse_list_total:
  "shrinks p \<Longrightarrow> \<exists>out r'. parse_list p close r = Some (out, r') \<and> length r' \<le> length r"
  unfolding parse_list_def by (intro list_loop_total) simp_all

definition yields :: "bytes \<Rightarrow> ('a \<times> bytes) option \<Rightarrow> bool" where
  "yields r x \<longleftrightarrow> (\<exists>a r'. x = Some (a, r') \<and> length r' \<le> length r)"

lemma shrinks_yields: "shrinks p \<longleftrightarrow> (\<forall>r. yields r (p r))"
  by (simp add: shrinks_def yields_def)

lemma yields_if: "(b \<Longrightarrow> yields r x) \<Longrightarrow> (\<not> b \<Longrightarrow> yields r y) \<Longrightarrow> yields r (if b then x else y)"
  by simp

lemma yields_Some: "length r' \<le> length r \<Longrightarrow> yields r (Some (a, r'))"
  by (simp add: yields_def)

lemma yields_bind: "shrinks p \<Longrightarrow> length s \<le> length r \<Longrightarrow> yields r (p s \<bind> (\<lambda>(x, y). Some (f x, y)))"
  unfolding yields_def by (erule shrinksE [of p s]) auto

lemma yields_list: "shrinks p \<Longrightarrow> length s \<le> length r \<Longrightarrow> yields r (parse_list p c s \<bind> (\<lambda>(x, y). Some (f x, y)))"
  unfolding yields_def using parse_list_total [of p c s] by auto

lemma yields_ptr:
  assumes "shrinks p"
  shows "yields r (ptr p r)"
proof -
  obtain v r1 where v: "ptr_addr (drop 1 r) = (v, r1)" by (cases "ptr_addr (drop 1 r)")
  obtain e r2 where e: "eat 0x3d r1 = (e, r2)" by (cases "eat 0x3d r1")
  have r2: "length r2 \<le> length r" using length_ptr_addr [OF v] length_eat [OF e] by simp
  define r3 where "r3 = (if starts_with (lit ''ANY='') (eat_ws r2) then drop 4 (eat_ws r2) else eat_ws r2)"
  have r3: "length r3 \<le> length r" using r2 length_eat_ws [of r2] by (auto simp: r3_def)
  have "ptr p r = (if e then if starts_with (lit ''nil'') r3 then Some (Ptr v None, drop 3 r3)
      else p r3 \<bind> (\<lambda>(x, y). Some (Ptr v (Some x), y)) else Some (Ptr v None, r2))"
    by (simp only: ptr_def Let_def v e prod.case r3_def)
  moreover have "length (drop 3 r3) \<le> length r" using r3 by simp
  ultimately show ?thesis using r2 r3 by (simp only:) (intro yields_if yields_Some yields_bind assms)
qed

lemma yields_union:
  assumes "shrinks p" and "length s \<le> length r"
  shows "yields r (let (e, q) = eat 0x3d s in if e then p q \<bind> (\<lambda>(x, y). Some (Union_arg x, y)) else Some (Nil_arg, q))"
proof -
  obtain e q where e: "eat 0x3d s = (e, q)" by (cases "eat 0x3d s")
  have "length q \<le> length r" using length_eat [OF e] assms(2) by simp
  then show ?thesis unfolding e Let_def prod.case by (intro yields_if yields_Some yields_bind assms)
qed

lemma yields_string: "yields r (let (raw, q) = until c (drop 1 r) in Some (f raw, opt_size_suffix q))"
proof -
  obtain raw q where u: "until c (drop 1 r) = (raw, q)" by (cases "until c (drop 1 r)")
  have "length (opt_size_suffix q) \<le> length r" using length_until [OF u] length_opt_size_suffix [of q] by simp
  then show ?thesis unfolding u Let_def prod.case by (rule yields_Some)
qed

lemma yields_word: "yields r (Some (word r))"
  using length_word [of r] by (cases "word r") (simp add: yields_Some)

lemma yields_arg_plain:
  assumes "shrinks p"
  shows "yields r (arg_plain p r)"
proof -
  have d: "length (drop 1 r) \<le> length r" by simp
  show ?thesis
    unfolding arg_plain_def Let_def [where s = "dropWhile _ _"]
    by (intro yields_if yields_ptr yields_list yields_union yields_string yields_word assms d le_trans [OF length_dropWhile_le])
qed

lemma shrinks_parse_arg: "shrinks (parse_arg k)"
proof (induction k)
  case 0
  have "length (skip_token (eat_ws r)) \<le> length r" for r
    using length_skip_token [of "eat_ws r"] length_eat_ws [of r] by simp
  then show ?case by (simp add: shrinks_def)
next
  case (Suc k)
  have "yields r (arg_inner (parse_arg k) (eat_ws r))" for r
  proof (cases "label (eat_ws r)")
    case None
    with yields_arg_plain [OF Suc, of "eat_ws r"] length_eat_ws [of r] show ?thesis
      by (auto simp: arg_inner_def yields_def)
  next
    case (Some x)
    obtain slot q where x: "x = (slot, q)" by (cases x)
    have "length q \<le> length r"
      using Some length_eat_ws [of r]
      by (auto simp: x label_def Let_def split: if_splits prod.splits option.splits dest!: length_until)
    from yields_bind [OF Suc this, of "\<lambda>i. case slot of Some n \<Rightarrow> Out n i | None \<Rightarrow> i"] show ?thesis
      by (simp add: arg_inner_def Some x)
  qed
  then show ?case by (simp add: shrinks_yields)
qed

lemma parse_call_total: "\<exists>c. parse_call a line = Some c"
proof -
  have "\<exists>c. parse_call_body a res rest paren name close = Some c" for res rest paren name close
    using parse_list_total [OF shrinks_parse_arg, of max_depth 0 "take (close - (paren + 1)) (drop (paren + 1) rest)"]
    by (auto simp: parse_call_body_def Let_def)
  then show ?thesis by (auto simp: parse_call_def Let_def split: option.splits prod.splits)
qed

section \<open>Properties\<close>

text \<open>C23. Parsing terminates on every text: no nesting, unbalanced bracket or stray byte makes the argument loop spin.\<close>

theorem parse_prog_total: "\<exists>p. parse_prog a text = Some p"
proof -
  have "\<exists>p. parse_lines a ls = Some p" for ls
  proof (induction ls)
    case (Cons l ls)
    from Cons obtain p where p: "parse_lines a ls = Some p" ..
    from parse_call_total obtain c where "parse_call a (str_trim l) = Some c" ..
    with p show ?case by (simp add: Let_def)
  qed simp
  then show ?thesis by (simp add: parse_prog_def)
qed

end
