(* ===== verification/Prog_Print.thy ===== *)
theory Prog_Print
  imports Prog_Parse
begin

text \<open>
  A printer for the textual program syntax of syzkaller and the proof that the parser of
  \<open>Prog_Parse\<close> inverts it: every syntax tree within the nesting limit, every call with its result binding and
  properties, and every program is read back exactly as it was written.
\<close>

section \<open>Characters\<close>

text \<open>\<open>wordc\<close>: the characters of a bare token; \<open>namec\<close>: of a call name.\<close>

definition wordc :: "u8 \<Rightarrow> bool" where
  "wordc b \<longleftrightarrow> ascii_alnum b \<or> b = 0x2f \<or> b = 0x2b"

definition namec :: "u8 \<Rightarrow> bool" where
  "namec b \<longleftrightarrow> ascii_alnum b \<or> b = 0x5f \<or> b = 0x24"

lemma alnum_visible: "ascii_alnum b \<Longrightarrow> visible b"
  by (auto simp: ascii_alnum_def ascii_digit_def visible_def word_le_nat_alt)

lemma alnum_no_ws: "ascii_alnum b \<Longrightarrow> \<not> latin1_ws b"
  by (auto simp: ascii_alnum_def ascii_digit_def latin1_ws_def word_le_nat_alt)

lemma alnum_not_punct:
  "ascii_alnum b \<Longrightarrow> b \<notin> {0, 0x09, 0x0a, 0x0d, 0x20, 0x22, 0x23, 0x24, 0x26, 0x27, 0x28, 0x29, 0x2b, 0x2c, 0x2d, 0x2f, 0x3c, 0x3d, 0x3e, 0x40,
     0x5b, 0x5c, 0x5d, 0x7b, 0x7d}"
  by (auto simp: ascii_alnum_def ascii_digit_def)

lemma wordc_facts:
  assumes "wordc b"
  shows "visible b" "\<not> latin1_ws b" "\<not> is_sep b" "b < 0x80"
    and "b \<notin> {0x22, 0x23, 0x26, 0x27, 0x28, 0x29, 0x3c, 0x40, 0x5b, 0x5c, 0x7b}"
proof -
  show "visible b" using assms alnum_visible by (auto simp: wordc_def visible_def)
  then show "b < 0x80" by (simp add: visible_def word_le_nat_alt word_less_nat_alt)
  show "\<not> latin1_ws b" using assms alnum_no_ws by (auto simp: wordc_def latin1_ws_def)
  show "\<not> is_sep b" "b \<notin> {0x22, 0x23, 0x26, 0x27, 0x28, 0x29, 0x3c, 0x40, 0x5b, 0x5c, 0x7b}"
    using assms alnum_not_punct [of b] by (auto simp: wordc_def is_sep_def)
qed

lemma digit_alnum: "ascii_digit b \<Longrightarrow> ascii_alnum b" "ascii_hexdigit b \<Longrightarrow> ascii_alnum b"
  by (auto simp: ascii_alnum_def ascii_hexdigit_def ascii_digit_def word_le_nat_alt)

lemma alnum_wordc: "ascii_alnum b \<Longrightarrow> wordc b"
  by (simp add: wordc_def)

lemma hex_digit_hex: "d < 16 \<Longrightarrow> ascii_hexdigit (hex_digit d)" and hex_digit_dec: "d < 10 \<Longrightarrow> ascii_digit (hex_digit d)"
proof -
  have "list_all (\<lambda>d. ascii_hexdigit (hex_digit d)) [0..<16]" "list_all (\<lambda>d. ascii_digit (hex_digit d)) [0..<10]"
    by code_simp+
  then show "d < 16 \<Longrightarrow> ascii_hexdigit (hex_digit d)" "d < 10 \<Longrightarrow> ascii_digit (hex_digit d)"
    by (simp_all add: list_all_iff)
qed

lemma show_radix_all:
  assumes "\<And>d. d < radix \<Longrightarrow> P (hex_digit d)" and "2 \<le> radix"
  shows "show_radix radix n \<noteq> [] \<and> list_all P (show_radix radix n)"
  using assms
proof (induction radix n rule: show_radix.induct)
  case (1 radix n)
  show ?case
  proof (cases "n < radix")
    case True
    with 1 show ?thesis by (subst (1 2) show_radix.simps) simp
  next
    case False
    with 1 have "list_all P (show_radix radix (n div radix))" "P (hex_digit (n mod radix))" by simp_all
    with False 1 show ?thesis by (subst (1 2) show_radix.simps) simp
  qed
qed

lemma show_hex_all: "show_hex n \<noteq> []" "list_all ascii_hexdigit (show_hex n)"
  using show_radix_all [of 16 ascii_hexdigit n] hex_digit_hex by (simp_all add: show_hex_def)

lemma show_dec_all: "show_dec n \<noteq> []" "list_all ascii_digit (show_dec n)"
  using show_radix_all [of 10 ascii_digit n] hex_digit_dec by (simp_all add: show_dec_def)

lemma list_all_mono: "list_all P xs \<Longrightarrow> (\<And>x. P x \<Longrightarrow> Q x) \<Longrightarrow> list_all Q xs"
  by (auto simp: list_all_iff)

lemma show_alnum: "list_all ascii_alnum (show_hex n)" "list_all ascii_alnum (show_dec n)"
  by (rule list_all_mono [OF show_hex_all(2) digit_alnum(2)], assumption)
    (rule list_all_mono [OF show_dec_all(2) digit_alnum(1)], assumption)

lemma str_trim_id: "xs \<noteq> [] \<Longrightarrow> visible (hd xs) \<Longrightarrow> visible (last xs) \<Longrightarrow> str_trim xs = xs"
proof -
  assume xs: "xs \<noteq> []" "visible (hd xs)" "visible (last xs)"
  then obtain a as where a: "xs = a # as" "visible a" by (cases xs) auto
  from xs obtain bs b where b: "rev xs = b # bs" "visible b" by (cases "rev xs") (auto simp: hd_rev [symmetric])
  have "str_trim_start xs = xs" using a by (simp add: str_trim_start_def trim_ws_visible unicode_ws_invisible)
  moreover have "str_trim_end xs = xs"
    using trim_ws_visible [OF unicode_ws_invisible(2) b(2), of bs] by (metis b(1) rev_rev_ident str_trim_end_def)
  ultimately show ?thesis by (simp add: str_trim_def)
qed

lemma str_trim_all: "list_all visible xs \<Longrightarrow> str_trim xs = xs"
proof (cases "xs = []")
  case True
  have "trim_ws ws [] = []" for ws
  proof -
    have "strip_one ws [] = None" by (induction ws) (auto simp: starts_with_def)
    then show ?thesis by (subst trim_ws.simps) simp
  qed
  with True show ?thesis by (simp add: str_trim_def str_trim_start_def str_trim_end_def)
next
  case False
  then show "list_all visible xs \<Longrightarrow> ?thesis" by (intro str_trim_id) (auto simp: list_all_iff)
qed

lemma parse_unsigned_show:
  assumes "2 \<le> radix" and "radix \<le> 16" and "n < lim"
  shows "parse_unsigned radix lim (show_radix radix n) = Some n"
proof -
  have hex: "show_radix radix n \<noteq> [] \<and> list_all ascii_hexdigit (show_radix radix n)"
    using assms by (intro show_radix_all) (auto intro: hex_digit_hex)
  then obtain b bs where b: "show_radix radix n = b # bs" "ascii_hexdigit b" by (cases "show_radix radix n") auto
  then have "b \<noteq> 0x2b" using alnum_not_punct [OF digit_alnum(2)] by auto
  with b(1) radix_val_show [OF assms(1,2), of n] assms(3) show ?thesis by (simp add: parse_unsigned_def)
qed

definition show_0x :: "u64 \<Rightarrow> str" where
  "show_0x v = lit ''0x'' @ show_hex (unat v)"

lemma lit_0x: "lit ''0x'' = [0x30, 0x78]"
  by (simp add: lit_def)

lemma show_0x_alnum: "list_all ascii_alnum (show_0x v)"
  by (simp add: show_0x_def lit_0x show_alnum ascii_alnum_def ascii_digit_def)

lemma parse_int_show: "parse_int (show_0x v) = Some v"
proof -
  have "str_trim (show_0x v) = show_0x v"
    by (intro str_trim_all list_all_mono [OF show_0x_alnum alnum_visible])
  moreover have "unat v < 2 ^ LENGTH(64)" by (rule unsigned_less)
  then have "parse_unsigned 16 (2 ^ 64) (show_hex (unat v)) = Some (unat v)"
    unfolding show_hex_def by (intro parse_unsigned_show) simp_all
  ultimately show ?thesis
    by (simp add: parse_int_def Let_def show_0x_def strip_prefix_def starts_with_def parse_u64_radix_def show_hex_all)
qed

lemma parse_usize_show: "n < 2 ^ 64 \<Longrightarrow> parse_usize (show_dec n) = Some n"
  unfolding parse_usize_def show_dec_def by (intro parse_unsigned_show) simp_all

section \<open>Tokens and strings\<close>

definition rest_ok :: "bytes \<Rightarrow> bool" where
  "rest_ok r \<longleftrightarrow> r = [] \<or> is_sep (hd r)"

definition word_val :: "str \<Rightarrow> arg" where
  "word_val w =
     (if w = lit ''nil'' \<or> w = lit ''AUTO'' then Nil_arg
      else if starts_with (lit ''csum'') w then Csum
      else case parse_res_ref w of Some a \<Rightarrow> a | None \<Rightarrow> (case parse_int w of Some v \<Rightarrow> Int_arg v | None \<Rightarrow> Nil_arg))"

lemma takeWhile_token:
  "list_all (\<lambda>b. \<not> is_sep b) w \<Longrightarrow> rest_ok r \<Longrightarrow> takeWhile (\<lambda>b. \<not> is_sep b) (w @ r) = w \<and> skip_token (w @ r) = r"
  unfolding skip_token_def by (induction w) (auto simp: rest_ok_def takeWhile_eq_Nil_iff dropWhile_eq_self_iff)

lemma eat_ws_id: "r = [] \<or> \<not> latin1_ws (hd r) \<Longrightarrow> eat_ws r = r"
  by (cases r) (auto simp: eat_ws_def)

lemma word_token:
  assumes "w \<noteq> []" and "list_all wordc w" and "rest_ok r"
  shows "word (w @ r) = (word_val w, r)"
proof -
  have "eat_ws (w @ r) = w @ r" using assms(1,2) wordc_facts(2) by (intro eat_ws_id) (cases w; simp)
  moreover have "list_all (\<lambda>b. \<not> is_sep b) w" by (rule list_all_mono [OF assms(2) wordc_facts(3)])
  moreover have "utf8_lossy w = w" by (intro utf8_lossy_ascii) (use list_all_mono [OF assms(2) wordc_facts(4)] in \<open>simp add: is_ascii_def\<close>)
  moreover have "str_trim w = w" by (rule str_trim_all [OF list_all_mono [OF assms(2) wordc_facts(1)]])
  ultimately show ?thesis
    using takeWhile_token [of w r] assms(1,3) by (simp add: word_def word_val_def split: option.split)
qed

lemma until_plain:
  assumes "list_all (\<lambda>b. b \<noteq> c \<and> b \<noteq> 0x5c \<and> b < 0x80) p"
  shows "until c (p @ c # r) = (p, r)"
proof -
  have "list_all (\<lambda>b. b \<noteq> c \<and> b \<noteq> 0x5c \<and> b < 0x80) p \<Longrightarrow> until_loop c (p @ c # r) = (p, c # r)"
  proof (induction p)
    case (Cons b p)
    then obtain x xs where "p @ c # r = x # xs" by (cases "p @ c # r") auto
    with Cons show ?case by simp
  qed simp
  moreover have "utf8_lossy p = p" using assms by (intro utf8_lossy_ascii) (auto simp: is_ascii_def list_all_iff)
  ultimately show ?thesis using assms by (simp add: until_def)
qed

definition hex_byte :: "u8 \<Rightarrow> bytes" where
  "hex_byte b = [hex_digit (unat b div 16), hex_digit (unat b mod 16)]"

lemma byte_digits: "unat (b :: u8) div 16 < 16" "unat b mod 16 < 16"
proof -
  have "unat b < 2 ^ LENGTH(8)" by (rule unsigned_less)
  then show "unat b div 16 < 16" "unat b mod 16 < 16" by (simp_all add: div_less_iff_less_mult)
qed

lemma hex_byte_hex: "list_all ascii_hexdigit (concat (map hex_byte d))"
  by (induction d) (simp_all add: hex_byte_def hex_digit_hex byte_digits)

lemma hex_pairs_bytes: "hex_pairs (concat (map hex_byte d)) = d"
proof (induction d)
  case (Cons b d)
  let ?x = "hex_digit (unat b div 16)" and ?y = "hex_digit (unat b mod 16)"
  have "?x \<noteq> 0x2b" using alnum_not_punct [OF digit_alnum(2) [OF hex_digit_hex [OF byte_digits(1)]]] by blast
  moreover have "radix_val 16 0 [?x, ?y] = Some (unat b)"
    using hex_digit_radix [OF byte_digits(1) byte_digits(1)] hex_digit_radix [OF byte_digits(2) byte_digits(2)] by simp
  moreover have "unat b < 2 ^ LENGTH(8)" by (rule unsigned_less)
  ultimately have "parse_unsigned 16 256 [?x, ?y] = Some (unat b)" by (simp add: parse_unsigned_def)
  with Cons show ?case by (simp add: hex_byte_def)
qed simp

lemma decode_hex_bytes_show: "decode_hex_bytes (concat (map hex_byte d)) = d"
proof (cases "d = []")
  case True
  then show ?thesis by (simp add: decode_hex_bytes_def strip_prefix_def starts_with_def lit_def)
next
  case False
  let ?s = "concat (map hex_byte d)"
  have "even (length ?s)" by (induction d) (simp_all add: hex_byte_def)
  moreover have ne: "?s \<noteq> []" using False by (cases d) (simp_all add: hex_byte_def)
  moreover have "strip_prefix (lit ''$'') ?s = None"
  proof -
    obtain x xs where "?s = x # xs" using ne by (cases ?s) auto
    moreover from this have "x \<noteq> 0x24" using hex_byte_hex [of d] alnum_not_punct [OF digit_alnum(2), of x] by auto
    ultimately show ?thesis by (simp add: strip_prefix_def starts_with_def lit_def)
  qed
  ultimately show ?thesis by (simp add: decode_hex_bytes_def hex_byte_hex hex_pairs_bytes)
qed

lemma hex_bytes_quiet: "list_all (\<lambda>b. b \<noteq> 0x22 \<and> b \<noteq> 0x5c \<and> b < 0x80) (concat (map hex_byte d))"
proof -
  have "b \<noteq> 0x22 \<and> b \<noteq> 0x5c \<and> b < 0x80" if "ascii_hexdigit b" for b
    using wordc_facts(4,5) [OF alnum_wordc [OF digit_alnum(2) [OF that]]] by auto
  from list_all_mono [OF hex_byte_hex this] show ?thesis .
qed

section \<open>The printer of arguments\<close>

fun commas :: "bytes list \<Rightarrow> bytes" where
  "commas [] = []"
| "commas [x] = x"
| "commas (x # xs) = x @ 0x2c # 0x20 # commas xs"

fun show_arg :: "arg \<Rightarrow> bytes" where
  "show_arg (Int_arg v) = show_0x v"
| "show_arg (Res idx dv add) = 0x72 # show_dec idx @ 0x2f # show_0x dv @ 0x2b # show_0x add"
| "show_arg (Ptr addr None) = 0x26 # 0x28 # show_0x (addr + encoding_addr_base) @ 0x29 # 0x3d # lit ''nil''"
| "show_arg (Ptr addr (Some x)) = 0x26 # 0x28 # show_0x (addr + encoding_addr_base) @ 0x29 # 0x3d # show_arg x"
| "show_arg (Data d) = 0x22 # concat (map hex_byte d) @ [0x22]"
| "show_arg (Struct fs) = 0x7b # commas (map show_arg fs) @ [0x7d]"
| "show_arg (Array fs) = 0x5b # commas (map show_arg fs) @ [0x5d]"
| "show_arg (Union_arg x) = 0x40 # 0x75 # 0x3d # show_arg x"
| "show_arg Csum = lit ''csum''"
| "show_arg (Out n x) = 0x3c # 0x72 # show_dec n @ 0x3d # 0x3e # show_arg x"
| "show_arg Nil_arg = lit ''nil''"

text \<open>\<open>arg_ok k a\<close>: the tree fits in \<open>k\<close> levels and its result numbers in a \<open>usize\<close>.\<close>

fun arg_ok :: "nat \<Rightarrow> arg \<Rightarrow> bool" where
  "arg_ok 0 a = False"
| "arg_ok (Suc k) (Res idx dv add) = (idx < 2 ^ 64)"
| "arg_ok (Suc k) (Ptr addr (Some x)) = (x \<noteq> Nil_arg \<and> arg_ok k x)"
| "arg_ok (Suc k) (Struct fs) = list_all (arg_ok k) fs"
| "arg_ok (Suc k) (Array fs) = list_all (arg_ok k) fs"
| "arg_ok (Suc k) (Union_arg x) = arg_ok k x"
| "arg_ok (Suc k) (Out n x) = (n < 2 ^ 64 \<and> arg_ok k x)"
| "arg_ok (Suc k) a = True"

definition starts_ok :: "bytes \<Rightarrow> bool" where
  "starts_ok s \<longleftrightarrow> s \<noteq> [] \<and> \<not> latin1_ws (hd s) \<and> hd s \<notin> {0, 0x2c, 0x5d, 0x7d}"

lemma starts_ok_show_arg: "starts_ok (show_arg a)"
  by (cases a rule: show_arg.cases) (simp_all add: starts_ok_def latin1_ws_def show_0x_def lit_def)

lemma word_val_0x: "word_val (show_0x v) = Int_arg v"
proof -
  have "parse_res_ref (show_0x v) = None"
    by (simp add: parse_res_ref_def strip_prefix_def starts_with_def show_0x_def lit_def)
  then show ?thesis by (simp add: word_val_def parse_int_show) (simp add: show_0x_def lit_def starts_with_def)
qed

lemma span_app:
  assumes "list_all P xs" and "ys = [] \<or> \<not> P (hd ys)"
  shows "takeWhile P (xs @ ys) = xs" "dropWhile P (xs @ ys) = ys"
  using assms by (induction xs) (auto simp: takeWhile_eq_Nil_iff dropWhile_eq_self_iff)

lemma int_suffix_show:
  assumes "lit m = [c]" and "r = [] \<or> \<not> ascii_alnum (hd r)"
  shows "int_suffix m (c # show_0x v @ r) = (v, r)"
  using assms span_app [OF show_0x_alnum assms(2)]
  by (simp add: int_suffix_def strip_prefix_def starts_with_def split_int_token_def parse_int_show)

lemma word_val_res:
  assumes "idx < 2 ^ 64"
  shows "word_val (0x72 # show_dec idx @ 0x2f # show_0x dv @ 0x2b # show_0x add) = Res idx dv add"
    (is "word_val ?w = _")
proof -
  let ?t = "0x2f # show_0x dv @ 0x2b # show_0x add"
  have "split_digits (show_dec idx @ ?t) = (show_dec idx, ?t)"
    using span_app [OF show_dec_all(2), of ?t] by (simp add: split_digits_def ascii_digit_def)
  moreover have "int_suffix ''/'' ?t = (dv, 0x2b # show_0x add)"
    by (rule int_suffix_show) (simp_all add: lit_def ascii_alnum_def ascii_digit_def)
  moreover have "int_suffix ''+'' (0x2b # show_0x add) = (add, [])"
    using int_suffix_show [of "''+''" "0x2b" "[]" add] by (simp add: lit_def)
  moreover have "strip_prefix (lit ''r'') ?w = Some (show_dec idx @ ?t)"
    by (simp add: strip_prefix_def starts_with_def lit_def)
  ultimately have "parse_res_ref ?w = Some (Res idx dv add)"
    using parse_usize_show [OF assms] show_dec_all(1) [of idx] by (simp add: parse_res_ref_def)
  then show ?thesis by (simp add: word_val_def starts_with_def lit_def)
qed

lemma wordc_alnum: "list_all ascii_alnum s \<Longrightarrow> list_all wordc s"
  by (rule list_all_mono [OF _ alnum_wordc])

lemma show_res_wordc: "list_all wordc (0x72 # show_dec idx @ 0x2f # show_0x dv @ 0x2b # show_0x add)"
  using wordc_alnum [OF show_alnum(2)] wordc_alnum [OF show_0x_alnum]
  by (simp add: wordc_def [of "0x72"] wordc_def [of "0x2f"] wordc_def [of "0x2b"] ascii_alnum_def [of "0x72"] ascii_digit_def)

section \<open>Reading a printed argument back\<close>

text \<open>\<open>reads p a\<close>: the parser \<open>p\<close> reads the printed \<open>a\<close> and leaves the text that follows it.\<close>

definition reads :: "parser \<Rightarrow> arg \<Rightarrow> bool" where
  "reads p a \<longleftrightarrow> (\<forall>r. rest_ok r \<longrightarrow> p (show_arg a @ r) = Some (a, r))"

definition closes :: "u8 \<Rightarrow> bytes \<Rightarrow> bytes \<Rightarrow> bool" where
  "closes c t r \<longleftrightarrow> (c \<in> {0x5d, 0x7d} \<and> t = c # r) \<or> (c = 0 \<and> t = [] \<and> r = [])"

lemma closes_facts:
  assumes "closes c t r"
  shows "rest_ok t" "eat_ws t = t" "peek t = c" "drop 1 t = r" "c \<in> {0, 0x5d, 0x7d}"
  using assms by (auto simp: closes_def rest_ok_def is_sep_def eat_ws_def peek_def latin1_ws_def)

lemma starts_ok_facts:
  assumes "starts_ok s"
  shows "eat_ws (s @ r) = s @ r" "s @ r \<noteq> []" "eat_ws (0x20 # s @ r) = s @ r"
    "c \<in> {0, 0x5d, 0x7d} \<Longrightarrow> peek (s @ r) \<noteq> c"
  using assms by (cases s; auto simp: starts_ok_def eat_ws_def peek_def latin1_ws_def [of "0x20"])+

lemma list_loop_commas:
  assumes "\<And>a. a \<in> set fs \<Longrightarrow> reads p a" and "length fs < fuel" and "closes c t r"
    and "s = commas (map show_arg fs) @ t \<or> (fs \<noteq> [] \<and> s = 0x20 # commas (map show_arg fs) @ t)"
  shows "list_loop fuel p c s out = Some (out @ fs, r)"
  using assms(1,2,4)
proof (induction fs arbitrary: fuel s out)
  case Nil
  then obtain n where "fuel = Suc n" by (cases fuel) auto
  with Nil closes_facts [OF assms(3)] show ?case using assms(3) by (auto simp: closes_def)
next
  case (Cons a fs)
  then obtain n where n: "fuel = Suc n" "length fs < n" by (cases fuel) auto
  note st = starts_ok_facts [OF starts_ok_show_arg]
  have rd: "p (show_arg a @ q) = Some (a, q)" if "rest_ok q" for q
    using Cons.prems(1) that unfolding reads_def by simp
  let ?q = "if fs = [] then t else 0x2c # 0x20 # commas (map show_arg fs) @ t"
  have s: "eat_ws s = show_arg a @ ?q" using Cons.prems(3) st(1,3) [of a] by (cases fs) auto
  have pk: "peek (show_arg a @ ?q) \<noteq> c" by (rule st(4) [OF closes_facts(5) [OF assms(3)]])
  have ne: "show_arg a \<noteq> []" using starts_ok_show_arg [of a] by (simp add: starts_ok_def)
  have q: "rest_ok ?q" using closes_facts(1) [OF assms(3)] by (simp add: rest_ok_def is_sep_def)
  show ?case
  proof (cases "fs = []")
    case True
    then show ?thesis using n s pk rd [OF q] closes_facts [OF assms(3)] ne by (auto simp: Let_def)
  next
    case False
    have "list_loop n p c (0x20 # commas (map show_arg fs) @ t) (out @ [a]) = Some ((out @ [a]) @ fs, r)"
      using Cons.prems(1) n(2) False by (intro Cons.IH) auto
    then show ?thesis
      using False n s pk rd [OF q] ne closes_facts(5) [OF assms(3)]
      by (simp add: Let_def) (auto simp: eat_ws_def latin1_ws_def peek_def)
  qed
qed

lemma commas_length: "length fs \<le> length (commas (map show_arg fs))"
proof (induction fs rule: induct_list012)
  case (2 a)
  then show ?case using starts_ok_show_arg [of a] by (cases "show_arg a") (auto simp: starts_ok_def)
qed (auto)

lemma parse_list_commas:
  assumes "\<And>a. a \<in> set fs \<Longrightarrow> reads p a" and "closes c t r"
  shows "parse_list p c (commas (map show_arg fs) @ t) = Some (fs, r)"
  using list_loop_commas [OF assms(1) _ assms(2) disjI1 [OF refl], of fs "length (commas (map show_arg fs) @ t) + 1" "[]"]
    commas_length [of fs] by (simp add: parse_list_def)

lemma reads_word:
  assumes "w \<noteq> []" and "list_all wordc w" and "show_arg a = w" and "word_val w = a"
  shows "reads (parse_arg (Suc k)) a"
  unfolding reads_def
proof (intro allI impI)
  fix r assume "rest_ok r"
  obtain b bs where w: "w = b # bs" "wordc b" using assms(1,2) by (cases w) auto
  have "eat_ws (w @ r) = w @ r" using starts_ok_facts(1) [OF starts_ok_show_arg, of a] assms(3) by simp
  moreover have "label (w @ r) = None" using w wordc_facts(5) [of b] by (auto simp: label_def peek_def)
  moreover have "arg_plain p (w @ r) = Some (word (w @ r))" for p
    using w wordc_facts(5) [of b] by (auto simp: arg_plain_def peek_def)
  ultimately show "parse_arg (Suc k) (show_arg a @ r) = Some (a, r)"
    using word_token [OF assms(1,2) \<open>rest_ok r\<close>] assms(3,4) by (simp add: arg_inner_def)
qed

lemma reads_plain:
  assumes "show_arg a = b # s" and "b \<noteq> 0x3c" and "\<And>r. rest_ok r \<Longrightarrow> arg_plain (parse_arg k) (b # s @ r) = Some (a, r)"
  shows "reads (parse_arg (Suc k)) a"
  using assms starts_ok_facts(1) [OF starts_ok_show_arg, of a]
  by (auto simp: reads_def arg_inner_def label_def peek_def)

lemma eat_hit: "\<not> latin1_ws c \<Longrightarrow> eat c (c # r) = (True, r)"
  by (simp add: eat_def eat_ws_def peek_def)

lemma alnum_quiet: "c \<in> {0x29, 0x3e} \<Longrightarrow> list_all ascii_alnum s \<Longrightarrow> list_all (\<lambda>b. b \<noteq> c \<and> b \<noteq> 0x5c \<and> b < 0x80) s"
proof (rule list_all_mono [of ascii_alnum])
  fix b assume "c \<in> {0x29, 0x3e}" "ascii_alnum b"
  then show "b \<noteq> c \<and> b \<noteq> 0x5c \<and> b < 0x80" using alnum_not_punct [of b] wordc_facts(4) [OF alnum_wordc] by auto
qed

lemma split_on_none: "c \<notin> set s \<Longrightarrow> split_on c s = [s]"
  by (induction s) auto

lemma ptr_addr_show: "ptr_addr (0x28 # show_0x v @ 0x29 # r) = (v - encoding_addr_base, r)"
proof -
  have "until 0x29 (show_0x v @ 0x29 # r) = (show_0x v, r)"
    by (intro until_plain alnum_quiet) (simp_all add: show_0x_alnum)
  moreover have "0x2f \<notin> set (show_0x v)" using show_0x_alnum [of v] alnum_not_punct [of "0x2f"] by (auto simp: list_all_iff)
  moreover have "str_trim (show_0x v) = show_0x v"
    by (intro str_trim_all list_all_mono [OF show_0x_alnum alnum_visible])
  ultimately show ?thesis
    by (simp add: ptr_addr_def starts_with_def lit_def eat_hit latin1_ws_def split_on_none parse_int_show)
qed

lemma not_nil_start:
  assumes "x \<noteq> Nil_arg"
  shows "\<not> starts_with (lit ''nil'') (show_arg x @ r)"
  using assms by (cases x rule: show_arg.cases) (simp_all add: starts_with_def lit_def show_0x_def)

lemma not_any_start: "\<not> starts_with (lit ''ANY='') (show_arg x @ r)"
  by (cases x rule: show_arg.cases) (simp_all add: starts_with_def lit_def show_0x_def)

lemma ptr_show:
  assumes "case t of None \<Rightarrow> True | Some x \<Rightarrow> x \<noteq> Nil_arg \<and> reads p x" and "rest_ok r"
  shows "ptr p (show_arg (Ptr addr t) @ r) = Some (Ptr addr t, r)"
proof (cases t)
  case None
  then show ?thesis
    using ptr_addr_show [of "addr + encoding_addr_base" "0x3d # lit ''nil'' @ r"]
    by (simp add: ptr_def eat_hit latin1_ws_def) (simp add: lit_def eat_ws_def latin1_ws_def starts_with_def)
next
  case (Some x)
  then have "p (show_arg x @ r) = Some (x, r)" using assms by (simp add: reads_def)
  then show ?thesis
    using Some assms(1) ptr_addr_show [of "addr + encoding_addr_base" "0x3d # show_arg x @ r"]
      not_any_start [of x r] not_nil_start [of x r] starts_ok_facts(1) [OF starts_ok_show_arg, of x r]
    by (simp add: ptr_def eat_hit latin1_ws_def)
qed

lemma string_show: "rest_ok r \<Longrightarrow> arg_plain p (0x22 # concat (map hex_byte d) @ 0x22 # r) = Some (Data d, r)"
  using until_plain [OF hex_bytes_quiet, of d r]
  by (auto simp: arg_plain_def peek_def decode_hex_bytes_show opt_size_suffix_def rest_ok_def is_sep_def split: list.split)

lemma label_show:
  assumes "n < 2 ^ 64"
  shows "label (0x3c # 0x72 # show_dec n @ 0x3d # 0x3e # r) = Some (Some n, r)"
proof -
  let ?l = "0x72 # show_dec n"
  have an: "list_all ascii_alnum ?l" using show_alnum(2) by (simp add: ascii_alnum_def [of "0x72"])
  have "until 0x3e ((?l @ [0x3d]) @ 0x3e # r) = (?l @ [0x3d], r)"
    using alnum_quiet [OF _ an, of "0x3e"] by (intro until_plain) simp
  moreover have "str_trim ?l = ?l" by (intro str_trim_all list_all_mono [OF an alnum_visible])
  moreover have "strip_suffix (lit ''='') (?l @ [0x3d]) = Some ?l" by (simp add: strip_suffix_def ends_with_def starts_with_def lit_def)
  ultimately show ?thesis
    using parse_usize_show [OF assms] by (simp add: label_def peek_def strip_prefix_def starts_with_def) (simp add: lit_def)
qed

lemma list_show:
  assumes "list_all (reads p) fs" and "rest_ok r"
  shows "arg_plain p (0x7b # commas (map show_arg fs) @ 0x7d # r) = Some (Struct fs, r)"
    and "arg_plain p (0x5b # commas (map show_arg fs) @ 0x5d # r) = Some (Array fs, r)"
proof -
  have rd: "reads p a" if "a \<in> set fs" for a using assms(1) that by (simp add: list_all_iff)
  have "parse_list p 0x7d (commas (map show_arg fs) @ 0x7d # r) = Some (fs, r)"
    and "parse_list p 0x5d (commas (map show_arg fs) @ 0x5d # r) = Some (fs, r)"
    using rd by (auto intro!: parse_list_commas simp: closes_def)
  then show "arg_plain p (0x7b # commas (map show_arg fs) @ 0x7d # r) = Some (Struct fs, r)"
    and "arg_plain p (0x5b # commas (map show_arg fs) @ 0x5d # r) = Some (Array fs, r)"
    by (simp_all add: arg_plain_def peek_def)
qed

lemma union_show: "p (show_arg x @ r) = Some (x, r) \<Longrightarrow> arg_plain p (0x40 # 0x75 # 0x3d # show_arg x @ r) = Some (Union_arg x, r)"
  by (simp add: arg_plain_def peek_def is_sep_def eat_hit latin1_ws_def)

lemma reads_leaf:
  "reads (parse_arg (Suc k)) (Int_arg v)" "reads (parse_arg (Suc k)) (Ptr addr None)" "reads (parse_arg (Suc k)) (Data d)"
  "reads (parse_arg (Suc k)) Csum" "reads (parse_arg (Suc k)) Nil_arg"
proof -
  have "show_0x v \<noteq> []" by (simp add: show_0x_def lit_def)
  then show "reads (parse_arg (Suc k)) (Int_arg v)"
    by (intro reads_word [OF _ wordc_alnum [OF show_0x_alnum]]) (simp_all add: word_val_0x)
  have "ptr (parse_arg k) (show_arg (Ptr addr None) @ r) = Some (Ptr addr None, r)" if "rest_ok r" for r
    using that by (intro ptr_show) simp_all
  then show "reads (parse_arg (Suc k)) (Ptr addr None)"
    by (intro reads_plain [OF show_arg.simps(3)]) (simp_all add: arg_plain_def peek_def)
  show "reads (parse_arg (Suc k)) (Data d)" using string_show by (intro reads_plain [OF show_arg.simps(5)]) simp_all
  show "reads (parse_arg (Suc k)) Csum"
    by (rule reads_word [of "lit ''csum''"]) (simp_all add: lit_def wordc_def ascii_alnum_def word_val_def starts_with_def)
  show "reads (parse_arg (Suc k)) Nil_arg"
    by (rule reads_word [of "lit ''nil''"]) (simp_all add: lit_def wordc_def ascii_alnum_def word_val_def starts_with_def)
qed

lemma reads_parse_arg: "arg_ok k a \<Longrightarrow> reads (parse_arg k) a"
proof (induction k a rule: arg_ok.induct)
  case (2 k idx dv add)
  then show ?case using reads_word [OF _ show_res_wordc] word_val_res by (metis arg_ok.simps(2) list.distinct(1) show_arg.simps(2))
next
  case (3 k addr x)
  then have "ptr (parse_arg k) (show_arg (Ptr addr (Some x)) @ r) = Some (Ptr addr (Some x), r)" if "rest_ok r" for r
    using that by (intro ptr_show) simp_all
  then show ?case by (intro reads_plain [OF show_arg.simps(4)]) (simp_all add: arg_plain_def peek_def)
next
  case (4 k fs)
  then have "list_all (reads (parse_arg k)) fs" by (simp add: list_all_iff)
  then show ?case using list_show(1) by (intro reads_plain [OF show_arg.simps(6)]) simp_all
next
  case (5 k fs)
  then have "list_all (reads (parse_arg k)) fs" by (simp add: list_all_iff)
  then show ?case using list_show(2) by (intro reads_plain [OF show_arg.simps(7)]) simp_all
next
  case (6 k x)
  then show ?case using union_show by (intro reads_plain [OF show_arg.simps(8)]) (simp_all add: reads_def)
next
  case (7 k n x)
  then show ?case
    using label_show [of n] starts_ok_facts(1) [OF starts_ok_show_arg, of "Out n x"] by (auto simp: reads_def arg_inner_def)
qed (simp_all add: reads_leaf)

section \<open>The scans over a printed argument\<close>

text \<open>\<open>scans s\<close>: the search for the closing parenthesis and the search for a comment run over \<open>s\<close> unchanged, and
  \<open>s\<close> stays on one line.\<close>

definition scans :: "bytes \<Rightarrow> bool" where
  "scans s \<longleftrightarrow> (\<forall>i d r. 1 \<le> d \<longrightarrow> matching_loop i d 0 (s @ r) = matching_loop (i + length s) d 0 r) \<and>
     (\<forall>i r. comment_loop i 0 (s @ r) = comment_loop (i + length s) 0 r) \<and> 0x0a \<notin> set s"

lemma scans_Nil: "scans []" by (simp add: scans_def)

lemma scans_app: "scans s \<Longrightarrow> scans t \<Longrightarrow> scans (s @ t)"
  by (simp add: scans_def add.assoc)

lemma scans_char: "c \<notin> {0x0a, 0x22, 0x23, 0x27, 0x28, 0x29} \<Longrightarrow> scans s \<Longrightarrow> scans (c # s)"
  by (auto simp: scans_def)

lemma scans_plain: "list_all (\<lambda>c. c \<notin> {0x0a, 0x22, 0x23, 0x27, 0x28, 0x29}) s \<Longrightarrow> scans s"
  by (induction s) (simp_all add: scans_Nil scans_char)

lemma scans_paren: "scans s \<Longrightarrow> scans t \<Longrightarrow> scans (0x28 # s @ 0x29 # t)"
  by (simp add: scans_def add.assoc)

lemma scans_quoted:
  assumes "list_all (\<lambda>b. b \<noteq> 0x22 \<and> b \<noteq> 0x5c \<and> b < 0x80) s" and "0x0a \<notin> set s"
  shows "scans (0x22 # s @ [0x22])"
proof -
  have "matching_loop i d 0x22 (s @ 0x22 # r) = matching_loop (i + length s + 1) d 0 r" for i d r
    using assms(1) by (induction s arbitrary: i) simp_all
  moreover have "comment_loop i 0x22 (s @ 0x22 # r) = comment_loop (i + length s + 1) 0 r" for i r
    using assms(1) by (induction s arbitrary: i) simp_all
  ultimately show ?thesis using assms(2) by (simp add: scans_def)
qed

lemma scans_alnum: "list_all ascii_alnum s \<Longrightarrow> scans s"
proof (rule scans_plain, erule list_all_mono)
  fix b assume "ascii_alnum b"
  then show "b \<notin> {0x0a, 0x22, 0x23, 0x27, 0x28, 0x29}" using alnum_not_punct [of b] by blast
qed

lemma scans_commas: "(\<And>x. x \<in> set xs \<Longrightarrow> scans x) \<Longrightarrow> scans (commas xs)"
  by (induction xs rule: commas.induct) (simp_all add: scans_Nil scans_app scans_char)

lemma scans_show_arg: "scans (show_arg a)"
proof (induction a rule: show_arg.induct)
  case (5 d)
  have "0x0a \<notin> set (concat (map hex_byte d))"
    using hex_byte_hex [of d] alnum_not_punct [OF digit_alnum(2)] by (fastforce simp: list_all_iff)
  then show ?case using scans_quoted [OF hex_bytes_quiet] by simp
next
  case (6 fs)
  then have "scans (commas (map show_arg fs))" by (intro scans_commas) auto
  then show ?case by (simp add: scans_char scans_app scans_Nil)
next
  case (7 fs)
  then have "scans (commas (map show_arg fs))" by (intro scans_commas) auto
  then show ?case by (simp add: scans_char scans_app scans_Nil)
qed (simp_all add: scans_char scans_app scans_paren scans_commas scans_alnum scans_Nil show_0x_alnum show_alnum lit_def)

section \<open>Calls\<close>

definition show_props :: "call \<Rightarrow> bytes" where
  "show_props c =
     (case (c_fail_nth c, c_async c) of
        (None, False) \<Rightarrow> []
      | (None, True) \<Rightarrow> lit '' (async)''
      | (Some v, False) \<Rightarrow> lit '' (fail_nth: '' @ show_0x (ucast v) @ lit '')''
      | (Some v, True) \<Rightarrow> lit '' (fail_nth: '' @ show_0x (ucast v) @ lit '', async)'')"

definition show_body :: "call \<Rightarrow> bytes" where
  "show_body c = c_name c @ 0x28 # commas (map show_arg (c_args c)) @ 0x29 # show_props c"

definition show_call :: "call \<Rightarrow> bytes" where
  "show_call c = (case c_res c of None \<Rightarrow> [] | Some n \<Rightarrow> 0x72 # show_dec n @ lit '' = '') @ show_body c"

text \<open>A call as the parser builds it for the architecture \<open>a\<close>.\<close>

definition call_ok :: "arch \<Rightarrow> call \<Rightarrow> bool" where
  "call_ok a c \<longleftrightarrow> c_name c \<noteq> [] \<and> list_all namec (c_name c) \<and> c_base c = hd (split_on 0x24 (c_name c)) \<and>
     c_nr c = syscall_nr a (byte_string (c_base c)) \<and> list_all (arg_ok max_depth) (c_args c) \<and>
     (case c_res c of None \<Rightarrow> True | Some n \<Rightarrow> n < 2 ^ 64)"

lemma str_trim_space:
  assumes "xs \<noteq> []" and "visible (hd xs)" and "visible (last xs)"
  shows "str_trim (0x20 # xs) = xs" "str_trim (xs @ [0x20]) = xs"
proof -
  obtain a as where a: "xs = a # as" "visible a" using assms by (cases xs) auto
  obtain bs b where b: "rev xs = b # bs" "visible b" using assms by (cases "rev xs") (auto simp: hd_rev [symmetric])
  have "strip_one unicode_ws (0x20 # ys) = Some ys" "strip_one (map rev unicode_ws) (0x20 # ys) = Some ys" for ys
    by (simp_all add: unicode_ws_def starts_with_def)
  then have sp: "trim_ws unicode_ws (0x20 # ys) = trim_ws unicode_ws ys"
    "trim_ws (map rev unicode_ws) (0x20 # ys) = trim_ws (map rev unicode_ws) ys" for ys
    by (subst trim_ws.simps, simp)+
  have "str_trim (0x20 # xs) = str_trim xs" by (simp add: str_trim_def str_trim_start_def sp)
  then show "str_trim (0x20 # xs) = xs" using str_trim_id [OF assms] by simp
  have "str_trim_start (xs @ [0x20]) = xs @ [0x20]"
    using a by (simp add: str_trim_start_def trim_ws_visible unicode_ws_invisible)
  moreover have "trim_ws (map rev unicode_ws) (rev xs) = rev xs"
    using b trim_ws_visible [OF unicode_ws_invisible(2)] by simp
  ultimately show "str_trim (xs @ [0x20]) = xs" by (simp add: str_trim_def str_trim_end_def sp)
qed

lemma namec_facts:
  assumes "namec b"
  shows "visible b" "b \<notin> {0x22, 0x23, 0x27, 0x28, 0x29, 0x3d}" "b \<noteq> 0x0a"
proof -
  show "visible b" using assms alnum_visible by (auto simp: namec_def visible_def)
  show "b \<notin> {0x22, 0x23, 0x27, 0x28, 0x29, 0x3d}" "b \<noteq> 0x0a" using assms alnum_not_punct [of b] by (auto simp: namec_def)
qed

lemma parse_prop_async: "parse_prop (lit '' async'') c = c\<lparr>c_async := True\<rparr>" "parse_prop (lit ''async'') c = c\<lparr>c_async := True\<rparr>"
proof -
  have "str_trim (lit '' async'') = lit ''async''" "str_trim (lit ''async'') = lit ''async''"
    using str_trim_space(1) [of "lit ''async''"] str_trim_id [of "lit ''async''"] by (simp_all add: lit_def visible_def)
  then show "parse_prop (lit '' async'') c = c\<lparr>c_async := True\<rparr>" "parse_prop (lit ''async'') c = c\<lparr>c_async := True\<rparr>"
    by (simp_all add: parse_prop_def)
qed

lemma parse_prop_fail: "parse_prop (lit ''fail_nth: '' @ show_0x (ucast (v :: u32))) c = c\<lparr>c_fail_nth := Some v\<rparr>"
proof -
  let ?h = "show_0x (ucast v)"
  have vis: "list_all visible ?h" by (rule list_all_mono [OF show_0x_alnum alnum_visible])
  have ne: "?h \<noteq> []" by (simp add: show_0x_def lit_def)
  have "visible (last ?h)" "visible (hd ?h)" using vis ne by (simp_all add: list_all_iff)
  then have "str_trim (lit ''fail_nth: '' @ ?h) = lit ''fail_nth: '' @ ?h" "str_trim (0x20 # ?h) = ?h"
    using ne str_trim_space(1) [of ?h] by (auto intro!: str_trim_id simp: lit_def visible_def [of "0x66"])
  moreover have "strip_prefix (lit ''fail_nth:'') (lit ''fail_nth: '' @ ?h) = Some (0x20 # ?h)"
    by (simp add: strip_prefix_def starts_with_def lit_def)
  moreover have "lit ''fail_nth: '' @ ?h \<noteq> lit ''async''" by (simp add: lit_def)
  ultimately show ?thesis by (simp add: parse_prop_def Let_def parse_int_show)
qed

lemma split_on_app: "c \<notin> set s \<Longrightarrow> split_on c (s @ c # t) = s # split_on c t"
  by (induction s) auto

lemma tail_props_paren: "tail_props (str_trim (0x20 # 0x28 # s @ [0x29])) c = parse_props s c"
proof -
  have "str_trim (0x20 # 0x28 # s @ [0x29]) = 0x28 # s @ [0x29]" by (rule str_trim_space) (simp_all add: visible_def)
  then show ?thesis by (simp add: tail_props_def rposition_def)
qed

lemma tail_props_show:
  assumes "c_fail_nth d = None" and "\<not> c_async d"
  shows "tail_props (str_trim (show_props c)) d = d\<lparr>c_fail_nth := c_fail_nth c, c_async := c_async c\<rparr>"
proof -
  have nc: "0x2c \<notin> set (lit ''fail_nth: '' @ show_0x v)" for v
    using show_0x_alnum [of v] alnum_not_punct [of "0x2c"] by (auto simp: list_all_iff lit_def)
  have p0: "tail_props (str_trim []) d = d" using str_trim_all [of "[]"] by (simp add: tail_props_def)
  have p1: "tail_props (str_trim (lit '' (async)'')) d = d\<lparr>c_async := True\<rparr>"
    using tail_props_paren [of "lit ''async''" d] parse_prop_async(2) [of d] split_on_none [of "0x2c" "lit ''async''"]
    by (simp add: parse_props_def lit_def)
  have p2: "tail_props (str_trim (lit '' (fail_nth: '' @ show_0x (ucast v) @ lit '')'')) d = d\<lparr>c_fail_nth := Some v\<rparr>" for v
    using tail_props_paren [of "lit ''fail_nth: '' @ show_0x (ucast v)" d] parse_prop_fail [of v d] split_on_none [OF nc]
    by (simp add: parse_props_def) (simp add: lit_def)
  have p3: "tail_props (str_trim (lit '' (fail_nth: '' @ show_0x (ucast v) @ lit '', async)'')) d =
      d\<lparr>c_fail_nth := Some v, c_async := True\<rparr>" for v
    using tail_props_paren [of "(lit ''fail_nth: '' @ show_0x (ucast v)) @ 0x2c # lit '' async''" d] parse_prop_fail [of v d]
      parse_prop_async(1) split_on_app [OF nc] split_on_none [of "0x2c" "lit '' async''"]
    by (simp add: parse_props_def) (simp add: lit_def)
  show ?thesis
    using assms p0 p1 p2 p3 by (auto simp: show_props_def split: option.split bool.split)
qed

lemma show_props_shape:
  obtains "show_props c = []" | s where "show_props c = 0x20 # 0x28 # s @ [0x29]" "scans s"
proof -
  consider "show_props c = []" | "show_props c = 0x20 # 0x28 # lit ''async'' @ [0x29]"
    | v where "show_props c = 0x20 # 0x28 # (lit ''fail_nth: '' @ show_0x v) @ [0x29]"
    | v where "show_props c = 0x20 # 0x28 # (lit ''fail_nth: '' @ show_0x v @ lit '', async'') @ [0x29]"
    by (cases "c_fail_nth c"; cases "c_async c") (force simp: show_props_def lit_def)+
  moreover have "scans (lit ''async'')" "scans (lit ''fail_nth: '')" "scans (lit '', async'')"
    by (rule scans_plain, simp add: lit_def)+
  moreover have "scans (show_0x v)" for v by (rule scans_alnum [OF show_0x_alnum])
  ultimately show ?thesis by cases (use that scans_app in blast)+
qed

lemma scans_show_props: "scans (show_props c)"
  by (cases rule: show_props_shape [of c]) (simp_all add: scans_Nil scans_char scans_paren)

lemma show_body_last: "show_body c \<noteq> []" "visible (last (show_body c))"
  by (cases rule: show_props_shape [of c]; simp add: show_body_def visible_def)+

lemma scans_name: "list_all namec s \<Longrightarrow> scans s"
  by (rule scans_plain, erule list_all_mono) (use namec_facts in auto)

lemma scans_args: "scans (commas (map show_arg fs))"
  by (rule scans_commas) (auto simp: scans_show_arg)

lemma scans_body: "list_all namec (c_name c) \<Longrightarrow> scans (show_body c)"
  unfolding show_body_def by (intro scans_app scans_name scans_paren scans_args scans_show_props)

lemma body_paren:
  assumes "list_all namec (c_name c)"
  shows "position (\<lambda>b. b = 0x28) (show_body c) = Some (length (c_name c))"
    and "matching_paren (show_body c) (length (c_name c)) = Some (length (c_name c) + 1 + length (commas (map show_arg (c_args c))))"
proof -
  show "position (\<lambda>b. b = 0x28) (show_body c) = Some (length (c_name c))"
    unfolding show_body_def using assms namec_facts(2) by (intro position_append_hit) (auto simp: list_all_iff)
  have "matching_loop i 1 0 (commas (map show_arg (c_args c)) @ r) = matching_loop (i + length (commas (map show_arg (c_args c)))) 1 0 r" for i r
    using scans_args [of "c_args c"] by (simp add: scans_def)
  then show "matching_paren (show_body c) (length (c_name c)) = Some (length (c_name c) + 1 + length (commas (map show_arg (c_args c))))"
    by (simp add: matching_paren_def show_body_def)
qed

lemma parse_call_body_show:
  assumes "call_ok a c" and "res = c_res c" and "name = c_name c"
  shows "parse_call_body a res (show_body c) (length name) name (length name + 1 + length (commas (map show_arg (c_args c)))) = Some c"
proof -
  have "parse_list (parse_arg max_depth) 0 (commas (map show_arg (c_args c)) @ []) = Some (c_args c, [])"
    using assms(1) by (intro parse_list_commas reads_parse_arg) (auto simp: call_ok_def list_all_iff closes_def)
  then show ?thesis
    using assms by (cases c) (auto simp: parse_call_body_def show_body_def tail_props_show call_ok_def Let_def)
qed

lemma split_res_show:
  assumes "call_ok a c" and "position (\<lambda>b. b = 0x28) (show_call c) = Some k"
  shows "split_res (show_call c) k = (c_res c, show_body c)"
proof (cases "c_res c")
  case None
  have nm: "list_all namec (c_name c)" using assms(1) by (simp add: call_ok_def)
  have k: "k = length (c_name c)" using assms(2) None body_paren(1) [OF nm] by (simp add: show_call_def)
  have "position (\<lambda>b. b = 0x3d) (c_name c) = None" using nm namec_facts(2) by (auto simp: position_None list_all_iff)
  then show ?thesis using None k by (simp add: split_res_def show_call_def) (simp add: show_body_def)
next
  case (Some n)
  let ?r = "0x72 # show_dec n"
  have an: "list_all ascii_alnum ?r" using show_alnum(2) by (simp add: ascii_alnum_def [of "0x72"])
  have vis: "list_all visible ?r" by (rule list_all_mono [OF an alnum_visible])
  have line: "show_call c = ?r @ 0x20 # 0x3d # 0x20 # show_body c" using Some by (simp add: show_call_def lit_def)
  have nm: "list_all namec (c_name c)" "c_name c \<noteq> []" and n: "n < 2 ^ 64" using assms(1) Some by (simp_all add: call_ok_def)
  let ?p = "?r @ [0x20, 0x3d, 0x20] @ c_name c"
  have quiet: "b \<noteq> 0x28" "b \<noteq> 0x3d" if "ascii_alnum b \<or> namec b" for b
    using that alnum_not_punct [of b] namec_facts(2) [of b] by blast+
  have "list_all (\<lambda>b. b \<noteq> 0x28) ?p" "list_all (\<lambda>b. b \<noteq> 0x3d) (?r @ [0x20])"
    using list_all_mono [OF an quiet(1)] list_all_mono [OF an quiet(2)] list_all_mono [OF nm(1) quiet(1)] by simp_all
  then have "\<forall>b\<in>set ?p. b \<noteq> 0x28" "\<forall>b\<in>set (?r @ [0x20]). b \<noteq> 0x3d" unfolding list_all_iff .
  then have "position (\<lambda>b. b = 0x28) (?p @ 0x28 # q) = Some (length ?p)"
    and eq: "position (\<lambda>b. b = 0x3d) ((?r @ [0x20]) @ 0x3d # q) = Some (length (?r @ [0x20]))" for q
    by (intro position_append_hit; simp)+
  then have "k = length ?p" using assms(2) line by (simp add: show_body_def)
  moreover have "show_call c = ?p @ 0x28 # commas (map show_arg (c_args c)) @ 0x29 # show_props c"
    using line by (simp add: show_body_def)
  ultimately have "take k (show_call c) = (?r @ [0x20]) @ 0x3d # 0x20 # c_name c" by (simp add: numeral_3_eq_3)
  then have pos: "position (\<lambda>b. b = 0x3d) (take k (show_call c)) = Some (length (?r @ [0x20]))" using eq by simp
  have "str_trim (?r @ [0x20]) = ?r" by (rule str_trim_space) (use vis in \<open>simp_all add: list_all_iff\<close>)
  moreover have "str_trim (0x20 # show_body c) = show_body c"
    using nm namec_facts(1) show_body_last [of c] by (intro str_trim_space) (cases "c_name c"; auto simp: show_body_def)+
  moreover have "strip_prefix (lit ''r'') ?r \<bind> parse_usize = Some n"
    using parse_usize_show [OF n] by (simp add: strip_prefix_def starts_with_def lit_def)
  ultimately show ?thesis using Some pos line by (simp add: split_res_def)
qed

lemma show_call_line:
  assumes "call_ok a c"
  shows "show_call c \<noteq> []" "visible (hd (show_call c))" "visible (last (show_call c))" "scans (show_call c)"
proof -
  have nm: "list_all namec (c_name c)" "c_name c \<noteq> []" using assms by (simp_all add: call_ok_def)
  have "scans (0x72 # show_dec n @ lit '' = '')" for n
    by (intro scans_char scans_app scans_alnum [OF show_alnum(2)] scans_plain) (simp_all add: lit_def)
  then show "scans (show_call c)"
    unfolding show_call_def by (intro scans_app scans_body nm) (auto simp: scans_Nil split: option.split)
  show "show_call c \<noteq> []" "visible (last (show_call c))" using show_body_last [of c] by (simp_all add: show_call_def)
  show "visible (hd (show_call c))"
    using nm namec_facts(1) by (cases "c_name c"; cases "c_res c") (auto simp: show_call_def show_body_def visible_def [of "0x72"])
qed

lemma show_call_no_hash:
  assumes "call_ok a c"
  shows "\<not> starts_with (lit ''#'') (show_call c)" and "strip_comment (show_call c) = show_call c"
proof -
  have nm: "list_all namec (c_name c)" "c_name c \<noteq> []" using assms by (simp_all add: call_ok_def)
  show "\<not> starts_with (lit ''#'') (show_call c)"
    using nm namec_facts(2) by (cases "c_name c"; cases "c_res c") (auto simp: show_call_def show_body_def starts_with_def lit_def)
  have "comment_loop 0 0 (show_call c @ []) = comment_loop (0 + length (show_call c)) 0 []"
    using show_call_line(4) [OF assms] unfolding scans_def by blast
  then show "strip_comment (show_call c) = show_call c" by (simp add: strip_comment_def comment_pos_def)
qed

lemma parse_call_show:
  assumes "call_ok a c"
  shows "parse_call a (show_call c) = Some (Some c)"
proof -
  have nm: "list_all namec (c_name c)" "c_name c \<noteq> []" using assms by (simp_all add: call_ok_def)
  have "0x28 \<in> set (show_call c)" by (simp add: show_call_def show_body_def)
  then obtain k where k: "position (\<lambda>b. b = 0x28) (show_call c) = Some k"
    using position_None [of "\<lambda>b. b = 0x28" "show_call c"] by (cases "position (\<lambda>b. b = 0x28) (show_call c)") auto
  have "str_trim (c_name c) = c_name c" by (rule str_trim_all [OF list_all_mono [OF nm(1) namec_facts(1)]])
  moreover have "take (length (c_name c)) (show_body c) = c_name c" by (simp add: show_body_def)
  ultimately show ?thesis
    using k show_call_no_hash [OF assms] show_call_line(1) [OF assms] str_trim_id [OF show_call_line(1-3) [OF assms]]
      split_res_show [OF assms k] body_paren [OF nm(1)] parse_call_body_show [OF assms refl refl] nm(2)
    by (simp add: parse_call_def Let_def)
qed

section \<open>Programs\<close>

definition show_prog :: "prog \<Rightarrow> bytes" where
  "show_prog p = concat (map (\<lambda>c. show_call c @ [0x0a]) p)"

lemma split_on_not_Nil: "split_on c xs \<noteq> []"
  by (cases xs) (auto split: list.split)

lemma lines_show:
  assumes "list_all (call_ok a) p"
  shows "str_lines (show_prog p) = map show_call p"
proof -
  have sp: "split_on 0x0a (show_prog p) = map show_call p @ [[]]"
    using assms
  proof (induction p)
    case (Cons c p)
    then have "0x0a \<notin> set (show_call c)" using show_call_line(4) [of a c] by (simp add: scans_def)
    with Cons split_on_app [of "0x0a" "show_call c"] show ?case by (simp add: show_prog_def)
  qed (simp add: show_prog_def)
  have "strip_cr (show_call c) = show_call c" if "call_ok a c" for c
    using show_call_line(3) [OF that] by (auto simp: strip_cr_def visible_def)
  then have "map (strip_cr \<circ> show_call) p = map show_call p" using assms by (auto simp: list_all_iff)
  with sp show ?thesis by (simp add: str_lines_def)
qed

lemma parse_lines_show: "list_all (call_ok a) p \<Longrightarrow> parse_lines a (map show_call p) = Some p"
proof (induction p)
  case (Cons c p)
  then have c: "call_ok a c" by simp
  with Cons show ?case
    using parse_call_show [OF c] show_call_no_hash(1) [OF c] str_trim_id [OF show_call_line(1-3) [OF c]] show_call_line(1) [OF c]
    by simp
qed simp

text \<open>C22. Round trip of the program syntax: a program whose calls are well formed for the architecture (a non-empty
  name of letters, digits, \<^verbatim>\<open>_\<close> and \<^verbatim>\<open>$\<close>, the base name and the number that belong to it,
  argument trees within the nesting limit) is printed to a text that \<open>parse_prog\<close> reads back exactly.\<close>

theorem parse_prog_show: "list_all (call_ok a) p \<Longrightarrow> parse_prog a (show_prog p) = Some p"
  by (simp add: parse_prog_def lines_show parse_lines_show)

definition sample_prog :: prog where
  "sample_prog =
     [\<lparr>c_name = lit ''read$x'', c_base = lit ''read'', c_nr = Some 0,
       c_args = [Res 0 1 8, Ptr 64 (Some (Struct [Data [0xde, 0x0a], Out 2 (Int_arg 7), Array []])), Union_arg Csum, Nil_arg],
       c_res = Some 1, c_fail_nth = Some 3, c_async = True\<rparr>]"

theorem parse_prog_show_witness:
  "parse_prog X86_64 (show_prog sample_prog) = Some sample_prog \<and> length sample_prog = 1"
proof -
  have "max_depth = Suc (Suc (Suc (Suc (max_depth - 4))))" by (simp add: max_depth_def)
  then have args: "list_all (arg_ok max_depth) (c_args (hd sample_prog))"
    by (rule ssubst) (simp add: sample_prog_def)
  have "syscall_name X86_64 0 = Some ''read''"
    by (simp add: syscall_name_def call_table_def x86_64_table_def x86_64_calls_a_def)
  moreover have "byte_string (lit ''read'') = ''read''" by code_simp
  moreover have "[0..<max_syscall_nr + 1] = 0 # [1..<max_syscall_nr + 1]" by (simp del: upt_Suc add: upt_conv_Cons)
  ultimately have nr: "syscall_nr X86_64 (byte_string (lit ''read'')) = Some 0" by (simp del: upt_Suc add: syscall_nr_def)
  have "list_all (call_ok X86_64) sample_prog"
    using args nr by (simp add: sample_prog_def call_ok_def) (simp add: lit_def namec_def ascii_alnum_def)
  then show ?thesis using parse_prog_show [of X86_64 sample_prog] by (simp add: sample_prog_def)
qed

end
