(* ===== verification/Report_Spec.thy ===== *)
theory Report_Spec
  imports Report_Resolve Prog_Print
begin

text \<open>
  What \<open>aggregate\<close> of \<^verbatim>\<open>vock/src/report/resolve.rs\<close> makes of symbolizer answers, stated on the answers
  themselves: a location is a path, a line number and what addr2line may print after it, or one of the unresolved
  forms. Paths are lists of names; \<open>tree_path\<close> says on them where a file belongs in the kernel tree. The lemmas show that
  \<open>rel_kernel_path\<close> computes it on the printed paths and that \<open>parse_loc\<close> reads the printed locations.
\<close>

section \<open>Paths\<close>

definition name_ok :: "str \<Rightarrow> bool" where
  "name_ok c \<longleftrightarrow> c \<noteq> [] \<and> c \<noteq> lit ''.'' \<and> \<not> starts_with (lit ''..'') c \<and> 0x2f \<notin> set c \<and> utf8_lossy c = c"

definition path_ok :: "str list \<Rightarrow> bool" where
  "path_ok os \<longleftrightarrow> os \<noteq> [] \<and> list_all name_ok os"

definition abs_path :: "str list \<Rightarrow> str" where
  "abs_path os = concat (map (\<lambda>c. 0x2f # c) os)"

definition rel_path :: "str list \<Rightarrow> str" where
  "rel_path os = tl (abs_path os)"

definition dir_names :: "str list" where
  "dir_names = map lit [''arch'', ''fs'', ''net'', ''drivers'', ''kernel'', ''mm'', ''block'', ''security'', ''crypto'',
     ''lib'', ''ipc'', ''init'', ''include'', ''sound'', ''virt'', ''io_uring'']"

text \<open>The place of a file in the tree rooted at \<open>rs\<close>: relative to the root when it is below it; otherwise from the first
  directory on the path named like the first of the kernel's directories, in the order of the list, that the path goes
  through; otherwise the bare file name.\<close>

definition tree_path :: "str list \<Rightarrow> str list \<Rightarrow> str" where
  "tree_path rs os =
     (if os = rs then lit ''.''
      else if prefix rs os then rel_path (drop (length rs) os)
      else case find (\<lambda>d. d \<in> set (butlast os)) dir_names of
             Some d \<Rightarrow> rel_path (dropWhile (\<lambda>c. c \<noteq> d) os)
           | None \<Rightarrow> last os)"

lemma abs_path_simps [simp]: "abs_path [] = []" "abs_path (c # os) = 0x2f # c @ abs_path os"
  by (simp_all add: abs_path_def)

lemma split_on_abs: "list_all name_ok os \<Longrightarrow> 0x2f \<notin> set c \<Longrightarrow> split_on 0x2f (c @ abs_path os) = c # os"
proof (induction os arbitrary: c)
  case (Cons o' os)
  then show ?case by (simp add: split_on_app name_ok_def)
qed (simp add: split_on_none)

lemma components_abs:
  assumes "path_ok os"
  shows "components (abs_path os) = lit ''/'' # os"
proof -
  have "starts_with (lit ''/'') (abs_path os)" using assms by (cases os) (simp_all add: path_ok_def starts_with_def lit_def)
  moreover have "split_on 0x2f (abs_path os) = [] # os" using assms split_on_abs [of os "[]"] by (simp add: path_ok_def)
  moreover have "filter (\<lambda>f. f \<noteq> [] \<and> f \<noteq> lit ''.'') os = os"
    using assms by (auto simp: filter_id_conv path_ok_def name_ok_def list_all_iff)
  ultimately show ?thesis by (simp add: components_def Let_def)
qed

lemma common_len_le: "common_len xs ys \<le> length ys"
  by (induction xs ys rule: common_len.induct) auto

lemma common_len_prefix: "common_len xs ys = length ys \<longleftrightarrow> prefix ys xs"
  by (induction xs ys rule: common_len.induct) (auto simp: prefix_def)

lemma join_rel: "os \<noteq> [] \<Longrightarrow> join_with (lit ''/'') os = rel_path os"
  by (induction "lit ''/''" os rule: join_with.induct) (auto simp: rel_path_def lit_def)

lemma rel_path_dots: "name_ok c \<Longrightarrow> \<not> starts_with (lit ''..'') (rel_path (c # os))"
  by (cases c; cases "tl c"; cases os) (auto simp: name_ok_def rel_path_def starts_with_def lit_def)

lemma relpath_abs:
  assumes "path_ok os" and "path_ok rs"
  shows "if prefix rs os then relpath (abs_path os) (abs_path rs) = (if os = rs then lit ''.'' else rel_path (drop (length rs) os))
    else starts_with (lit ''..'') (relpath (abs_path os) (abs_path rs))"
proof -
  let ?i = "common_len os rs"
  have lossy: "map utf8_lossy xs = xs" if "set xs \<subseteq> set os" for xs
    using that assms(1) by (intro map_idI) (auto simp: path_ok_def name_ok_def list_all_iff)
  have parts: "relpath (abs_path os) (abs_path rs) = (let ps = replicate (length rs - ?i) (lit ''..'') @ drop ?i os
      in if ps = [] then lit ''.'' else join_with (lit ''/'') ps)"
    by (simp add: relpath_def components_abs assms Let_def lossy set_drop_subset)
  show ?thesis
  proof (cases "prefix rs os")
    case True
    then have "?i = length rs" by (simp only: common_len_prefix)
    moreover have "drop (length rs) os = [] \<longleftrightarrow> os = rs" using True by (auto simp: prefix_def)
    ultimately show ?thesis using True parts by (simp add: join_rel)
  next
    case False
    then have "?i < length rs" using common_len_le [of os rs] common_len_prefix [of os rs] by linarith
    then obtain n where "length rs - ?i = Suc n" by (cases "length rs - ?i") auto
    then have "relpath (abs_path os) (abs_path rs) = join_with (lit ''/'') (lit ''..'' # replicate n (lit ''..'') @ drop ?i os)"
      using parts by simp
    then have "starts_with (lit ''..'') (relpath (abs_path os) (abs_path rs))"
      by (simp add: join_rel rel_path_def starts_with_def)
    then show ?thesis using False by simp
  qed
qed

text \<open>A directory is found in the printed path exactly where the list of names has it.\<close>

lemma find_sub_skip: "0x2f \<notin> set c \<Longrightarrow> find_sub (0x2f # p) (c @ xs) = map_option (\<lambda>i. length c + i) (find_sub (0x2f # p) (xs :: str))"
  by (cases "find_sub (0x2f # p) xs"; induction c) (auto simp: starts_with_def)

lemma starts_with_name:
  assumes "0x2f \<notin> set c" and "0x2f \<notin> set d"
  shows "starts_with (d @ [0x2f]) (c @ abs_path os) \<longleftrightarrow> c = d \<and> os \<noteq> []"
proof
  assume "starts_with (d @ [0x2f]) (c @ abs_path os)"
  then obtain r where r: "c @ abs_path os = d @ 0x2f # r" by (auto simp: starts_with_prefix prefix_def)
  have "os \<noteq> []" using r assms(1) by (cases os) auto
  then obtain o' os' where "c @ 0x2f # o' @ abs_path os' = d @ 0x2f # r" using r by (cases os) auto
  then have "takeWhile (\<lambda>x. x \<noteq> 0x2f) (c @ 0x2f # o' @ abs_path os') = takeWhile (\<lambda>x. x \<noteq> 0x2f) (d @ 0x2f # r)" by simp
  moreover have "takeWhile (\<lambda>x. x \<noteq> 0x2f) (e @ 0x2f # t) = e" if "0x2f \<notin> set e" for e t :: str
    using that by (subst takeWhile_append2) auto
  ultimately show "c = d \<and> os \<noteq> []" using assms \<open>os \<noteq> []\<close> by simp
qed (cases os; simp add: starts_with_def)

lemma find_sub_dir:
  assumes "list_all name_ok os" and "0x2f \<notin> set d"
  shows "map_option (\<lambda>i. drop (i + 1) (abs_path os)) (find_sub (0x2f # d @ [0x2f]) (abs_path os)) =
    (if d \<in> set (butlast os) then Some (rel_path (dropWhile (\<lambda>c. c \<noteq> d) os)) else None)"
  using assms(1)
proof (induction os)
  case (Cons c os)
  have c: "0x2f \<notin> set c" using Cons.prems by (simp add: name_ok_def)
  have sw: "starts_with (0x2f # d @ [0x2f]) (0x2f # c @ abs_path os) \<longleftrightarrow> c = d \<and> os \<noteq> []"
    using starts_with_name [OF c assms(2), of os] by (simp add: starts_with_def)
  show ?case
  proof (cases "c = d \<and> os \<noteq> []")
    case True
    then show ?thesis using sw by (simp add: rel_path_def)
  next
    case False
    have "map_option (\<lambda>i. drop (i + 1) (abs_path (c # os))) (find_sub (0x2f # d @ [0x2f]) (abs_path (c # os))) =
        map_option (\<lambda>i. drop (i + 1) (abs_path os)) (find_sub (0x2f # d @ [0x2f]) (abs_path os))"
      using False sw by (simp add: find_sub_skip [OF c] option.map_comp comp_def)
    then show ?thesis using Cons False by (cases "os = []") auto
  qed
qed simp

lemma reroot_dirs:
  assumes "list_all name_ok os" and "\<forall>d \<in> set ds. 0x2f \<notin> set d"
  shows "reroot (map (\<lambda>d. d @ [0x2f]) ds) (abs_path os) =
    map_option (\<lambda>d. rel_path (dropWhile (\<lambda>c. c \<noteq> d) os)) (find (\<lambda>d. d \<in> set (butlast os)) ds)"
  using assms(2)
proof (induction ds)
  case (Cons d ds)
  have "lit ''/'' @ d @ [0x2f] = 0x2f # d @ [0x2f]" by (simp add: lit_def)
  then show ?case using Cons find_sub_dir [OF assms(1), of d] by (auto split: option.splits if_splits)
qed simp

lemma kernel_dirs_names: "kernel_dirs = map (\<lambda>d. d @ [0x2f]) dir_names" "\<forall>d \<in> set dir_names. 0x2f \<notin> set d"
  by (simp_all add: kernel_dirs_def dir_names_def lit_def)

lemma rposition_last: "x \<notin> set ys \<Longrightarrow> rposition (\<lambda>b. b = x) (xs @ x # ys) = Some (length xs)"
proof -
  assume x: "x \<notin> set ys"
  obtain k where k: "rposition (\<lambda>b. b = x) (xs @ x # ys) = Some k"
    using rposition_None [of "\<lambda>b. b = x" "xs @ x # ys"] by (cases "rposition (\<lambda>b. b = x) (xs @ x # ys)") auto
  note r = rposition_Some [OF k]
  have "\<not> k < length xs" using r(3) [of "length xs"] by auto
  moreover have "\<not> length xs < k" using r(1,2) x by (auto simp: nth_append nth_Cons')
  ultimately show ?thesis using k by simp
qed

lemma base_name:
  assumes "path_ok os"
  shows "\<exists>i. rposition (\<lambda>b. b = 0x2f) (abs_path os) = Some i \<and> drop (i + 1) (abs_path os) = last os"
proof -
  obtain us c where os: "os = us @ [c]" using assms by (cases os rule: rev_cases) (auto simp: path_ok_def)
  then have c: "0x2f \<notin> set c" using assms by (simp add: path_ok_def name_ok_def)
  have "abs_path os = abs_path us @ 0x2f # c" by (simp add: os abs_path_def)
  then show ?thesis using os rposition_last [of "0x2f" c "abs_path us"] c by simp
qed

lemma rel_kernel_path_tree:
  assumes "path_ok os" and "path_ok rs"
  shows "rel_kernel_path (abs_path os) (abs_path rs) = tree_path rs os"
proof (cases "prefix rs os")
  case True
  have "\<not> starts_with (lit ''..'') (relpath (abs_path os) (abs_path rs))"
  proof (cases "drop (length rs) os")
    case Nil
    then show ?thesis using True relpath_abs [OF assms] by (auto simp: prefix_def starts_with_def lit_def)
  next
    case (Cons c us)
    then have "c \<in> set os" by (metis in_set_dropD list.set_intros(1))
    then have "name_ok c" using assms(1) by (simp add: path_ok_def list_all_iff)
    then show ?thesis using True Cons relpath_abs [OF assms] rel_path_dots by (auto simp: starts_with_def lit_def)
  qed
  then show ?thesis using True relpath_abs [OF assms] by (simp add: rel_kernel_path_def tree_path_def Let_def)
next
  case False
  moreover have "list_all name_ok os" using assms(1) by (simp add: path_ok_def)
  ultimately show ?thesis
    using relpath_abs [OF assms] base_name [OF assms(1)] reroot_dirs [OF _ kernel_dirs_names(2), of os]
    by (auto simp: rel_kernel_path_def tree_path_def kernel_dirs_names(1) Let_def split: option.splits)
qed

section \<open>Locations\<close>

text \<open>What a symbolizer prints for an address: a file with a line and possibly more after a blank, such as
  \<^verbatim>\<open>(discriminator 3)\<close>; the same without a file; a file whose line is not known; anything else.\<close>

datatype loc = At "str list" nat str | No_file nat str | No_line str | No_colon str

fun loc_text :: "loc \<Rightarrow> str" where
  "loc_text (At os n s) = abs_path os @ lit '':'' @ show_dec n @ s"
| "loc_text (No_file n s) = lit ''??:'' @ show_dec n @ s"
| "loc_text (No_line f) = f @ lit '':?''"
| "loc_text (No_colon f) = f"

definition tail_ok :: "str \<Rightarrow> bool" where
  "tail_ok s \<longleftrightarrow> (s = [] \<or> hd s = 0x20) \<and> 0x3a \<notin> set s"

fun loc_ok :: "loc \<Rightarrow> bool" where
  "loc_ok (At os n s) = (path_ok os \<and> n < 2 ^ 64 \<and> tail_ok s)"
| "loc_ok (No_file n s) = (n < 2 ^ 64 \<and> tail_ok s)"
| "loc_ok (No_line f) = True"
| "loc_ok (No_colon f) = (0x3a \<notin> set f)"

text \<open>Whether a location denotes line \<open>n\<close> of the file \<open>f\<close> of the tree at \<open>rs\<close>; line 0 is not a source line.\<close>

fun loc_at :: "str list \<Rightarrow> str \<Rightarrow> nat \<Rightarrow> loc \<Rightarrow> bool" where
  "loc_at rs f n (At os m s) = (m = n \<and> m \<noteq> 0 \<and> f = tree_path rs os)"
| "loc_at rs f n l = False"

lemma until_ws_visible: "list_all visible xs \<Longrightarrow> until_ws (xs @ ys) = xs @ until_ws ys"
proof (induction xs)
  case (Cons x xs)
  have "trim_ws unicode_ws (x # xs @ ys) = x # xs @ ys" using Cons.prems by (simp add: trim_ws_visible unicode_ws_invisible)
  then have t: "(case strip_one unicode_ws (x # xs @ ys) of None \<Rightarrow> x # xs @ ys | Some zs \<Rightarrow> trim_ws unicode_ws zs) = x # xs @ ys"
    by (subst (asm) trim_ws.simps)
  have "strip_one unicode_ws (x # xs @ ys) = None"
  proof (cases "strip_one unicode_ws (x # xs @ ys)")
    case (Some zs)
    then have "trim_ws unicode_ws zs = x # xs @ ys" using t by simp
    then show ?thesis using length_trim_ws [of unicode_ws zs] strip_one_shorter [OF Some] by simp
  qed
  then show ?case using Cons by simp
qed simp

lemma first_word_number:
  assumes "tail_ok s"
  shows "first_word (show_dec n @ s) = Some (show_dec n)"
proof -
  have v: "list_all visible (show_dec n)" by (rule list_all_mono [OF show_alnum(2) alnum_visible])
  have "until_ws s = []" using assms by (cases s) (auto simp: tail_ok_def unicode_ws_def starts_with_def)
  then have "until_ws (show_dec n @ s) = show_dec n" using until_ws_visible [OF v, of s] by simp
  moreover have "str_trim_start (show_dec n @ s) = show_dec n @ s"
    using v show_dec_all(1) [of n] by (cases "show_dec n") (simp_all add: str_trim_start_def trim_ws_visible unicode_ws_invisible)
  ultimately show ?thesis using show_dec_all(1) [of n] by (cases "show_dec n") (simp_all add: first_word_def)
qed

lemma parse_loc_number:
  assumes "n < 2 ^ 64" and "tail_ok s"
  shows "parse_loc (f @ 0x3a # show_dec n @ s) = (if f = lit ''??'' \<or> n = 0 then None else Some (f, n))"
proof -
  have "0x3a \<notin> set (show_dec n)" using show_dec_all(2) [of n] by (auto simp: list_all_iff ascii_digit_def)
  then have "rposition (\<lambda>b. b = 0x3a) (f @ 0x3a # show_dec n @ s) = Some (length f)"
    using assms(2) by (intro rposition_last) (simp add: tail_ok_def)
  then show ?thesis using first_word_number [OF assms(2)] parse_usize_show [OF assms(1)] by (simp add: parse_loc_def Let_def)
qed

lemma parse_loc_no_line: "parse_loc (f @ lit '':?'') = None"
proof -
  have "rposition (\<lambda>b. b = 0x3a) (f @ lit '':?'') = Some (length f)" using rposition_last [of "0x3a" "[0x3f]" f] by (simp add: lit_def)
  moreover have "first_word [0x3f] = Some [0x3f]" "parse_usize [0x3f] = None" by code_simp+
  ultimately show ?thesis by (simp add: parse_loc_def Let_def lit_def)
qed

lemma loc_hits_text:
  assumes "path_ok rs" and "loc_ok l"
  shows "loc_hits (abs_path rs) f n (func, loc_text l) \<longleftrightarrow> loc_at rs f n l"
proof (cases l)
  case (At os m s)
  have "abs_path os \<noteq> lit ''??''" using assms At by (cases os) (auto simp: path_ok_def lit_def)
  then show ?thesis using assms At parse_loc_number [of m s "abs_path os"] rel_kernel_path_tree [of os rs]
    by (auto simp: loc_hits_def lit_def)
next
  case (No_file m s)
  then show ?thesis using assms parse_loc_number [of m s "lit ''??''"] by (simp add: loc_hits_def lit_def)
next
  case (No_line g)
  then show ?thesis by (simp add: loc_hits_def parse_loc_no_line)
next
  case (No_colon g)
  then have "rposition (\<lambda>b. b = 0x3a) g = None" using assms by (auto simp: rposition_None)
  then show ?thesis using No_colon by (simp add: loc_hits_def parse_loc_def)
qed

section \<open>Properties\<close>

text \<open>C10. Aggregation of symbolizer answers. A line is in the coverage map exactly when some answer gives it: a file with
  that line number, not 0, whose place in the kernel tree - relative to the tree's root, or else from the kernel
  directory it goes through, or else its bare name - is the file of the map. What follows the number is ignored, and
  answers without a file, without a line number or without a colon add nothing. The function recorded for a line is
  that of the last answer for it that names one.\<close>

theorem aggregate_spec:
  fixes rs :: "str list" and ls :: "(str \<times> loc) list"
  defines "r \<equiv> aggregate (map (\<lambda>(func, l). (func, loc_text l)) ls) (abs_path rs)"
  assumes "path_ok rs" and "list_all (\<lambda>(func, l). loc_ok l) ls"
  shows "(covered (fst r) f n \<longleftrightarrow> list_ex (\<lambda>(func, l). loc_at rs f n l) ls) \<and>
    (case snd r f of Some g \<Rightarrow> g n | None \<Rightarrow> None) =
      map_option fst (find (\<lambda>(func, l). loc_at rs f n l \<and> func \<noteq> lit ''??'' \<and> func \<noteq> []) (rev ls))"
proof
  let ?t = "\<lambda>(func, l). (func, loc_text l)"
  have hits: "loc_hits (abs_path rs) f n (?t x) \<longleftrightarrow> loc_at rs f n (snd x)" if "x \<in> set ls" for x
    using that assms(2,3) loc_hits_text by (auto simp: list_all_iff split: prod.splits)
  then show "covered (fst r) f n \<longleftrightarrow> list_ex (\<lambda>(func, l). loc_at rs f n l) ls"
    unfolding r_def aggregate_hits(1) by (simp add: list_ex_iff split_def)
  have "find (func_hit (abs_path rs) f n) (map ?t xs) =
      map_option ?t (find (\<lambda>(func, l). loc_at rs f n l \<and> func \<noteq> lit ''??'' \<and> func \<noteq> []) xs)" if "set xs \<subseteq> set ls" for xs
    using that hits by (induction xs) (auto simp: func_hit_def split: prod.splits)
  from this [of "rev ls"] show "(case snd r f of Some g \<Rightarrow> g n | None \<Rightarrow> None) =
      map_option fst (find (\<lambda>(func, l). loc_at rs f n l \<and> func \<noteq> lit ''??'' \<and> func \<noteq> []) (rev ls))"
    unfolding r_def aggregate_hits(2) by (simp add: rev_map option.map_comp comp_def split_def)
qed

theorem aggregate_spec_witness:
  "covered (fst (aggregate [(lit ''do_open'', lit ''/b/linux/fs/open.c:12 (discriminator 3)''), (lit ''x'', lit ''??:7'')] (lit ''/b/linux'')))
     (lit ''fs/open.c'') 12 \<and>
   \<not> covered (fst (aggregate [(lit ''do_open'', lit ''/b/linux/fs/open.c:12 (discriminator 3)''), (lit ''x'', lit ''??:7'')] (lit ''/b/linux'')))
     (lit ''??'') 7"
proof -
  let ?rs = "[lit ''b'', lit ''linux'']" and ?os = "[lit ''b'', lit ''linux'', lit ''fs'', lit ''open.c'']"
  let ?ls = "[(lit ''do_open'', At ?os 12 (lit '' (discriminator 3)'')), (lit ''x'', No_file 7 [])]"
  have names: "name_ok (lit ''b'')" "name_ok (lit ''linux'')" "name_ok (lit ''fs'')" "name_ok (lit ''open.c'')" by code_simp+
  then have ok: "path_ok ?rs" "list_all (\<lambda>(func, l). loc_ok l) ?ls"
    by (simp_all add: path_ok_def tail_ok_def) (simp_all add: lit_def)
  have "map (\<lambda>(func, l). (func, loc_text l)) ?ls =
      [(lit ''do_open'', lit ''/b/linux/fs/open.c:12 (discriminator 3)''), (lit ''x'', lit ''??:7'')]" "abs_path ?rs = lit ''/b/linux''"
    "tree_path ?rs ?os = lit ''fs/open.c''" by code_simp+
  with aggregate_spec [OF ok, of "lit ''fs/open.c''" 12] aggregate_spec [OF ok, of "lit ''??''" 7] show ?thesis by simp
qed

end
