(* ===== verification/Inflate_Spec.thy ===== *)
theory Inflate_Spec
  imports Inflate
begin

text \<open>
  Correctness of the image decoder. The bit reader is related to the list of bits still to be read
  (\<open>br_stream\<close>); on that view reading \<open>n\<close> bits is \<open>take n\<close> and \<open>drop n\<close>, a canonical Huffman code word
  is a bit list, and stored blocks and base64 text have encoders the decoders invert.
\<close>

section \<open>The bit reader as a list of bits\<close>

definition byte_bits :: "u8 \<Rightarrow> bool list" where
  "byte_bits b = map (bit b) [0..<8]"

definition br_stream :: "br \<Rightarrow> bool list" where
  "br_stream r = map (bit (br_buf r)) [0..<br_cnt r] @ concat (map byte_bits (drop (br_pos r) (br_data r)))"

definition br_clear :: "br \<Rightarrow> bool" where
  "br_clear r \<longleftrightarrow> (\<forall>k. br_cnt r \<le> k \<longrightarrow> \<not> bit (br_buf r) k)"

definition br_ok :: "br \<Rightarrow> bool" where
  "br_ok r \<longleftrightarrow> br_cnt r < 8 \<and> br_clear r"

definition bits_nat :: "bool list \<Rightarrow> nat" where
  "bits_nat bs = horner_sum of_bool 2 bs"

lemma length_byte_bits [simp]: "length (byte_bits b) = 8"
  by (simp add: byte_bits_def)

lemma fill_step:
  assumes b: "nth_opt (br_data r) (br_pos r) = Some b" and cnt: "br_cnt r + 8 \<le> 32" and "br_clear r"
  defines "r1 \<equiv> r\<lparr>br_pos := br_pos r + 1, br_buf := br_buf r OR push_bit (br_cnt r) (ucast b),
                br_cnt := br_cnt r + 8\<rparr>"
  shows "br_stream r1 = br_stream r" and "br_clear r1"
proof -
  let ?new = "br_buf r OR push_bit (br_cnt r) (ucast b)"
  have new: "bit ?new k \<longleftrightarrow> (if k < br_cnt r then bit (br_buf r) k else k < 32 \<and> bit b (k - br_cnt r))" for k
    using assms(3) by (auto simp: bit_simps br_clear_def)
  have "map (bit ?new) [0..<br_cnt r + 8] = map (bit (br_buf r)) [0..<br_cnt r] @ byte_bits b"
    using cnt by (intro nth_equalityI) (auto simp: new nth_append byte_bits_def)
  moreover have "drop (br_pos r) (br_data r) = b # drop (br_pos r + 1) (br_data r)"
    using b by (auto simp: Cons_nth_drop_Suc)
  ultimately show "br_stream r1 = br_stream r" by (simp add: r1_def br_stream_def)
  show "br_clear r1"
    by (auto simp: r1_def br_clear_def new dest!: bit_imp_le_length)
qed

lemma br_fill_spec:
  "br_clear r \<Longrightarrow> n \<le> 16 \<Longrightarrow> br_cnt r < n + 8 \<Longrightarrow>
   (case br_fill n r of
      None \<Rightarrow> length (br_stream r) < n
    | Some r' \<Rightarrow> br_stream r' = br_stream r \<and> br_clear r' \<and> n \<le> br_cnt r' \<and> br_cnt r' < n + 8)"
proof (induction n r rule: br_fill.induct)
  case (1 n r)
  show ?case
  proof (cases "br_cnt r < n")
    case False
    with 1 show ?thesis by (subst br_fill.simps) simp
  next
    case True
    show ?thesis
    proof (cases "nth_opt (br_data r) (br_pos r)")
      case None
      with True show ?thesis by (subst br_fill.simps) (simp add: br_stream_def nth_opt_def split: if_splits)
    next
      case (Some b)
      have c: "br_cnt r + 8 \<le> 32" using True 1(3) by simp
      note s = fill_step [OF Some c 1(2)]
      from 1(1) [OF True Some s(2) 1(3), unfolded s(1)] True show ?thesis
        by (subst br_fill.simps) (simp add: Some)
    qed
  qed
qed

lemma bit_bits_nat: "bit (bits_nat bs) k \<longleftrightarrow> k < length bs \<and> bs ! k"
  by (simp add: bits_nat_def bit_horner_sum_bit_iff)

lemma mask_bits: "w AND (2 ^ n - 1) = take_bit n (w :: u32)"
  by (simp add: take_bit_eq_mask mask_eq_exp_minus_1)

lemma br_bits_spec:
  assumes "br_ok r" and "n \<le> 16"
  shows "case br_bits n r of
      None \<Rightarrow> length (br_stream r) < n
    | Some (v, r') \<Rightarrow> n \<le> length (br_stream r) \<and> unat v = bits_nat (take n (br_stream r)) \<and>
        br_stream r' = drop n (br_stream r) \<and> br_ok r'"
proof (cases "n = 0")
  case True
  with assms show ?thesis by (simp add: br_bits_def bits_nat_def)
next
  case False
  have f: "case br_fill n r of
      None \<Rightarrow> length (br_stream r) < n
    | Some r' \<Rightarrow> br_stream r' = br_stream r \<and> br_clear r' \<and> n \<le> br_cnt r' \<and> br_cnt r' < n + 8"
    using assms by (intro br_fill_spec) (auto simp: br_ok_def)
  show ?thesis
  proof (cases "br_fill n r")
    case None
    with f False show ?thesis by (simp add: br_bits_def)
  next
    case (Some s)
    with f have s: "br_stream s = br_stream r" "br_clear s" "n \<le> br_cnt s" "br_cnt s < n + 8" by auto
    let ?v = "take_bit n (br_buf s)"
    let ?r' = "s\<lparr>br_buf := drop_bit n (br_buf s), br_cnt := br_cnt s - n\<rparr>"
    have len: "n \<le> length (br_stream r)" using s(1,3) by (metis br_stream_def length_append length_map length_upt diff_zero trans_le_add1)
    have pre: "take n (br_stream r) = map (bit (br_buf s)) [0..<n]"
      unfolding s(1) [symmetric] using s(3) by (simp add: br_stream_def take_map)
    have "unat ?v = bits_nat (take n (br_stream r))"
      unfolding pre
      by (rule bit_eqI) (auto simp: bit_bits_nat bit_unsigned_iff bit_simps)
    moreover have "br_stream ?r' = drop n (br_stream r)"
      unfolding s(1) [symmetric] using s(3)
      by (auto simp: br_stream_def drop_map bit_drop_bit_eq intro!: nth_equalityI)
    moreover have "br_ok ?r'"
      using s by (auto simp: br_ok_def br_clear_def bit_drop_bit_eq)
    ultimately show ?thesis using False Some len by (simp add: br_bits_def mask_bits)
  qed
qed

lemma br_bits_Some:
  assumes "br_ok r" and "length bs \<le> 16" and "br_stream r = bs @ rest"
  shows "\<exists>v r'. br_bits (length bs) r = Some (v, r') \<and> unat v = bits_nat bs \<and> br_stream r' = rest \<and> br_ok r'"
proof (cases "br_bits (length bs) r")
  case None
  with br_bits_spec [OF assms(1,2)] assms(3) show ?thesis by simp
next
  case (Some x)
  obtain v r' where x: "x = (v, r')" by (cases x)
  from br_bits_spec [OF assms(1,2)] have "unat v = bits_nat (take (length bs) (br_stream r)) \<and>
    br_stream r' = drop (length bs) (br_stream r) \<and> br_ok r'"
    by (simp only: Some x option.case prod.case)
  then have "unat v = bits_nat bs \<and> br_stream r' = rest \<and> br_ok r'" by (simp only: assms(3)) simp
  with Some show ?thesis unfolding x by (intro exI conjI) auto
qed

lemma br_bit_Some:
  assumes "br_ok r" and "br_stream r = b # rest"
  shows "\<exists>v r'. br_bits 1 r = Some (v, r') \<and> uint v = of_bool b \<and> br_stream r' = rest \<and> br_ok r'"
proof -
  from assms br_bits_Some [of r "[b]" rest] obtain v r'
    where "br_bits 1 r = Some (v, r')" "unat v = bits_nat [b]" "br_stream r' = rest" "br_ok r'" by auto
  moreover from this(2) have "uint v = of_bool b" by (simp add: bits_nat_def uint_nat)
  ultimately show ?thesis by blast
qed

lemma br_new_ok: "br_ok (br_new d)"
  by (simp add: br_ok_def br_clear_def br_new_def)

lemma br_new_stream: "br_stream (br_new d) = concat (map byte_bits d)"
  by (simp add: br_stream_def br_new_def)

section \<open>Canonical Huffman codes\<close>

text \<open>The code words of RFC 1951, 3.2.2: \<open>first_code\<close> is the first code of a length, symbols of equal length
  take consecutive codes in symbol order, and a code word is read from its most significant bit.\<close>

definition count_len :: "nat list \<Rightarrow> nat \<Rightarrow> nat" where
  "count_len lengths l = length (filter (\<lambda>x. x = l) lengths)"

fun first_code :: "nat list \<Rightarrow> nat \<Rightarrow> nat" where
  "first_code lengths 0 = 0"
| "first_code lengths (Suc l) = 2 * (first_code lengths l + (if l = 0 then 0 else count_len lengths l))"

definition rank_of :: "nat list \<Rightarrow> nat \<Rightarrow> nat" where
  "rank_of lengths s = count_len (take s lengths) (lengths ! s)"

definition code_of :: "nat list \<Rightarrow> nat \<Rightarrow> nat" where
  "code_of lengths s = first_code lengths (lengths ! s) + rank_of lengths s"

definition msb_bits :: "nat \<Rightarrow> nat \<Rightarrow> bool list" where
  "msb_bits l c = map (\<lambda>i. bit c (l - 1 - i)) [0..<l]"

fun first_index :: "nat list \<Rightarrow> nat \<Rightarrow> nat" where
  "first_index lengths 0 = 0"
| "first_index lengths (Suc l) = first_index lengths l + (if l = 0 then 0 else count_len lengths l)"

lemma count_len_append: "count_len (xs @ ys) l = count_len xs l + count_len ys l"
  by (simp add: count_len_def)

lemma rank_less: "s < length lengths \<Longrightarrow> rank_of lengths s < count_len lengths (lengths ! s)"
proof -
  assume s: "s < length lengths"
  then have "lengths = take s lengths @ lengths ! s # drop (Suc s) lengths" by (simp add: id_take_nth_drop)
  then have "count_len lengths (lengths ! s) =
      count_len (take s lengths) (lengths ! s) + count_len (lengths ! s # drop (Suc s) lengths) (lengths ! s)"
    using count_len_append by metis
  then show ?thesis by (simp add: rank_of_def count_len_def)
qed

subsection \<open>The table\<close>

lemma huff_counts_fold:
  "length c = 16 \<Longrightarrow> list_all (\<lambda>l. l \<le> 15) ls \<Longrightarrow>
     length (foldl (\<lambda>c l. c[l := c ! l + 1]) c ls) = 16 \<and>
     (\<forall>l\<le>15. foldl (\<lambda>c l. c[l := c ! l + 1]) c ls ! l = c ! l + count_len ls l)"
proof (induction ls arbitrary: c)
  case (Cons x ls)
  then show ?case by (auto simp: count_len_def nth_list_update)
qed (simp add: count_len_def)

lemma huff_counts_nth:
  assumes "list_all (\<lambda>l. l \<le> 15) lengths" and "l \<le> 15"
  shows "huff_counts lengths ! l = (if l = 0 then 0 else count_len lengths l)"
  using huff_counts_fold [of "replicate 16 0" lengths] assms
  by (auto simp: huff_counts_def max_bits_def nth_list_update)

lemma length_huff_counts: "length (huff_counts lengths) = 16"
proof -
  have "length (foldl (\<lambda>c l. c[l := c ! l + 1]) c ls) = length c" for c :: "nat list" and ls
    by (induction ls arbitrary: c) simp_all
  then show ?thesis by (simp add: huff_counts_def max_bits_def)
qed

lemma huff_offs_fold:
  assumes "list_all (\<lambda>l. l \<le> 15) lengths" and "length os = 17" and "os ! 1 = 0" and "n \<le> 15" and "1 \<le> n"
  shows "length (foldl (\<lambda>os len. os[len + 1 := os ! len + huff_counts lengths ! len]) os [1..<n]) = 17 \<and>
    (\<forall>l. 1 \<le> l \<longrightarrow> l \<le> n \<longrightarrow>
      foldl (\<lambda>os len. os[len + 1 := os ! len + huff_counts lengths ! len]) os [1..<n] ! l = first_index lengths l)"
  using assms(5,4)
proof (induction n rule: nat_induct_at_least)
  case base
  then show ?case using assms(2,3) by auto
next
  case (Suc n)
  then show ?case
    by (auto simp: upt_Suc_append nth_list_update huff_counts_nth [OF assms(1)] le_Suc_eq)
qed

lemma huff_offs_nth:
  assumes "list_all (\<lambda>l. l \<le> 15) lengths" and "1 \<le> l" and "l \<le> 15"
  shows "huff_offs (huff_counts lengths) ! l = first_index lengths l"
  using huff_offs_fold [OF assms(1), of "replicate 17 0" 15] assms(2,3)
  by (simp add: huff_offs_def max_bits_def)

definition slot_of :: "nat list \<Rightarrow> nat \<Rightarrow> nat" where
  "slot_of lengths s = first_index lengths (lengths ! s) + rank_of lengths s"

lemma first_index_filter: "first_index lengths l = length (filter (\<lambda>x. 0 < x \<and> x < l) lengths)"
proof (induction l)
  case (Suc l)
  have "length (filter (\<lambda>x. 0 < x \<and> x < Suc l) xs) =
      length (filter (\<lambda>x. 0 < x \<and> x < l) xs) + (if l = 0 then 0 else count_len xs l)" for xs
    by (induction xs) (auto simp: count_len_def less_Suc_eq)
  with Suc show ?case by simp
qed simp

lemma first_index_mono: "l \<le> m \<Longrightarrow> first_index lengths l \<le> first_index lengths m"
  by (induction m) (auto simp: le_Suc_eq)

lemma slot_bounds:
  assumes "s < length lengths" and "0 < lengths ! s"
  shows "first_index lengths (lengths ! s) \<le> slot_of lengths s"
    and "slot_of lengths s < first_index lengths (Suc (lengths ! s))"
    and "slot_of lengths s < length lengths"
proof -
  show "first_index lengths (lengths ! s) \<le> slot_of lengths s" by (simp add: slot_of_def)
  show 2: "slot_of lengths s < first_index lengths (Suc (lengths ! s))"
    using rank_less [OF assms(1)] assms(2) by (simp add: slot_of_def)
  have "first_index lengths (Suc (lengths ! s)) \<le> length lengths"
    unfolding first_index_filter by (rule length_filter_le)
  with 2 show "slot_of lengths s < length lengths" by linarith
qed

lemma rank_strict:
  assumes "s < k" and "k < length lengths" and "lengths ! s = lengths ! k"
  shows "rank_of lengths s < rank_of lengths k"
proof -
  have "take k lengths = take s lengths @ drop s (take k lengths)"
    by (metis append_take_drop_id assms(1) min.absorb1 order.strict_implies_order take_take)
  then have "count_len (take k lengths) (lengths ! k) =
      count_len (take s lengths) (lengths ! k) + count_len (drop s (take k lengths)) (lengths ! k)"
    by (metis count_len_append)
  moreover have "drop s (take k lengths) = lengths ! s # drop (Suc s) (take k lengths)"
    using assms(1,2) by (simp add: Cons_nth_drop_Suc [symmetric])
  ultimately show ?thesis using assms(3) by (simp add: rank_of_def count_len_def)
qed

lemma slot_inj:
  assumes "s < k" and "k < length lengths" and "0 < lengths ! s" and "0 < lengths ! k"
  shows "slot_of lengths s \<noteq> slot_of lengths k"
proof (cases "lengths ! s = lengths ! k")
  case True
  with rank_strict [OF assms(1,2) True] show ?thesis by (simp add: slot_of_def)
next
  case False
  have s: "s < length lengths" using assms by simp
  show ?thesis
    using False slot_bounds [OF s assms(3)] slot_bounds [OF assms(2,4)]
      first_index_mono [of "Suc (lengths ! s)" "lengths ! k" lengths]
      first_index_mono [of "Suc (lengths ! k)" "lengths ! s" lengths]
    by (cases "lengths ! s < lengths ! k") simp_all
qed

lemma zip_upt_Suc:
  "k < length xs \<Longrightarrow> zip [0..<Suc k] (take (Suc k) xs) = zip [0..<k] (take k xs) @ [(k, xs ! k)]"
  by (simp add: take_Suc_conv_app_nth)

text \<open>The placement loop after \<open>k\<close> symbols.\<close>

lemma huff_place_fold:
  assumes "list_all (\<lambda>l. l \<le> 15) lengths" and "k \<le> length lengths"
    and "length os = 17" and "\<And>l. 1 \<le> l \<Longrightarrow> l \<le> 15 \<Longrightarrow> os ! l = first_index lengths l"
  shows "case foldl huff_place (os, replicate (length lengths) 0) (zip [0..<k] (take k lengths)) of
    (os', symbols) \<Rightarrow> length os' = 17 \<and> length symbols = length lengths \<and>
      (\<forall>l. 1 \<le> l \<longrightarrow> l \<le> 15 \<longrightarrow> os' ! l = first_index lengths l + count_len (take k lengths) l) \<and>
      (\<forall>s<k. 0 < lengths ! s \<longrightarrow> symbols ! slot_of lengths s = s)"
  using assms(2)
proof (induction k)
  case 0
  then show ?case using assms(3,4) by (simp add: count_len_def)
next
  case (Suc k)
  then have k: "k < length lengths" by simp
  obtain os' symbols where st: "foldl huff_place (os, replicate (length lengths) 0) (zip [0..<k] (take k lengths)) =
      (os', symbols)" by (metis prod.exhaust)
  with Suc have IH: "length os' = 17" "length symbols = length lengths"
    "\<And>l. 1 \<le> l \<Longrightarrow> l \<le> 15 \<Longrightarrow> os' ! l = first_index lengths l + count_len (take k lengths) l"
    "\<And>s. s < k \<Longrightarrow> 0 < lengths ! s \<Longrightarrow> symbols ! slot_of lengths s = s" by auto
  have step: "foldl huff_place (os, replicate (length lengths) 0) (zip [0..<Suc k] (take (Suc k) lengths)) =
      huff_place (os', symbols) (k, lengths ! k)"
    unfolding zip_upt_Suc [OF k] by (simp add: st)
  have le: "lengths ! k \<le> 15" using assms(1) k by (simp add: list_all_length)
  have cnt: "count_len (take (Suc k) lengths) l = count_len (take k lengths) l + (if lengths ! k = l then 1 else 0)" for l
    using k by (simp add: take_Suc_conv_app_nth count_len_def)
  show ?case
  proof (cases "lengths ! k = 0")
    case True
    with IH show ?thesis unfolding step by (auto simp: huff_place_def cnt less_Suc_eq)
  next
    case False
    then have slot: "os' ! (lengths ! k) = slot_of lengths k"
      using IH(3) [of "lengths ! k"] le by (simp add: slot_of_def rank_of_def)
    moreover have "slot_of lengths k < length lengths" using slot_bounds(3) [OF k] False by simp
    ultimately show ?thesis
      unfolding step using IH False le slot_inj [of _ k lengths] k
      by (auto simp: huff_place_def cnt less_Suc_eq nth_list_update Let_def) (metis gr0I)
  qed
qed

lemma huff_new_symbol:
  assumes "list_all (\<lambda>l. l \<le> 15) lengths" and "s < length lengths" and "0 < lengths ! s"
  shows "nth_opt (h_symbols (huff_new lengths)) (slot_of lengths s) = Some s"
proof -
  have "length (huff_offs c) = 17" for c
  proof -
    have "length (foldl (\<lambda>os len. os[len + 1 := os ! len + c ! len]) os ls) = length os" for os :: "nat list" and ls
      by (induction ls arbitrary: os) simp_all
    then show ?thesis by (simp add: huff_offs_def max_bits_def)
  qed
  from huff_place_fold [OF assms(1) order.refl this [of "huff_counts lengths"] huff_offs_nth [OF assms(1)]]
    slot_bounds(3) [OF assms(2,3)] assms(2,3)
  show ?thesis by (auto simp: huff_new_def Let_def split: prod.splits)
qed

subsection \<open>Decoding a code word\<close>

lemma first_code_grow:
  "1 \<le> len \<Longrightarrow> len < L \<Longrightarrow> 2 ^ (L - len) * (first_code lengths len + count_len lengths len) \<le> first_code lengths L"
proof (induction L)
  case (Suc L)
  show ?case
  proof (cases "len = L")
    case True
    with Suc.prems show ?thesis by simp
  next
    case False
    with Suc have "2 ^ (L - len) * (first_code lengths len + count_len lengths len) \<le> first_code lengths L" by simp
    with Suc.prems False show ?thesis by (simp add: Suc_diff_le)
  qed
qed simp

lemma code_bit_step: "2 * int (c div 2 ^ Suc k) OR of_bool (bit c k) = int (c div 2 ^ k)"
proof -
  have "c div 2 ^ Suc k = c div 2 ^ k div 2" by (simp only: power_Suc2 div_mult2_eq)
  moreover have "of_bool (bit c k) = c div 2 ^ k mod 2" by (simp add: bit_iff_odd mod_2_eq_odd)
  ultimately have "c div 2 ^ k = 2 * (c div 2 ^ Suc k) + of_bool (bit c k)" by simp
  then show ?thesis by (cases "bit c k") (simp_all add: or_one_eq)
qed

lemma huff_loop_code:
  assumes lens: "list_all (\<lambda>l. l \<le> 15) lengths" and s: "s < length lengths" "0 < lengths ! s"
  defines "L \<equiv> lengths ! s" and "c \<equiv> code_of lengths s"
  shows "1 \<le> len \<Longrightarrow> len \<le> L \<Longrightarrow> br_ok r \<Longrightarrow>
    br_stream r = map (\<lambda>i. bit c (L - 1 - i)) [len - 1..<L] @ rest \<Longrightarrow>
    \<exists>r'. huff_loop (huff_new lengths) [len..<16] (2 * int (c div 2 ^ (L - len + 1)))
        (int (first_code lengths len)) (int (first_index lengths len)) r = Some (s, r') \<and>
      br_ok r' \<and> br_stream r' = rest"
proof (induction "L - len" arbitrary: len r)
  case 0
  then have len: "len = L" by simp
  have L: "L \<le> 15" using lens s(1) by (simp add: L_def list_all_length)
  have "br_stream r = bit c 0 # rest" using 0 s(2) by (simp add: len L_def upt_conv_Cons)
  from br_bit_Some [OF 0(4) this] obtain v r'
    where v: "br_bits 1 r = Some (v, r')" and uv: "uint v = of_bool (bit c 0)" and r': "br_stream r' = rest" "br_ok r'"
    by blast
  have code: "2 * int (c div 2 ^ (L - len + 1)) OR uint v = int c"
    using code_bit_step [of c 0] by (simp add: len uv)
  have "c = first_code lengths L + rank_of lengths s" by (simp add: c_def code_of_def L_def)
  moreover have "rank_of lengths s < count_len lengths L" using rank_less [OF s(1)] by (simp add: L_def)
  moreover have "h_counts (huff_new lengths) ! L = count_len lengths L"
    using huff_counts_nth [OF lens L] s(2) by (simp add: huff_new_def Let_def L_def)
  moreover have "first_index lengths L + rank_of lengths s = slot_of lengths s" by (simp add: slot_of_def L_def)
  ultimately show ?case
    using L s(2) r' v code
    by (auto simp: len upt_conv_Cons Let_def nat_add_distrib algebra_simps huff_new_symbol [OF lens s])
next
  case (Suc d)
  then have len: "len < L" by simp
  have L: "L \<le> 15" using lens s(1) by (simp add: L_def list_all_length)
  let ?b = "bit c (L - len)"
  have "br_stream r = ?b # map (\<lambda>i. bit c (L - 1 - i)) [len..<L] @ rest"
    using Suc.prems(1,4) len by (simp add: upt_conv_Cons)
  from br_bit_Some [OF Suc.prems(3) this] obtain v r1 where v: "br_bits 1 r = Some (v, r1)" and uv: "uint v = of_bool ?b"
    and r1: "br_stream r1 = map (\<lambda>i. bit c (L - 1 - i)) [len..<L] @ rest" "br_ok r1" by blast
  have code: "2 * int (c div 2 ^ (L - len + 1)) OR uint v = int (c div 2 ^ (L - len))"
    using code_bit_step [of c "L - len"] by (simp add: uv)
  have cnt: "h_counts (huff_new lengths) ! len = count_len lengths len"
    using huff_counts_nth [OF lens, of len] Suc.prems(1) len L by (simp add: huff_new_def Let_def)
  have "2 ^ (L - len) * (first_code lengths len + count_len lengths len) \<le> c"
    using first_code_grow [OF Suc.prems(1) len, of lengths] by (simp add: c_def code_of_def L_def)
  then have "first_code lengths len + count_len lengths len \<le> c div 2 ^ (L - len)"
    by (simp add: less_eq_div_iff_mult_less_eq mult.commute)
  then have reject: "\<not> int (c div 2 ^ (L - len)) - int (count_len lengths len) < int (first_code lengths len)"
    by linarith
  have e: "L - Suc len + 1 = L - len" using len by simp
  have "\<exists>r'. huff_loop (huff_new lengths) [Suc len..<16] (2 * int (c div 2 ^ (L - Suc len + 1)))
        (int (first_code lengths (Suc len))) (int (first_index lengths (Suc len))) r1 = Some (s, r') \<and>
      br_ok r' \<and> br_stream r' = rest"
    using Suc.hyps(2) len r1 by (intro Suc.hyps(1)) auto
  note this [unfolded e]
  moreover have "[len..<16] = len # [Suc len..<16]" using len L by (simp add: upt_conv_Cons)
  ultimately show ?case
    using v code reject cnt Suc.prems(1) by (simp add: Let_def push_bit_eq_mult algebra_simps)
qed

definition has_code :: "nat list \<Rightarrow> nat \<Rightarrow> bool" where
  "has_code lengths s \<longleftrightarrow> list_all (\<lambda>l. l \<le> 15) lengths \<and> s < length lengths \<and> 0 < lengths ! s \<and>
     code_of lengths s < 2 ^ (lengths ! s)"

definition code_bits :: "nat list \<Rightarrow> nat \<Rightarrow> bool list" where
  "code_bits lengths s = msb_bits (lengths ! s) (code_of lengths s)"

lemma huff_decode_code:
  assumes "has_code lengths s" and "br_ok r" and "br_stream r = code_bits lengths s @ rest"
  shows "\<exists>r'. huff_decode (huff_new lengths) r = Some (s, r') \<and> br_ok r' \<and> br_stream r' = rest"
proof -
  have "[1..<16] = [1..<max_bits + 1]" by (simp add: max_bits_def)
  moreover have "code_of lengths s div 2 ^ (lengths ! s) = 0" using assms(1) by (simp add: has_code_def)
  ultimately show ?thesis
    using huff_loop_code [of lengths s 1 r rest] assms
    by (simp add: has_code_def code_bits_def msb_bits_def huff_decode_def Suc_le_eq)
qed

subsection \<open>Fields\<close>

definition lsb_bits :: "nat \<Rightarrow> nat \<Rightarrow> bool list" where
  "lsb_bits n x = map (bit x) [0..<n]"

lemma length_lsb_bits [simp]: "length (lsb_bits n x) = n"
  by (simp add: lsb_bits_def)

lemma bits_nat_lsb: "bits_nat (lsb_bits n x) = take_bit n x"
  by (rule bit_eqI) (auto simp: bits_nat_def lsb_bits_def bit_horner_sum_bit_iff bit_simps)

lemma br_bits_field:
  assumes "br_ok r" and "n \<le> 16" and "br_stream r = lsb_bits n x @ rest"
  shows "\<exists>v r'. br_bits n r = Some (v, r') \<and> unat v = take_bit n x \<and> br_ok r' \<and> br_stream r' = rest"
  using br_bits_Some [of r "lsb_bits n x" rest] assms by (auto simp: bits_nat_lsb)

section \<open>The LZ77 copy\<close>

lemma copy_loop_periodic:
  assumes "0 < d" and "d \<le> length out"
  shows "copy_loop (length out - d + k) n (out @ map (\<lambda>i. out ! (length out - d + i mod d)) [0..<k]) =
    out @ map (\<lambda>i. out ! (length out - d + i mod d)) [0..<k + n]"
proof (induction n arbitrary: k)
  case (Suc n)
  let ?f = "\<lambda>i. out ! (length out - d + i mod d)"
  have "(out @ map ?f [0..<k]) ! (length out - d + k) = ?f k"
  proof (cases "k < d")
    case True
    then have "length out - d + k < length out" using assms by linarith
    with True show ?thesis by (simp only: nth_append if_True mod_less)
  next
    case False
    then have "length out - d + k = length out + (k - d)" using assms by linarith
    moreover have "(k - d) mod d = k mod d" using False by (simp add: mod_if)
    moreover have "k - d < k" using False assms by linarith
    ultimately show ?thesis by (simp add: nth_append_length_plus)
  qed
  with Suc [of "Suc k"] show ?case by simp
qed simp

definition lz_copy :: "nat \<Rightarrow> nat \<Rightarrow> bytes \<Rightarrow> bytes" where
  "lz_copy d n out = out @ map (\<lambda>i. out ! (length out - d + i mod d)) [0..<n]"

lemma copy_loop_lz: "0 < d \<Longrightarrow> d \<le> length out \<Longrightarrow> copy_loop (length out - d) n out = lz_copy d n out"
  using copy_loop_periodic [of d out 0 n] by (simp add: lz_copy_def)

section \<open>Compressed blocks\<close>

text \<open>A compressed block is a list of literals and of matches; a match names its length symbol \<open>257 + li\<close> with
  the value of its extra bits and its distance symbol with the value of its own.\<close>

datatype tok = Lit u8 | Match nat nat nat nat

definition match_len :: "nat \<Rightarrow> nat \<Rightarrow> nat" where
  "match_len li x = len_base ! li + x"

definition match_dist :: "nat \<Rightarrow> nat \<Rightarrow> nat" where
  "match_dist di y = dist_base ! di + y"

fun tok_bits :: "nat list \<Rightarrow> nat list \<Rightarrow> tok \<Rightarrow> bool list" where
  "tok_bits ll dl (Lit b) = code_bits ll (unat b)"
| "tok_bits ll dl (Match li x di y) =
     code_bits ll (257 + li) @ lsb_bits (len_extra ! li) x @ code_bits dl di @ lsb_bits (dist_extra ! di) y"

fun tok_run :: "tok \<Rightarrow> bytes \<Rightarrow> bytes" where
  "tok_run (Lit b) out = out @ [b]"
| "tok_run (Match li x di y) out = lz_copy (match_dist di y) (match_len li x) out"

fun tok_ok :: "nat list \<Rightarrow> nat list \<Rightarrow> bytes \<Rightarrow> tok \<Rightarrow> bool" where
  "tok_ok ll dl out (Lit b) \<longleftrightarrow> has_code ll (unat b)"
| "tok_ok ll dl out (Match li x di y) \<longleftrightarrow>
     li < 29 \<and> x < 2 ^ (len_extra ! li) \<and> has_code ll (257 + li) \<and>
     di < 30 \<and> y < 2 ^ (dist_extra ! di) \<and> has_code dl di \<and> match_dist di y \<le> length out"

fun toks_ok :: "nat list \<Rightarrow> nat list \<Rightarrow> bytes \<Rightarrow> tok list \<Rightarrow> bool" where
  "toks_ok ll dl out [] \<longleftrightarrow> has_code ll 256"
| "toks_ok ll dl out (t # ts) \<longleftrightarrow> tok_ok ll dl out t \<and> toks_ok ll dl (tok_run t out) ts"

definition toks_bits :: "nat list \<Rightarrow> nat list \<Rightarrow> tok list \<Rightarrow> bool list" where
  "toks_bits ll dl ts = concat (map (tok_bits ll dl) ts) @ code_bits ll 256"

definition toks_run :: "tok list \<Rightarrow> bytes \<Rightarrow> bytes" where
  "toks_run ts out = fold tok_run ts out"

lemma tok_run_length: "length out \<le> length (tok_run t out)"
  by (cases t) (simp_all add: lz_copy_def)

lemma toks_run_length: "length out \<le> length (toks_run ts out)"
  unfolding toks_run_def
proof (induction ts arbitrary: out)
  case (Cons t ts)
  from tok_run_length [of out t] Cons [of "tok_run t out"] show ?case by simp
qed simp

lemma extra_small: "li < 29 \<Longrightarrow> len_extra ! li \<le> 16" "di < 30 \<Longrightarrow> dist_extra ! di \<le> 16"
proof -
  have "list_all (\<lambda>n. n \<le> 16) len_extra" "list_all (\<lambda>n. n \<le> 16) dist_extra" by (simp_all add: len_extra_def dist_extra_def)
  moreover have "length len_extra = 29" "length dist_extra = 30" by (simp_all add: len_extra_def dist_extra_def)
  ultimately show "li < 29 \<Longrightarrow> len_extra ! li \<le> 16" "di < 30 \<Longrightarrow> dist_extra ! di \<le> 16"
    by (simp_all add: list_all_length)
qed

lemma dist_base_pos: "di < 30 \<Longrightarrow> 0 < dist_base ! di"
proof -
  have "list_all (\<lambda>n. 0 < n) dist_base" "length dist_base = 30" by (simp_all add: dist_base_def)
  then show "di < 30 \<Longrightarrow> 0 < dist_base ! di" by (simp add: list_all_length)
qed

lemma length_of_match:
  assumes "li < 29" and "x < 2 ^ (len_extra ! li)" and "br_ok r" and "br_stream r = lsb_bits (len_extra ! li) x @ rest"
  shows "\<exists>r'. length_of (257 + li) r = Some (match_len li x, r') \<and> br_ok r' \<and> br_stream r' = rest"
proof -
  from br_bits_field [OF assms(3) extra_small(1) [OF assms(1)] assms(4)] obtain v r'
    where "br_bits (len_extra ! li) r = Some (v, r')" "unat v = take_bit (len_extra ! li) x" "br_ok r'" "br_stream r' = rest"
    by blast
  with assms(2) show ?thesis by (simp add: length_of_def match_len_def take_bit_nat_eq_self)
qed

lemma distance_of_match:
  assumes "di < 30" and "y < 2 ^ (dist_extra ! di)" and "has_code dl di" and "br_ok r"
    and "br_stream r = code_bits dl di @ lsb_bits (dist_extra ! di) y @ rest"
  shows "\<exists>r'. distance_of (huff_new dl) r = Some (match_dist di y, r') \<and> br_ok r' \<and> br_stream r' = rest"
proof -
  from huff_decode_code [OF assms(3-5)] obtain r1 where r1: "huff_decode (huff_new dl) r = Some (di, r1)" "br_ok r1"
    "br_stream r1 = lsb_bits (dist_extra ! di) y @ rest" by blast
  from br_bits_field [OF r1(2) extra_small(2) [OF assms(1)] r1(3)] obtain v r'
    where "br_bits (dist_extra ! di) r1 = Some (v, r')" "unat v = take_bit (dist_extra ! di) y" "br_ok r'" "br_stream r' = rest"
    by blast
  with assms(1,2) r1(1) show ?thesis by (simp add: distance_of_def match_dist_def take_bit_nat_eq_self)
qed

lemma inflate_block_tok:
  assumes ok: "tok_ok ll dl out t" and lim: "length (tok_run t out) \<le> limit"
    and r: "br_ok r" "br_stream r = tok_bits ll dl t @ rest"
  shows "\<exists>r'. inflate_block (huff_new ll) (huff_new dl) limit r out =
      inflate_block (huff_new ll) (huff_new dl) limit r' (tok_run t out) \<and> br_ok r' \<and> br_stream r' = rest"
proof (cases t)
  case (Lit b)
  with huff_decode_code [of ll "unat b" r rest] assms obtain r' where
    r': "huff_decode (huff_new ll) r = Some (unat b, r')" "br_ok r'" "br_stream r' = rest" by auto
  have "unat b < 2 ^ LENGTH(8)" by (rule unsigned_less)
  then have "unat b \<le> 255" by simp
  with r' lim Lit show ?thesis
    by (intro exI [of _ r']) (simp add: inflate_block.simps [of "huff_new ll" "huff_new dl" limit r out])
next
  case (Match li x di y)
  note ok = ok [unfolded Match tok_ok.simps]
  from Match huff_decode_code [of ll "257 + li" r] ok r obtain r1 where
    r1: "huff_decode (huff_new ll) r = Some (257 + li, r1)" "br_ok r1"
      "br_stream r1 = lsb_bits (len_extra ! li) x @ code_bits dl di @ lsb_bits (dist_extra ! di) y @ rest" by auto
  from length_of_match [OF _ _ r1(2,3)] ok obtain r2 where r2: "length_of (257 + li) r1 = Some (match_len li x, r2)"
    "br_ok r2" "br_stream r2 = code_bits dl di @ lsb_bits (dist_extra ! di) y @ rest" by blast
  from distance_of_match [OF _ _ _ r2(2,3)] ok obtain r3 where r3: "distance_of (huff_new dl) r2 = Some (match_dist di y, r3)"
    "br_ok r3" "br_stream r3 = rest" by blast
  have "0 < match_dist di y" using dist_base_pos [of di] ok by (simp add: match_dist_def)
  with ok have "copy_loop (length out - match_dist di y) (match_len li x) out = tok_run t out"
    by (simp add: copy_loop_lz Match)
  moreover have "length (tok_run t out) = length out + match_len li x" by (simp add: Match lz_copy_def)
  ultimately show ?thesis
    using r1(1) r2(1) r3 ok lim
    by (intro exI [of _ r3]) (simp add: inflate_block.simps [of "huff_new ll" "huff_new dl" limit r out] Match)
qed

lemma inflate_block_toks:
  assumes "toks_ok ll dl out ts" and "length (toks_run ts out) \<le> limit"
    and "br_ok r" and "br_stream r = toks_bits ll dl ts @ rest"
  shows "\<exists>r'. inflate_block (huff_new ll) (huff_new dl) limit r out = Some (toks_run ts out, r') \<and>
    br_ok r' \<and> br_stream r' = rest"
  using assms
proof (induction ts arbitrary: out r)
  case Nil
  with huff_decode_code [of ll 256 r rest] obtain r' where
    "huff_decode (huff_new ll) r = Some (256, r')" "br_ok r'" "br_stream r' = rest" by (auto simp: toks_bits_def)
  then show ?case by (simp add: inflate_block.simps [of "huff_new ll" "huff_new dl" limit r out] toks_run_def)
next
  case (Cons t ts)
  have "length (tok_run t out) \<le> limit" using Cons.prems(2) toks_run_length [of "tok_run t out" ts] by (simp add: toks_run_def)
  moreover have "br_stream r = tok_bits ll dl t @ toks_bits ll dl ts @ rest" using Cons.prems(4) by (simp add: toks_bits_def)
  ultimately obtain r1 where r1: "inflate_block (huff_new ll) (huff_new dl) limit r out =
      inflate_block (huff_new ll) (huff_new dl) limit r1 (tok_run t out)" "br_ok r1" "br_stream r1 = toks_bits ll dl ts @ rest"
    using inflate_block_tok Cons.prems(1,3) by (metis toks_ok.simps(2))
  from Cons.IH [OF _ _ r1(2,3)] Cons.prems(1,2) show ?case by (simp add: r1(1) toks_run_def)
qed

section \<open>Stored blocks\<close>

lemma length_concat_bits [simp]: "length (concat (map byte_bits ds)) = 8 * length ds"
  by (induction ds) simp_all

lemma align_byte_stream:
  assumes "br_ok r"
  shows "br_stream (align_byte r) = drop (length (br_stream r) mod 8) (br_stream r)" and "br_ok (align_byte r)"
proof -
  have "br_cnt r mod 8 = br_cnt r" "length (br_stream r) mod 8 = br_cnt r"
    using assms by (simp_all add: br_ok_def br_stream_def)
  then show "br_stream (align_byte r) = drop (length (br_stream r) mod 8) (br_stream r)" "br_ok (align_byte r)"
    using assms by (simp_all add: align_byte_def br_stream_def Let_def br_ok_def br_clear_def bit_drop_bit_eq)
qed

lemma byte_bits_lsb: "byte_bits b = lsb_bits 8 (unat b)"
  by (simp add: byte_bits_def lsb_bits_def bit_unsigned_iff exp_eq_zero_iff)

lemma stored_loop_bytes:
  "length out + length ds \<le> limit \<Longrightarrow> br_ok r \<Longrightarrow> br_stream r = concat (map byte_bits ds) @ rest \<Longrightarrow>
     \<exists>r'. stored_loop limit (length ds) r out = Some (out @ ds, r') \<and> br_ok r' \<and> br_stream r' = rest"
proof (induction ds arbitrary: r out)
  case (Cons b ds)
  from Cons.prems(3) have "br_stream r = lsb_bits 8 (unat b) @ concat (map byte_bits ds) @ rest"
    by (simp add: byte_bits_lsb [of b])
  from br_bits_field [OF Cons.prems(2) _ this] obtain v r1 where v: "br_bits 8 r = Some (v, r1)" "unat v = take_bit 8 (unat b)"
    and r1: "br_ok r1" "br_stream r1 = concat (map byte_bits ds) @ rest" by auto
  have "unat b < 2 ^ LENGTH(8)" by (rule unsigned_less)
  with v(2) have "unat v = unat b" by (simp add: take_bit_nat_eq_self)
  then have "ucast v = b" by (metis of_nat_unat ucast_id)
  moreover have "length (out @ [b]) + length ds \<le> limit" using Cons.prems(1) by simp
  from Cons.IH [OF this r1] obtain r'
    where "stored_loop limit (length ds) r1 (out @ [b]) = Some (out @ b # ds, r')" "br_ok r'" "br_stream r' = rest"
    by (metis append.assoc append_Cons append_Nil)
  ultimately show ?case using v(1) Cons.prems(1) by simp
qed simp

definition pad_bits :: "nat \<Rightarrow> bool list" where
  "pad_bits pos = replicate ((8 - pos mod 8) mod 8) False"

lemma pad_arith: "8 dvd p + (l::nat) \<Longrightarrow> l mod 8 = (8 - p mod 8) mod 8"
proof -
  assume "8 dvd p + l"
  then have sum: "(p mod 8 + l mod 8) mod 8 = 0" by (simp add: mod_add_eq)
  have "x = 0 \<and> y = 0 \<or> x + y = 8" if "(x + y) mod 8 = 0" "x < 8" "y < 8" for x y :: nat
  proof (cases "x + y < 8")
    case False
    then have "(x + y) mod 8 = x + y - 8" using that(2,3) by (subst le_mod_geq) simp_all
    with that False show ?thesis by linarith
  qed (use that(1) in simp)
  from this [OF sum] have "p mod 8 = 0 \<and> l mod 8 = 0 \<or> p mod 8 + l mod 8 = 8" by simp
  then show ?thesis
  proof
    assume "p mod 8 + l mod 8 = 8"
    then have "l mod 8 = 8 - p mod 8" by linarith
    then show ?thesis by (metis mod_mod_trivial)
  qed simp
qed

lemma inflate_stored_decodes:
  assumes "length ds < 2 ^ 16" and "length out + length ds \<le> limit" and "br_ok r"
    and st: "br_stream r = pad_bits pos @ lsb_bits 16 (length ds) @ lsb_bits 16 nlen @ concat (map byte_bits ds) @ rest"
    and al: "8 dvd pos + length (br_stream r)"
  shows "\<exists>r'. inflate_stored limit r out = Some (out @ ds, r') \<and> br_ok r' \<and> br_stream r' = rest"
proof -
  have len: "length (br_stream r) mod 8 = length (pad_bits pos)"
    unfolding pad_bits_def length_replicate using al by (rule pad_arith)
  have "br_stream (align_byte r) = lsb_bits 16 (length ds) @ lsb_bits 16 nlen @ concat (map byte_bits ds) @ rest"
    unfolding align_byte_stream(1) [OF assms(3)] len unfolding st by simp
  from br_bits_field [OF align_byte_stream(2) [OF assms(3)] order.refl this] obtain v r1 where
    v: "br_bits 16 (align_byte r) = Some (v, r1)" "unat v = take_bit 16 (length ds)" "br_ok r1"
      "br_stream r1 = lsb_bits 16 nlen @ concat (map byte_bits ds) @ rest" by blast
  from br_bits_field [OF v(3) order.refl v(4)] obtain w r2 where
    w: "br_bits 16 r1 = Some (w, r2)" "br_ok r2" "br_stream r2 = concat (map byte_bits ds) @ rest" by blast
  have "unat v = length ds" using v(2) assms(1) by (simp add: take_bit_nat_eq_self)
  with stored_loop_bytes [OF assms(2) w(2,3)] v(1) w(1) show ?thesis by (simp add: inflate_stored_def)
qed

section \<open>Dynamic tables\<close>

text \<open>The header of a dynamic block: the code lengths of the code-length alphabet, then a run of operations that
  append lengths - a literal length, a repetition of the last one, or a run of zeros.\<close>

datatype clop = Len nat | Again nat | Zeros3 nat | Zeros11 nat

fun clop_bits :: "nat list \<Rightarrow> clop \<Rightarrow> bool list" where
  "clop_bits cl (Len n) = code_bits cl n"
| "clop_bits cl (Again x) = code_bits cl 16 @ lsb_bits 2 x"
| "clop_bits cl (Zeros3 x) = code_bits cl 17 @ lsb_bits 3 x"
| "clop_bits cl (Zeros11 x) = code_bits cl 18 @ lsb_bits 7 x"

fun clop_run :: "clop \<Rightarrow> nat list \<Rightarrow> nat list" where
  "clop_run (Len n) ls = ls @ [n]"
| "clop_run (Again x) ls = ls @ replicate (3 + x) (last ls)"
| "clop_run (Zeros3 x) ls = ls @ replicate (3 + x) 0"
| "clop_run (Zeros11 x) ls = ls @ replicate (11 + x) 0"

fun clop_ok :: "nat list \<Rightarrow> nat list \<Rightarrow> clop \<Rightarrow> bool" where
  "clop_ok cl ls (Len n) \<longleftrightarrow> n \<le> 15 \<and> has_code cl n"
| "clop_ok cl ls (Again x) \<longleftrightarrow> x < 4 \<and> ls \<noteq> [] \<and> has_code cl 16"
| "clop_ok cl ls (Zeros3 x) \<longleftrightarrow> x < 8 \<and> has_code cl 17"
| "clop_ok cl ls (Zeros11 x) \<longleftrightarrow> x < 128 \<and> has_code cl 18"

fun clops_ok :: "nat list \<Rightarrow> nat list \<Rightarrow> clop list \<Rightarrow> bool" where
  "clops_ok cl ls [] \<longleftrightarrow> True"
| "clops_ok cl ls (c # cs) \<longleftrightarrow> clop_ok cl ls c \<and> clops_ok cl (clop_run c ls) cs"

lemma clop_run_length: "length ls < length (clop_run c ls)"
  by (cases c) simp_all

lemma clops_run_length: "length ls \<le> length (fold clop_run cs ls)"
proof (induction cs arbitrary: ls)
  case (Cons c cs)
  from clop_run_length [of ls c] Cons [of "clop_run c ls"] show ?case by simp
qed simp

definition zfill :: "nat \<Rightarrow> nat list \<Rightarrow> nat list" where
  "zfill n ls = ls @ replicate (n - length ls) 0"

lemma length_zfill: "length ls \<le> n \<Longrightarrow> length (zfill n ls) = n"
  by (simp add: zfill_def)

lemma zfill_set: "length ls < n \<Longrightarrow> (zfill n ls)[length ls := v] = zfill n (ls @ [v])"
  by (cases "n - length ls") (auto simp: zfill_def)

lemma zfill_zeros: "length ls + k \<le> n \<Longrightarrow> zfill n (ls @ replicate k 0) = zfill n ls"
  by (simp add: zfill_def replicate_add [symmetric])

lemma repeat_prev_zfill:
  "length ls + k \<le> n \<Longrightarrow>
     repeat_prev k v (zfill n ls) (length ls) = Some (zfill n (ls @ replicate k v), length ls + k)"
proof (induction k arbitrary: ls)
  case (Suc k)
  have "repeat_prev (Suc k) v (zfill n ls) (length ls) = repeat_prev k v (zfill n (ls @ [v])) (length (ls @ [v]))"
    using Suc.prems by (simp add: length_zfill zfill_set)
  also have "\<dots> = Some (zfill n ((ls @ [v]) @ replicate k v), length (ls @ [v]) + k)"
    using Suc.prems by (intro Suc.IH) simp
  finally show ?case by simp
qed simp

lemma zfill_last: "ls \<noteq> [] \<Longrightarrow> zfill n ls ! (length ls - Suc 0) = last ls"
  by (simp add: zfill_def nth_append last_conv_nth)

lemma clop_field:
  assumes "has_code cl s" and "br_ok r" and "br_stream r = code_bits cl s @ lsb_bits n x @ rest" and "n \<le> 16" and "x < 2 ^ n"
  shows "\<exists>r1 v r'. huff_decode (huff_new cl) r = Some (s, r1) \<and> br_bits n r1 = Some (v, r') \<and> unat v = x \<and>
    br_ok r' \<and> br_stream r' = rest"
proof -
  from huff_decode_code [OF assms(1-3)] obtain r1 where r1: "huff_decode (huff_new cl) r = Some (s, r1)" "br_ok r1"
    "br_stream r1 = lsb_bits n x @ rest" by blast
  from br_bits_field [OF r1(2) assms(4) r1(3)] r1(1) assms(5) show ?thesis by (auto simp: take_bit_nat_eq_self)
qed

lemma lengths_loop_clop:
  assumes ok: "clop_ok cl ls c" and lim: "length (clop_run c ls) \<le> n"
    and r: "br_ok r" "br_stream r = clop_bits cl c @ rest"
  shows "\<exists>r'. lengths_loop (huff_new cl) (zfill n ls) (length ls) r =
      lengths_loop (huff_new cl) (zfill n (clop_run c ls)) (length (clop_run c ls)) r' \<and> br_ok r' \<and> br_stream r' = rest"
proof -
  note unf = lengths_loop.simps [of "huff_new cl" "zfill n ls" "length ls" r]
  have lt: "length ls < n" using clop_run_length [of ls c] lim by simp
  then have len: "length (zfill n ls) = n" by (simp add: length_zfill)
  show ?thesis
  proof (cases c)
    case (Len k)
    with huff_decode_code [of cl k r rest] ok r obtain r' where
      "huff_decode (huff_new cl) r = Some (k, r')" "br_ok r'" "br_stream r' = rest" by auto
    with ok lt len Len show ?thesis by (intro exI [of _ r']) (simp add: unf zfill_set)
  next
    case (Again x)
    with clop_field [of cl 16 r 2 x rest] ok r obtain r1 v r' where
      s: "huff_decode (huff_new cl) r = Some (16, r1)" "br_bits 2 r1 = Some (v, r')" "unat v = x" "br_ok r'" "br_stream r' = rest"
      by auto
    have "repeat_prev (3 + x) (last ls) (zfill n ls) (length ls) = Some (zfill n (clop_run c ls), length (clop_run c ls))"
      using lim Again by (simp only: clop_run.simps length_append length_replicate repeat_prev_zfill)
    with s ok lt len Again show ?thesis by (intro exI [of _ r']) (simp add: unf zfill_last)
  next
    case (Zeros3 x)
    with clop_field [of cl 17 r 3 x rest] ok r obtain r1 v r' where
      s: "huff_decode (huff_new cl) r = Some (17, r1)" "br_bits 3 r1 = Some (v, r')" "unat v = x" "br_ok r'" "br_stream r' = rest"
      by auto
    have "zfill n (clop_run c ls) = zfill n ls"
      using lim Zeros3 by (simp only: clop_run.simps length_append length_replicate zfill_zeros)
    with s ok lt len lim Zeros3 show ?thesis by (intro exI [of _ r']) (simp add: unf min_absorb1)
  next
    case (Zeros11 x)
    with clop_field [of cl 18 r 7 x rest] ok r obtain r1 v r' where
      s: "huff_decode (huff_new cl) r = Some (18, r1)" "br_bits 7 r1 = Some (v, r')" "unat v = x" "br_ok r'" "br_stream r' = rest"
      by auto
    have "zfill n (clop_run c ls) = zfill n ls"
      using lim Zeros11 by (simp only: clop_run.simps length_append length_replicate zfill_zeros)
    with s ok lt len lim Zeros11 show ?thesis by (intro exI [of _ r']) (simp add: unf min_absorb1)
  qed
qed

lemma lengths_loop_clops:
  assumes "clops_ok cl ls cs" and "length (fold clop_run cs ls) = n" and "br_ok r"
    and "br_stream r = concat (map (clop_bits cl) cs) @ rest"
  shows "\<exists>r'. lengths_loop (huff_new cl) (zfill n ls) (length ls) r = Some (fold clop_run cs ls, r') \<and>
    br_ok r' \<and> br_stream r' = rest"
  using assms
proof (induction cs arbitrary: ls r)
  case Nil
  then show ?case by (simp add: lengths_loop.simps [of "huff_new cl" ls n r] zfill_def)
next
  case (Cons c cs)
  have "length (clop_run c ls) \<le> n" using Cons.prems(2) clops_run_length [of "clop_run c ls" cs] by simp
  with lengths_loop_clop [of cl ls c n r "concat (map (clop_bits cl) cs) @ rest"] Cons.prems obtain r1 where
    r1: "lengths_loop (huff_new cl) (zfill n ls) (length ls) r =
        lengths_loop (huff_new cl) (zfill n (clop_run c ls)) (length (clop_run c ls)) r1"
      "br_ok r1" "br_stream r1 = concat (map (clop_bits cl) cs) @ rest" by auto
  from Cons.IH [OF _ _ r1(2,3)] Cons.prems(1,2) show ?case by (simp add: r1(1))
qed

lemma read_cl_fields:
  assumes "br_ok r" and "br_stream r = concat (map (\<lambda>i. lsb_bits 3 (cl ! i)) os) @ rest" and "list_all (\<lambda>i. cl ! i < 8) os"
  shows "\<exists>r'. read_cl os acc r = Some (fold (\<lambda>i a. a[i := cl ! i]) os acc, r') \<and> br_ok r' \<and> br_stream r' = rest"
  using assms
proof (induction os arbitrary: acc r)
  case (Cons i os)
  from Cons.prems(2) have "br_stream r = lsb_bits 3 (cl ! i) @ concat (map (\<lambda>i. lsb_bits 3 (cl ! i)) os) @ rest" by simp
  from br_bits_field [OF Cons.prems(1) _ this] Cons.prems(3) obtain v r1 where v: "br_bits 3 r = Some (v, r1)" "unat v = cl ! i"
    "br_ok r1" "br_stream r1 = concat (map (\<lambda>i. lsb_bits 3 (cl ! i)) os) @ rest" by (auto simp: take_bit_nat_eq_self)
  from Cons.IH [OF v(3,4), of "acc[i := cl ! i]"] Cons.prems(3) v(1,2) show ?case by simp
qed simp

record dyn =
  d_hlit :: nat
  d_hdist :: nat
  d_hclen :: nat
  d_cl :: "nat list"
  d_ops :: "clop list"

definition dyn_lengths :: "dyn \<Rightarrow> nat list" where
  "dyn_lengths d = fold clop_run (d_ops d) []"

definition dyn_ll :: "dyn \<Rightarrow> nat list" where
  "dyn_ll d = take (d_hlit d + 257) (dyn_lengths d)"

definition dyn_dl :: "dyn \<Rightarrow> nat list" where
  "dyn_dl d = drop (d_hlit d + 257) (dyn_lengths d)"

definition dyn_bits :: "dyn \<Rightarrow> bool list" where
  "dyn_bits d = lsb_bits 5 (d_hlit d) @ lsb_bits 5 (d_hdist d) @ lsb_bits 4 (d_hclen d) @
     concat (map (\<lambda>i. lsb_bits 3 (d_cl d ! i)) (take (d_hclen d + 4) cl_order)) @
     concat (map (clop_bits (d_cl d)) (d_ops d))"

definition dyn_ok :: "dyn \<Rightarrow> bool" where
  "dyn_ok d \<longleftrightarrow> d_hlit d < 32 \<and> d_hdist d < 32 \<and> d_hclen d < 16 \<and> length (d_cl d) = 19 \<and>
     list_all (\<lambda>l. l < 8) (d_cl d) \<and> list_all (\<lambda>i. d_cl d ! i = 0) (drop (d_hclen d + 4) cl_order) \<and>
     clops_ok (d_cl d) [] (d_ops d) \<and> length (dyn_lengths d) = d_hlit d + 257 + (d_hdist d + 1)"

lemma fold_update_nth:
  "length (fold (\<lambda>i a. a[i := f i]) os acc) = length acc \<and>
   (j < length acc \<longrightarrow> fold (\<lambda>i a. a[i := f i]) os acc ! j = (if j \<in> set os then f j else acc ! j))"
  by (induction os arbitrary: acc) (auto simp: nth_list_update)

lemma cl_order_small: "i \<in> set cl_order \<longleftrightarrow> i < 19"
proof -
  have "set cl_order = {0..<19}" by code_simp
  then show ?thesis by simp
qed

lemma fold_cl_order:
  assumes "length cl = 19" and "list_all (\<lambda>i. cl ! i = 0) (drop k cl_order)"
  shows "fold (\<lambda>i a. a[i := cl ! i]) (take k cl_order) (replicate 19 0) = cl"
proof (rule nth_equalityI)
  fix j
  assume "j < length (fold (\<lambda>i a. a[i := cl ! i]) (take k cl_order) (replicate 19 0))"
  then have j: "j < 19" by (simp add: fold_update_nth)
  then have "j \<in> set (take k cl_order @ drop k cl_order)" by (simp only: append_take_drop_id cl_order_small)
  then have "j \<in> set (take k cl_order) \<or> j \<in> set (drop k cl_order)" by (simp only: set_append Un_iff)
  with assms(2) have "j \<in> set (take k cl_order) \<or> cl ! j = 0" by (auto simp only: list_all_iff)
  with j show "fold (\<lambda>i a. a[i := cl ! i]) (take k cl_order) (replicate 19 0) ! j = cl ! j"
    using fold_update_nth [of "\<lambda>i. cl ! i" "take k cl_order" "replicate 19 0" j] by auto
qed (simp add: fold_update_nth assms(1))

lemma dynamic_trees_decodes:
  assumes ok: "dyn_ok d" and r: "br_ok r" "br_stream r = dyn_bits d @ rest"
  shows "\<exists>r'. dynamic_trees r = Some ((huff_new (dyn_ll d), huff_new (dyn_dl d)), r') \<and> br_ok r' \<and> br_stream r' = rest"
proof -
  note ok = ok [unfolded dyn_ok_def]
  note st = r(2) [unfolded dyn_bits_def append.assoc]
  from br_bits_field [OF r(1) _ st] ok obtain v1 r1 where s1: "br_bits 5 r = Some (v1, r1)" "unat v1 = d_hlit d" "br_ok r1"
    and st1: "br_stream r1 = lsb_bits 5 (d_hdist d) @ lsb_bits 4 (d_hclen d) @
      concat (map (\<lambda>i. lsb_bits 3 (d_cl d ! i)) (take (d_hclen d + 4) cl_order)) @ concat (map (clop_bits (d_cl d)) (d_ops d)) @ rest"
    by (auto simp: take_bit_nat_eq_self)
  from br_bits_field [OF s1(3) _ st1] ok obtain v2 r2 where s2: "br_bits 5 r1 = Some (v2, r2)" "unat v2 = d_hdist d" "br_ok r2"
    and st2: "br_stream r2 = lsb_bits 4 (d_hclen d) @
      concat (map (\<lambda>i. lsb_bits 3 (d_cl d ! i)) (take (d_hclen d + 4) cl_order)) @ concat (map (clop_bits (d_cl d)) (d_ops d)) @ rest"
    by (auto simp: take_bit_nat_eq_self)
  from br_bits_field [OF s2(3) _ st2] ok obtain v3 r3 where s3: "br_bits 4 r2 = Some (v3, r3)" "unat v3 = d_hclen d" "br_ok r3"
    and st3: "br_stream r3 =
      concat (map (\<lambda>i. lsb_bits 3 (d_cl d ! i)) (take (d_hclen d + 4) cl_order)) @ concat (map (clop_bits (d_cl d)) (d_ops d)) @ rest"
    by (auto simp: take_bit_nat_eq_self)
  have "list_all (\<lambda>i. d_cl d ! i < 8) (take (d_hclen d + 4) cl_order)"
  proof -
    have "d_cl d ! i < 8" if "i < 19" for i using ok that by (metis list_all_length)
    then show ?thesis by (auto simp only: list_all_iff dest!: in_set_takeD simp: cl_order_small)
  qed
  from read_cl_fields [OF s3(3) st3 this, of "replicate 19 0"] fold_cl_order [of "d_cl d" "d_hclen d + 4"] ok obtain r4 where
    s4: "read_cl (take (d_hclen d + 4) cl_order) (replicate 19 0) r3 = Some (d_cl d, r4)" "br_ok r4"
    and st4: "br_stream r4 = concat (map (clop_bits (d_cl d)) (d_ops d)) @ rest" by auto
  have "clops_ok (d_cl d) [] (d_ops d)" "length (fold clop_run (d_ops d) []) = d_hlit d + 257 + (d_hdist d + 1)"
    using ok by (simp_all add: dyn_lengths_def)
  from lengths_loop_clops [OF this s4(2) st4] obtain r5 where
    s5: "lengths_loop (huff_new (d_cl d)) (replicate (d_hlit d + 257 + (d_hdist d + 1)) 0) 0 r4 = Some (dyn_lengths d, r5)"
      "br_ok r5" "br_stream r5 = rest" by (auto simp: zfill_def dyn_lengths_def)
  show ?thesis
    by (intro exI [of _ r5])
      (simp only: dynamic_trees_def Let_def s1(1,2) s2(1,2) s3(1,2) s4(1) s5 Option.bind.simps prod.case
        dyn_ll_def dyn_dl_def simp_thms)
qed

section \<open>Whole streams\<close>

datatype block = Stored bytes | Fixed "tok list" | Dynamic dyn "tok list"

definition fixed_ll :: "nat list" where
  "fixed_ll = map (\<lambda>i. if i \<le> 143 then 8 else if i \<le> 255 then 9 else if i \<le> 279 then 7 else 8) [0..<288]"

definition fixed_dl :: "nat list" where
  "fixed_dl = replicate 30 5"

fun blk_type :: "block \<Rightarrow> nat" where
  "blk_type (Stored ds) = 0"
| "blk_type (Fixed ts) = 1"
| "blk_type (Dynamic d ts) = 2"

fun blk_body :: "nat \<Rightarrow> block \<Rightarrow> bool list" where
  "blk_body pos (Stored ds) = pad_bits pos @ lsb_bits 16 (length ds) @ lsb_bits 16 (65535 - length ds) @ concat (map byte_bits ds)"
| "blk_body pos (Fixed ts) = toks_bits fixed_ll fixed_dl ts"
| "blk_body pos (Dynamic d ts) = dyn_bits d @ toks_bits (dyn_ll d) (dyn_dl d) ts"

fun blk_run :: "block \<Rightarrow> bytes \<Rightarrow> bytes" where
  "blk_run (Stored ds) out = out @ ds"
| "blk_run (Fixed ts) out = toks_run ts out"
| "blk_run (Dynamic d ts) out = toks_run ts out"

fun blk_ok :: "bytes \<Rightarrow> block \<Rightarrow> bool" where
  "blk_ok out (Stored ds) \<longleftrightarrow> length ds < 2 ^ 16"
| "blk_ok out (Fixed ts) \<longleftrightarrow> toks_ok fixed_ll fixed_dl out ts"
| "blk_ok out (Dynamic d ts) \<longleftrightarrow> dyn_ok d \<and> toks_ok (dyn_ll d) (dyn_dl d) out ts"

fun blks_ok :: "bytes \<Rightarrow> block list \<Rightarrow> bool" where
  "blks_ok out [] \<longleftrightarrow> True"
| "blks_ok out (b # bs) \<longleftrightarrow> blk_ok out b \<and> blks_ok (blk_run b out) bs"

fun deflate_bits :: "nat \<Rightarrow> block list \<Rightarrow> bool list" where
  "deflate_bits pos [] = []"
| "deflate_bits pos (b # bs) =
     (let body = blk_body (pos + 3) b
      in lsb_bits 1 (of_bool (bs = [])) @ lsb_bits 2 (blk_type b) @ body @ deflate_bits (pos + 3 + length body) bs)"

lemma blk_run_length: "length out \<le> length (blk_run b out)"
  by (cases b) (simp_all add: toks_run_length)

lemma blks_run_length: "length out \<le> length (fold blk_run bs out)"
proof (induction bs arbitrary: out)
  case (Cons b bs)
  from blk_run_length [of out b] Cons [of "blk_run b out"] show ?case by simp
qed simp

lemma fixed_trees_eq: "fixed_trees = (huff_new fixed_ll, huff_new fixed_dl)"
  by (simp only: fixed_trees_def fixed_ll_def fixed_dl_def)

lemma of_nat_unat_eq: "unat (w :: 'a::len word) = n \<Longrightarrow> w = of_nat n"
  by (metis of_nat_unat ucast_id)

lemma one_block_decodes:
  assumes ok: "blk_ok out b" and lim: "length (blk_run b out) \<le> limit" and r: "br_ok r" "br_stream r = blk_body pos b @ rest"
    and al: "8 dvd pos + length (br_stream r)" and ty: "unat btype = blk_type b"
  shows "\<exists>r'. one_block limit btype r out = Some (blk_run b out, r') \<and> br_ok r' \<and> br_stream r' = rest"
proof (cases b)
  case (Stored ds)
  have "btype = 0" using ty [THEN of_nat_unat_eq] Stored by simp
  with inflate_stored_decodes [of ds out limit r pos "65535 - length ds" rest] ok lim r al Stored
  show ?thesis by (simp add: one_block_def)
next
  case (Fixed ts)
  have "btype = 1" using ty [THEN of_nat_unat_eq] Fixed by simp
  with inflate_block_toks [of fixed_ll fixed_dl out ts limit r rest] ok lim r Fixed
  show ?thesis by (simp add: one_block_def fixed_trees_eq)
next
  case (Dynamic d ts)
  have bt: "btype = 2" using ty [THEN of_nat_unat_eq] Dynamic by simp
  from dynamic_trees_decodes [of d r "toks_bits (dyn_ll d) (dyn_dl d) ts @ rest"] ok r Dynamic obtain r1 where
    r1: "dynamic_trees r = Some ((huff_new (dyn_ll d), huff_new (dyn_dl d)), r1)" "br_ok r1"
      "br_stream r1 = toks_bits (dyn_ll d) (dyn_dl d) ts @ rest" by auto
  with inflate_block_toks [OF _ _ r1(2,3), of out limit] ok lim Dynamic bt
  show ?thesis by (simp add: one_block_def)
qed

lemma inflate_loop_decodes:
  assumes "blks_ok out bs" and "bs \<noteq> []" and "length (fold blk_run bs out) \<le> limit" and "br_ok r"
    and "br_stream r = deflate_bits pos bs @ rest" and "8 dvd pos + length (br_stream r)"
  shows "inflate_loop limit r out = Some (fold blk_run bs out)"
  using assms
proof (induction bs arbitrary: out r pos)
  case (Cons b bs)
  let ?tail = "deflate_bits (pos + 3 + length (blk_body (pos + 3) b)) bs @ rest"
  from Cons.prems(5) have st: "br_stream r = lsb_bits 1 (of_bool (bs = [])) @ lsb_bits 2 (blk_type b) @ blk_body (pos + 3) b @ ?tail"
    by (simp only: deflate_bits.simps Let_def append.assoc)
  from br_bits_field [OF Cons.prems(4) _ st] obtain v r1 where v: "br_bits 1 r = Some (v, r1)" "unat v = take_bit 1 (of_bool (bs = []))"
    "br_ok r1" "br_stream r1 = lsb_bits 2 (blk_type b) @ blk_body (pos + 3) b @ ?tail" by auto
  from br_bits_field [OF v(3) _ v(4)] obtain w r2 where w: "br_bits 2 r1 = Some (w, r2)" "unat w = take_bit 2 (blk_type b)"
    "br_ok r2" "br_stream r2 = blk_body (pos + 3) b @ ?tail" by auto
  have fin: "v = 1 \<longleftrightarrow> bs = []" using v(2) [THEN of_nat_unat_eq] by simp
  have ty: "unat w = blk_type b" using w(2) by (cases b) simp_all
  have "length (br_stream r) = 3 + length (br_stream r2)" by (simp add: st w(4))
  then have al: "8 dvd pos + 3 + length (br_stream r2)" using Cons.prems(6) by (simp only: add.assoc)
  have "length (blk_run b out) \<le> limit" using Cons.prems(3) blks_run_length [of "blk_run b out" bs] by simp
  from one_block_decodes [OF _ this w(3,4) al ty] Cons.prems(1) obtain r3 where
    r3: "one_block limit w r2 out = Some (blk_run b out, r3)" "br_ok r3" "br_stream r3 = ?tail" by auto
  have step: "inflate_loop limit r out = (if v = 1 then Some (blk_run b out) else inflate_loop limit r3 (blk_run b out))"
    by (simp only: inflate_loop.simps [of limit r out] v(1) w(1) r3(1) Option.bind.simps prod.case)
  show ?case
  proof (cases "bs = []")
    case True
    with step fin show ?thesis by simp
  next
    case False
    have "length (br_stream r2) = length (blk_body (pos + 3) b) + length (br_stream r3)" by (simp add: w(4) r3(3))
    then have "8 dvd pos + 3 + length (blk_body (pos + 3) b) + length (br_stream r3)" using al by (simp only: add.assoc)
    from Cons.IH [OF _ False _ r3(2,3) this] Cons.prems(1,3) show ?thesis by (simp add: step fin False)
  qed
qed simp

section \<open>Base64\<close>

text \<open>The encoder of RFC 4648, section 4: three bytes become four characters, the rest is padded.\<close>

definition b64_char :: "u8 \<Rightarrow> u8" where
  "b64_char v =
     (if v < 26 then v + 0x41 else if v < 52 then v - 26 + 0x61 else if v < 62 then v - 52 + 0x30
      else if v = 62 then 0x2b else 0x2f)"

fun b64_enc :: "bytes \<Rightarrow> bytes" where
  "b64_enc [] = []"
| "b64_enc [a] = [b64_char (drop_bit 2 a), b64_char (push_bit 4 (take_bit 2 a)), 0x3d, 0x3d]"
| "b64_enc [a, b] = [b64_char (drop_bit 2 a), b64_char (push_bit 4 (take_bit 2 a) OR drop_bit 4 b),
     b64_char (push_bit 2 (take_bit 4 b)), 0x3d]"
| "b64_enc (a # b # c # cs) = [b64_char (drop_bit 2 a), b64_char (push_bit 4 (take_bit 2 a) OR drop_bit 4 b),
     b64_char (push_bit 2 (take_bit 4 b) OR drop_bit 6 c), b64_char (take_bit 6 c)] @ b64_enc cs"

lemma b64_char_val:
  assumes "v < 64"
  shows "b64_val (b64_char v) = Some v \<and> b64_char v \<noteq> 0x3d \<and> \<not> ascii_ws (b64_char v)"
proof -
  have shift: "uint (w + c) = uint w + uint c" if "uint w + uint c < 256" for w c :: u8
    using that by (simp add: uint_word_ariths)
  have minus: "uint (w - c) = uint w - uint c" if "uint c \<le> uint w" for w c :: u8
    using that by (rule uint_sub_lem [THEN iffD1])
  have v: "0 \<le> uint v" "uint v < 64" using assms by (simp_all add: word_less_def)
  consider "uint v < 26" | "26 \<le> uint v" "uint v < 52" | "52 \<le> uint v" "uint v < 62" | "v = 62" | "v = 63"
    using v(2) by (force simp: word_uint_eq_iff)
  then show ?thesis
  proof cases
    case 1
    with v have "uint (v + 0x41) = uint v + 65" by (subst shift) simp_all
    with 1 show ?thesis
      by (simp add: b64_char_def b64_val_def ascii_ws_def word_less_def word_le_def word_uint_eq_iff, intro conjI)
        (use v(1) in linarith)+
  next
    case 2
    then have m: "uint (v - 26) = uint v - 26" by (subst minus) simp_all
    with 2 have "uint (v - 26 + 0x61) = uint v + 71" by (subst shift) simp_all
    with 2 show ?thesis by (simp add: b64_char_def b64_val_def ascii_ws_def word_less_def word_le_def word_uint_eq_iff)
  next
    case 3
    then have m: "uint (v - 52) = uint v - 52" by (subst minus) simp_all
    with 3 have "uint (v - 52 + 0x30) = uint v - 4" by (subst shift) simp_all
    with 3 show ?thesis by (simp add: b64_char_def b64_val_def ascii_ws_def word_less_def word_le_def word_uint_eq_iff)
  qed (simp_all add: b64_char_def b64_val_def ascii_ws_def)
qed

lemma b64_step:
  "v < 64 \<Longrightarrow> b64_loop (b64_char v # cs) acc nbits out =
     (let acc = push_bit 6 acc OR ucast v
      in if 2 \<le> nbits then b64_loop cs acc (nbits - 2) (out @ [ucast (drop_bit (nbits - 2) acc)])
         else b64_loop cs acc (nbits + 6) out)"
  using b64_char_val [of v] by (simp add: Let_def)

lemma six_bits: "(\<And>k. 6 \<le> k \<Longrightarrow> \<not> bit (v :: u8) k) \<Longrightarrow> v < 64"
proof -
  assume high: "\<And>k. 6 \<le> k \<Longrightarrow> \<not> bit v k"
  have "take_bit 6 v = v" by (intro bit_eqI) (metis high bit_take_bit_iff not_le)
  then have "v = v AND mask 6" by (simp add: take_bit_eq_mask)
  moreover have "v AND mask 6 < 64" using and_mask_less' [of 6 v] by simp
  ultimately show ?thesis by simp
qed

lemma sextets:
  "drop_bit 2 (a :: u8) < 64" "push_bit 4 (take_bit 2 a) < 64" "push_bit 4 (take_bit 2 a) OR drop_bit 4 b < 64"
  "push_bit 2 (take_bit 4 b) < 64" "push_bit 2 (take_bit 4 b) OR drop_bit 6 c < 64" "take_bit 6 c < 64"
  by (rule six_bits, auto simp: bit_simps dest!: bit_imp_le_length)+

lemma suc_diff2: "2 \<le> n \<Longrightarrow> Suc (Suc (n - 2)) = n"
  by simp

lemma b64_first: "ucast (drop_bit 4 (push_bit 6 (push_bit 6 acc OR ucast (drop_bit 2 a)) OR
    ucast (push_bit 4 (take_bit 2 a) OR b')) :: u32) = (a :: u8)" if "\<And>k. 4 \<le> k \<Longrightarrow> \<not> bit b' k"
  using that by (intro bit_eqI) (auto simp: bit_simps suc_diff2 not_less)

lemma b64_second: "ucast (drop_bit 2 (push_bit 6 (push_bit 6 acc OR ucast (push_bit 4 a' OR drop_bit 4 b)) OR
    ucast (push_bit 2 (take_bit 4 b) OR c')) :: u32) = (b :: u8)" if "\<And>k. 2 \<le> k \<Longrightarrow> \<not> bit c' k"
  using that by (intro bit_eqI) (auto simp: bit_simps suc_diff2 not_less)

lemma b64_third: "ucast (push_bit 6 (push_bit 6 acc OR ucast (push_bit 2 b' OR drop_bit 6 c)) OR ucast (take_bit 6 c) :: u32) = (c :: u8)"
  by (intro bit_eqI) (auto simp: bit_simps suc_diff2 not_less)

lemma high_bits: "4 \<le> k \<Longrightarrow> \<not> bit (drop_bit 4 (b :: u8)) k" "2 \<le> k \<Longrightarrow> \<not> bit (drop_bit 6 (c :: u8)) k"
  by (auto simp: bit_simps dest!: bit_imp_le_length)

lemma b64_loop_enc: "b64_loop (b64_enc ds) acc 0 out = Some (out @ ds)"
proof (induction ds arbitrary: acc out rule: b64_enc.induct)
  case (2 a)
  then show ?case using b64_first [of 0 acc a] by (simp add: b64_step sextets Let_def del: b64_loop.simps(2)) (simp add: b64_loop.simps)
next
  case (3 a b)
  then show ?case
    using b64_first [OF high_bits(1), of acc a b] b64_second [of 0 _ _ b]
    by (simp add: b64_step sextets Let_def del: b64_loop.simps(2)) (simp add: b64_loop.simps)
next
  case (4 a b c cs)
  then show ?case
    using b64_first [OF high_bits(1), of acc a b] b64_second [OF high_bits(2), of _ _ b c]
      b64_third [of "push_bit 6 (push_bit 6 acc OR ucast (drop_bit 2 a)) OR ucast (push_bit 4 (take_bit 2 a) OR drop_bit 4 b)"
        "take_bit 4 b" c]
    by (simp add: b64_step sextets Let_def del: b64_loop.simps(2))
qed simp

section \<open>The output limit\<close>

lemma copy_loop_length: "length (copy_loop start n out) = length out + n"
  by (induction start n out rule: copy_loop.induct) simp_all

lemma inflate_block_limit:
  "inflate_block lt dist limit r out = Some (out', r') \<Longrightarrow> length out \<le> limit \<Longrightarrow> length out' \<le> limit"
proof (induction lt dist limit r out rule: inflate_block.induct)
  case (1 lt dist limit r out)
  from 1(3) obtain sy r1 where h: "huff_decode lt r = Some (sy, r1)"
    by (cases "huff_decode lt r") (auto simp: inflate_block.simps [of lt dist limit r out])
  note IH = 1(1,2) and lim = 1(4)
  note run = 1(3) [unfolded inflate_block.simps [of lt dist limit r out] h, simplified]
  consider "sy \<le> 255" | "sy = 256" | "\<not> sy \<le> 255" "sy \<noteq> 256" by blast
  then show ?case
  proof cases
    case 1
    with run IH(1) [OF h refl] show ?thesis by (auto split: if_splits)
  next
    case 2
    with run lim show ?thesis by simp
  next
    case 3
    with run obtain len r2 d r3 where s: "sy \<le> 285" "length_of sy r1 = Some (len, r2)" "distance_of dist r2 = Some (d, r3)"
      "\<not> (length out < d \<or> limit < length out + len)" "inflate_block lt dist limit r3 (copy_loop (length out - d) len out) = Some (out', r')"
      by (auto split: if_splits bind_splits simp: bind_simps)
    from IH(2) [OF h refl 3 s(1,2) refl s(3) refl s(4,5)] s(4) show ?thesis by (simp add: copy_loop_length)
  qed
qed

lemma stored_loop_limit: "stored_loop limit n r out = Some (out', r') \<Longrightarrow> length out \<le> limit \<Longrightarrow> length out' \<le> limit"
  by (induction limit n r out rule: stored_loop.induct) (auto split: if_splits simp: bind_simps)

lemma one_block_limit:
  assumes "one_block limit btype r out = Some (out', r')" and "length out \<le> limit"
  shows "length out' \<le> limit"
  using assms inflate_block_limit stored_loop_limit
  by (auto simp: one_block_def inflate_stored_def Let_def bind_simps split: if_splits)

lemma inflate_loop_limit: "inflate_loop limit r out = Some out' \<Longrightarrow> length out \<le> limit \<Longrightarrow> length out' \<le> limit"
proof (induction limit r out rule: inflate_loop.induct)
  case (1 limit r out)
  from 1(2) obtain fin r1 btype r2 o1 r3 where s: "br_bits 1 r = Some (fin, r1)" "br_bits 2 r1 = Some (btype, r2)"
    "one_block limit btype r2 out = Some (o1, r3)" "(if fin = 1 then Some o1 else inflate_loop limit r3 o1) = Some out'"
    unfolding inflate_loop.simps [of limit r out] by (auto simp: bind_simps)
  from one_block_limit [OF s(3) 1(3)] have "length o1 \<le> limit" .
  with 1(1) [OF s(1) refl s(2) refl s(3) refl] s(4) show ?case by (auto split: if_splits)
qed

section \<open>Properties\<close>

text \<open>C13. Every base64 text of a zlib header followed by any DEFLATE stream - stored, fixed-table and
  dynamic-table blocks in any order, each the encoding of literals and back-references of RFC 1951 -
  decodes to the expansion of those blocks, whenever that expansion fits the limit.\<close>

theorem decode_compressed_image_decodes:
  assumes "concat (map byte_bits d) = deflate_bits 0 bs @ rest" and "bs \<noteq> []" and "blks_ok [] bs"
    and "length (fold blk_run bs []) \<le> limit"
    and "cmf AND 0x0f = 8" and "((ucast cmf :: u16) * 256 + ucast flg) mod 31 = 0" and "flg AND 0x20 = 0"
  shows "decode_compressed_image (b64_enc (cmf # flg # d)) limit = Some (fold blk_run bs [])"
proof -
  have "8 dvd 0 + length (br_stream (br_new d))" by (simp add: br_new_stream)
  from inflate_loop_decodes [OF assms(3,2,4) br_new_ok _ this] assms(1)
  have "inflate d limit = Some (fold blk_run bs [])" by (simp add: inflate_def br_new_stream)
  with assms(5-7) show ?thesis
    by (simp add: decode_compressed_image_def base64_decode_def b64_loop_enc zlib_decompress_def)
qed

lemma fixed_ll_split: "fixed_ll = replicate 144 8 @ replicate 112 9 @ replicate 24 7 @ replicate 8 8"
  by (rule nth_equalityI) (auto simp: fixed_ll_def nth_append)

lemma first_code_numeral:
  "first_code ls (numeral n) =
     2 * (first_code ls (pred_numeral n) + (if pred_numeral n = 0 then 0 else count_len ls (pred_numeral n)))"
  by (simp add: numeral_eq_Suc)

lemma msb_bits_Suc: "msb_bits (Suc l) c = bit c l # msb_bits l c"
proof -
  have "[0..<Suc l] = 0 # map Suc [0..<l]" by (simp add: upt_conv_Cons map_Suc_upt)
  then show ?thesis by (simp add: msb_bits_def del: upt_Suc)
qed

lemma msb_bits_simps: "msb_bits 0 c = []" "msb_bits (Suc 0) c = [bit c 0]"
  "msb_bits (numeral n) c = bit c (pred_numeral n) # msb_bits (pred_numeral n) c"
  by (simp_all add: msb_bits_Suc numeral_eq_Suc) (simp_all add: msb_bits_def)

lemma count_len_simps: "count_len (xs @ ys) l = count_len xs l + count_len ys l" "count_len [] l = 0"
  "count_len (x # xs) l = (if x = l then 1 else 0) + count_len xs l" "count_len (replicate n x) l = (if x = l then n else 0)"
  by (simp_all add: count_len_def)

lemma list_all_replicate: "list_all P (replicate n x) \<longleftrightarrow> n = 0 \<or> P x"
  by (auto simp: list_all_iff)

lemmas code_eval = code_bits_def has_code_def code_of_def rank_of_def count_len_simps msb_bits_simps nth_append
  list_all_append first_code_numeral list_all_replicate bit_0

lemma fixed_codes:
  "has_code fixed_ll 0x61" "has_code fixed_ll 256" "has_code fixed_ll 257" "has_code fixed_dl 0"
  "code_bits fixed_ll 0x61 = [True, False, False, True, False, False, False, True]"
  "code_bits fixed_ll 256 = [False, False, False, False, False, False, False]"
  "code_bits fixed_ll 257 = [False, False, False, False, False, False, True]"
  "code_bits fixed_dl 0 = [False, False, False, False, False]"
  by (simp_all add: fixed_ll_split fixed_dl_def code_eval)


definition image_dyn :: dyn where
  "image_dyn = \<lparr>d_hlit = 0, d_hdist = 0, d_hclen = 14,
     d_cl = [0, 1, 0, 0, 0, 0, 0, 0, 0, 0, 0, 0, 0, 0, 0, 0, 0, 0, 1],
     d_ops = [Zeros11 86, Len 1, Zeros11 127, Zeros11 9, Len 1, Len 1]\<rparr>"

lemma image_dyn_lengths: "dyn_lengths image_dyn = replicate 97 0 @ [1] @ replicate 158 0 @ [1, 1]"
  by (simp add: dyn_lengths_def image_dyn_def replicate_add [symmetric])

lemma image_dyn_ll: "dyn_ll image_dyn = replicate 97 0 @ [1] @ replicate 158 0 @ [1]"
  by (simp only: dyn_ll_def image_dyn_lengths) (simp add: image_dyn_def)

lemma dyn_codes:
  "has_code (dyn_ll image_dyn) 0x61" "has_code (dyn_ll image_dyn) 256"
  "code_bits (dyn_ll image_dyn) 0x61 = [False]" "code_bits (dyn_ll image_dyn) 256 = [True]"
  by (simp_all add: image_dyn_ll code_eval)

lemma image_dyn_ok: "dyn_ok image_dyn"
  by (simp only: dyn_ok_def image_dyn_lengths) (simp add: image_dyn_def cl_order_def code_eval)


definition image_blocks :: "block list" where
  "image_blocks = [Stored [1, 2], Fixed [Lit 0x61, Match 0 0 0 0], Dynamic image_dyn [Lit 0x61, Lit 0x61]]"

definition image_bytes :: bytes where
  "image_bytes = [0x00, 0x02, 0x00, 0xfd, 0xff, 0x01, 0x02, 0x4a, 0x04, 0x02, 0x40, 0x01, 0x70, 0x20, 0x00,
     0x00, 0x00, 0x00, 0x00, 0xa4, 0xd5, 0xff, 0x04, 0x04]"

lemma image_run: "fold blk_run image_blocks [] = [1, 2, 0x61, 0x61, 0x61, 0x61, 0x61, 0x61]"
  by (simp add: image_blocks_def toks_run_def lz_copy_def match_len_def match_dist_def len_base_def dist_base_def numeral_3_eq_3)

lemma image_ok: "blks_ok [] image_blocks"
  by (simp add: image_blocks_def image_dyn_ok fixed_codes dyn_codes match_dist_def dist_base_def len_extra_def dist_extra_def toks_run_def)

lemma lsb_bits_simps: "lsb_bits 0 x = []" "lsb_bits (Suc n) x = odd x # lsb_bits n (x div 2)"
  "lsb_bits (numeral k) x = odd x # lsb_bits (pred_numeral k) (x div 2)"
proof -
  show step: "lsb_bits (Suc n) x = odd x # lsb_bits n (x div 2)" for n x
    by (simp add: lsb_bits_def upt_conv_Cons map_Suc_upt [symmetric] bit_0 bit_Suc o_def del: upt_Suc)
  show "lsb_bits (numeral k) x = odd x # lsb_bits (pred_numeral k) (x div 2)" by (simp add: numeral_eq_Suc step)
qed (simp add: lsb_bits_def)

lemma image_dyn_bits: "dyn_bits image_dyn = lsb_bits 5 0 @ lsb_bits 5 0 @ lsb_bits 4 14 @ concat (map (lsb_bits 3)
    [0, 0, 1, 0, 0, 0, 0, 0, 0, 0, 0, 0, 0, 0, 0, 0, 0, 1]) @
    [True] @ lsb_bits 7 86 @ [False, True] @ lsb_bits 7 127 @ [True] @ lsb_bits 7 9 @ [False, False]"
  by (simp add: dyn_bits_def image_dyn_def cl_order_def code_eval)

lemma image_stream: "concat (map byte_bits image_bytes) = deflate_bits 0 image_blocks @ [False, False, False, False, False]"
  by (simp add: image_bytes_def image_blocks_def byte_bits_lsb Let_def toks_bits_def image_dyn_bits
      fixed_codes dyn_codes pad_bits_def lsb_bits_simps len_extra_def dist_extra_def) (simp add: numeral_eq_Suc)

theorem decode_compressed_image_decodes_witness:
  "decode_compressed_image (b64_enc (0x78 # 0x01 # image_bytes)) 8 = Some [1, 2, 0x61, 0x61, 0x61, 0x61, 0x61, 0x61]"
proof -
  have "image_blocks \<noteq> []" by (simp add: image_blocks_def)
  from decode_compressed_image_decodes [OF image_stream this image_ok, of 8 "0x78" "0x01"]
  show ?thesis by (simp add: image_run)
qed

text \<open>Reading \<open>n\<close> bits refines taking the first \<open>n\<close> bits of the stream still to be read, least
  significant first: the value, the rest and the refusal of a short stream are those of the list.\<close>

theorem br_bits_refines:
  assumes "br_ok r" and "n \<le> 16"
  shows "map_option (\<lambda>(v, r'). (unat v, br_stream r')) (br_bits n r) =
    (if n \<le> length (br_stream r) then Some (bits_nat (take n (br_stream r)), drop n (br_stream r)) else None)"
proof (cases "br_bits n r")
  case None
  with br_bits_spec [OF assms] show ?thesis by simp
next
  case (Some x)
  obtain v r' where x: "x = (v, r')" by (cases x)
  from br_bits_spec [OF assms] show ?thesis by (simp add: Some x)
qed

theorem br_bits_refines_witness:
  "map_option (\<lambda>(v, r'). (unat v, br_stream r')) (br_bits 9 (br_new [0x35, 0x01])) =
    Some (0x135, [False, False, False, False, False, False, False])"
proof -
  have "br_stream (br_new [0x35, 0x01]) = [True, False, True, False, True, True, False, False,
      True, False, False, False, False, False, False, False]" by code_simp
  with br_bits_refines [OF br_new_ok, of 9 "[0x35, 0x01]"] show ?thesis by (simp add: bits_nat_def)
qed

text \<open>C14. Decompression never produces more than the limit, whatever the input: a block that would exceed it
  makes the decoder fail instead.\<close>

theorem inflate_bounded:
  assumes "inflate d limit = Some out"
  shows "length out \<le> limit"
  using assms by (auto simp: inflate_def intro: inflate_loop_limit)

lemma inflate_example: "inflate [0x01, 0x02, 0x00, 0xfd, 0xff, 0x61, 0x62] 2 = Some [0x61, 0x62]"
  by code_simp

theorem inflate_bounded_witness:
  "inflate [0x01, 0x02, 0x00, 0xfd, 0xff, 0x61, 0x62] 2 = Some [0x61, 0x62] \<and> length [0x61, 0x62 :: u8] \<le> 2"
  using inflate_example inflate_bounded [OF inflate_example] by blast

end
