(* ===== verification/Fuzz_Rng.thy ===== *)
theory Fuzz_Rng
  imports Prelude
begin

text \<open>
  The two pseudo-random generators of the fuzzer: the xorshift64 of \<^verbatim>\<open>vock/src/fuzz/rng.rs\<close> and the
  xorshift64* local to \<^verbatim>\<open>vock/src/fuzz/prog_mutate.rs\<close>. Both are state passing functions. Their only
  promise to the mutators is the interface \<open>index_source\<close>: a draw below \<open>n\<close> is below \<open>n\<close>. Shown here: the
  generators are invertible on states, so a live generator never reaches the fixed point 0, and the one
  seed that starts there.
\<close>

section \<open>The interface of a source of indices\<close>

locale index_source =
  fixes draw :: "nat \<Rightarrow> 's \<Rightarrow> nat \<times> 's"
  assumes draw_less: "0 < n \<Longrightarrow> fst (draw n r) < n"
begin

lemma draw_nth: "xs \<noteq> [] \<Longrightarrow> draw (length xs) r = (i, r') \<Longrightarrow> nth_opt xs i = Some (xs ! i)"
  using draw_less [of "length xs" r] by simp

lemma draw_in_set: "xs \<noteq> [] \<Longrightarrow> draw (length xs) r = (i, r') \<Longrightarrow> xs ! i \<in> set xs"
  using draw_less [of "length xs" r] by simp

lemma draw_bound: "draw n r = (i, r') \<Longrightarrow> 0 < n \<Longrightarrow> i < n"
  using draw_less [of n r] by simp

end

section \<open>The xorshift64 generator of the fuzzer\<close>

record rng =
  rng_state :: u64

definition rng_new :: "u64 \<Rightarrow> rng" where
  "rng_new seed = \<lparr>rng_state = seed XOR 0x9e3779b97f4a7c15\<rparr>"

definition next_u64 :: "rng \<Rightarrow> u64 \<times> rng" where
  "next_u64 r =
     (let x = rng_state r;
          x = x XOR push_bit 13 x;
          x = x XOR drop_bit 7 x;
          x = x XOR push_bit 17 x
      in (x, r\<lparr>rng_state := x\<rparr>))"

definition rand :: "rng \<Rightarrow> u64 \<times> rng" where
  "rand r = (let (x, r) = next_u64 r in (drop_bit 33 x, r))"

text \<open>\<^verbatim>\<open>Rng::below\<close> takes an \<^verbatim>\<open>i64\<close>; every caller passes the length of a vector or a positive constant.\<close>

definition below :: "int \<Rightarrow> rng \<Rightarrow> int \<times> rng" where
  "below n r =
     (if n \<le> 0 then (0, r)
      else let (x, r) = rand r in (uint x mod n, r))"

definition below_nat :: "nat \<Rightarrow> rng \<Rightarrow> nat \<times> rng" where
  "below_nat n r = (let (i, r) = below (int n) r in (nat i, r))"

lemma below_range: "below n r = (i, r') \<Longrightarrow> 0 \<le> i \<and> (0 < n \<longrightarrow> i < n)"
  by (auto simp: below_def split: prod.splits if_splits)

interpretation fuzz_src: index_source below_nat
proof unfold_locales
  fix n :: nat and r :: rng
  assume "0 < n"
  then show "fst (below_nat n r) < n"
    using below_range [of "int n" r] by (auto simp: below_nat_def split: prod.splits)
qed

lemma rand_less: "rand r = (x, r') \<Longrightarrow> x < 2 ^ 31"
proof -
  assume "rand r = (x, r')"
  then obtain y where "x = drop_bit 33 y" by (auto simp: rand_def split: prod.splits)
  then have "take_bit 31 x = x" by (intro bit_word_eqI) (auto simp: bit_simps dest: bit_imp_le_length)
  then have "uint x = take_bit 31 (uint x)" by (metis unsigned_take_bit_eq)
  then have "uint x < 2 ^ 31" by (metis take_bit_int_less_exp)
  then show ?thesis by (simp add: word_less_def)
qed

section \<open>Live states\<close>

text \<open>A shift-xor is injective: the lowest (highest) bit of an argument shifted left (right) survives.\<close>

lemma xorshift_left: "0 < k \<Longrightarrow> x XOR push_bit k x = 0 \<Longrightarrow> x = (0 :: u64)"
proof (rule ccontr)
  assume k: "0 < k" and eq: "x XOR push_bit k x = 0" and "x \<noteq> 0"
  then obtain n where "bit x n" by (auto simp: bit_eq_iff)
  then obtain n where n: "bit x n" "\<forall>m<n. \<not> bit x m" using exists_least_iff [of "bit x"] by blast
  have "bit (x XOR push_bit k x) n" using n k by (auto simp: bit_simps dest: bit_imp_le_length)
  then show False by (simp add: eq)
qed

lemma xorshift_right: "0 < k \<Longrightarrow> x XOR drop_bit k x = 0 \<Longrightarrow> x = (0 :: u64)"
proof (rule ccontr)
  assume k: "0 < k" and eq: "x XOR drop_bit k x = 0" and "x \<noteq> 0"
  then have ex: "\<exists>n. bit x n" by (auto simp: bit_eq_iff)
  have bound: "\<forall>n. bit x n \<longrightarrow> n \<le> 64" using bit_imp_le_length [of x] by (auto intro: less_imp_le)
  define n where "n = (GREATEST n. bit x n)"
  have "bit x n" unfolding n_def using ex bound by (metis GreatestI_ex_nat)
  moreover have "\<not> bit x (k + n)"
    using Greatest_le_nat [of "bit x" "k + n" 64] bound k by (auto simp: n_def)
  ultimately have "bit (x XOR drop_bit k x) n" by (auto simp: bit_simps add.commute)
  then show False by (simp add: eq)
qed

lemma xor_zero_iff: "a XOR b = 0 \<longleftrightarrow> a = (b :: u64)"
proof
  assume "a XOR b = 0"
  then have "(a XOR b) XOR b = 0 XOR b" by (rule arg_cong)
  then show "a = b" by (simp only: xor.assoc xor_self_eq xor.right_neutral xor.left_neutral)
qed simp

lemma next_u64_zero: "rng_state (snd (next_u64 r)) = 0 \<longleftrightarrow> rng_state r = 0"
proof
  assume "rng_state (snd (next_u64 r)) = 0"
  then show "rng_state r = 0"
    by (cases r) (simp only: next_u64_def Let_def snd_conv rng.simps,
      drule xorshift_left [rotated], simp, drule xorshift_right [rotated], simp, drule xorshift_left [rotated], simp_all)
qed (simp add: next_u64_def Let_def)

lemma rand_zero: "rng_state (snd (rand r)) = 0 \<longleftrightarrow> rng_state r = 0"
  using next_u64_zero [of r] by (auto simp: rand_def split: prod.splits)

section \<open>The xorshift64* generator of the program mutator\<close>

record pm_rng =
  pm_state :: u64

definition pm_new :: "u64 \<Rightarrow> pm_rng" where
  "pm_new seed = \<lparr>pm_state = (if seed = 0 then 0x9E3779B97F4A7C15 else seed)\<rparr>"

definition pm_next :: "pm_rng \<Rightarrow> u64 \<times> pm_rng" where
  "pm_next r =
     (let x = pm_state r;
          x = x XOR drop_bit 12 x;
          x = x XOR push_bit 25 x;
          x = x XOR drop_bit 27 x
      in (x * 0x2545F4914F6CDD1D, r\<lparr>pm_state := x\<rparr>))"

definition pm_below :: "nat \<Rightarrow> pm_rng \<Rightarrow> nat \<times> pm_rng" where
  "pm_below n r = (if n = 0 then (0, r) else let (x, r) = pm_next r in (unat x mod n, r))"

definition pm_chance :: "nat \<Rightarrow> pm_rng \<Rightarrow> bool \<times> pm_rng" where
  "pm_chance one_in r = (let (x, r) = pm_below (max one_in 1) r in (x = 0, r))"

interpretation pm_src: index_source pm_below
proof unfold_locales
  fix n :: nat and r :: pm_rng
  assume "0 < n"
  then show "fst (pm_below n r) < n" by (auto simp: pm_below_def split: prod.splits)
qed

lemma pm_next_zero: "pm_state (snd (pm_next r)) = 0 \<longleftrightarrow> pm_state r = 0"
proof
  assume "pm_state (snd (pm_next r)) = 0"
  then show "pm_state r = 0"
    by (cases r) (simp only: pm_next_def Let_def snd_conv pm_rng.simps,
      drule xorshift_right [rotated], simp, drule xorshift_left [rotated], simp, drule xorshift_right [rotated], simp_all)
qed (simp add: pm_next_def Let_def)

section \<open>Properties\<close>

text \<open>C18. However many numbers are drawn, the generator of the fuzzer sits in the absorbing state 0 - where every
  draw is 0 - exactly when it was seeded with the constant the seed is mixed with; the generator of the program
  mutator never does.\<close>

theorem rng_live:
  "(rng_state (((\<lambda>r. snd (rand r)) ^^ n) (rng_new seed)) = 0 \<longleftrightarrow> seed = 0x9e3779b97f4a7c15) \<and>
   fst (rand (rng_new 0x9e3779b97f4a7c15)) = 0 \<and>
   pm_state (((\<lambda>r. snd (pm_next r)) ^^ n) (pm_new seed)) \<noteq> 0"
proof -
  have "rng_state (((\<lambda>r. snd (rand r)) ^^ n) r) = 0 \<longleftrightarrow> rng_state r = 0" for r
    by (induction n) (simp_all add: rand_zero)
  moreover have "rng_state (rng_new seed) = 0 \<longleftrightarrow> seed = 0x9e3779b97f4a7c15"
    by (simp add: rng_new_def xor_zero_iff)
  moreover have "pm_state (((\<lambda>r. snd (pm_next r)) ^^ n) r) = 0 \<longleftrightarrow> pm_state r = 0" for r
    by (induction n) (simp_all add: pm_next_zero)
  moreover have "pm_state (pm_new seed) \<noteq> 0" by (simp add: pm_new_def)
  moreover have "fst (rand (rng_new 0x9e3779b97f4a7c15)) = 0" by (simp add: rng_new_def rand_def next_u64_def)
  ultimately show ?thesis by simp
qed

end
