(* ===== verification/Fuzz_Sets.thy ===== *)
theory Fuzz_Sets
  imports Rust_Str Fuzz_Rng
begin

text \<open>
  The bookkeeping of the fuzzer: the bounded coverage set of \<^verbatim>\<open>vock/src/fuzz/covset.rs\<close>, the errno signal of
  \<^verbatim>\<open>vock/src/fuzz/signal.rs\<close> and the live descriptors of \<^verbatim>\<open>vock/src/fuzz/state.rs\<close>. The counts are \<^verbatim>\<open>i32\<close>,
  kept as 32-bit words. Shown here: the merge loops count the intersection and the difference of the sets
  their sorted inputs hold, loading a coverage log yields the sorted set of its PCs up to the capacity, a
  signal determines its call number and errno, and the descriptor table stays within its bounds.
\<close>

section \<open>Coverage sets\<close>

definition max_coverage :: nat where
  "max_coverage = 65536"

record covset =
  cs_pcs :: "u64 list"
  cs_cap :: nat

definition covset_new :: "nat \<Rightarrow> covset" where
  "covset_new cap = \<lparr>cs_pcs = [], cs_cap = cap\<rparr>"

definition covset_count :: "covset \<Rightarrow> u32" where
  "covset_count s = of_nat (length (cs_pcs s))"

definition covset_add :: "u64 \<Rightarrow> covset \<Rightarrow> covset" where
  "covset_add pc s = (if length (cs_pcs s) < cs_cap s then s\<lparr>cs_pcs := cs_pcs s @ [pc]\<rparr> else s)"

definition covset_sort_dedup :: "covset \<Rightarrow> covset" where
  "covset_sort_dedup s = (if length (cs_pcs s) \<le> 1 then s else s\<lparr>cs_pcs := dedup (sort (cs_pcs s))\<rparr>)"

text \<open>The merge loops; the two indices of the code are the two suffixes still to be compared.\<close>

fun intersect_loop :: "u64 list \<Rightarrow> u64 list \<Rightarrow> u32 \<Rightarrow> u32" where
  "intersect_loop (x # xs) (y # ys) n =
     (if x = y then intersect_loop xs ys (n + 1)
      else if x < y then intersect_loop xs (y # ys) n
      else intersect_loop (x # xs) ys n)"
| "intersect_loop xs ys n = n"

fun novel_loop :: "u64 list \<Rightarrow> u64 list \<Rightarrow> u32 \<Rightarrow> u32" where
  "novel_loop (x # xs) (y # ys) n =
     (if x = y then novel_loop xs ys n
      else if x < y then novel_loop xs (y # ys) (n + 1)
      else novel_loop (x # xs) ys n)"
| "novel_loop xs ys n = n + of_nat (length xs)"

definition covset_intersect :: "covset \<Rightarrow> covset \<Rightarrow> u32" where
  "covset_intersect a b = intersect_loop (cs_pcs a) (cs_pcs b) 0"

definition covset_novel :: "covset \<Rightarrow> covset \<Rightarrow> u32" where
  "covset_novel a b = novel_loop (cs_pcs a) (cs_pcs b) 0"

text \<open>One line of the log, and the whole file; \<open>content\<close> is what reading it returned.\<close>

definition log_pc :: "str \<Rightarrow> u64 option" where
  "log_pc line =
     (let s = str_trim line;
          hex = (case strip_prefix (lit ''0x'') s of
                   Some h \<Rightarrow> h
                 | None \<Rightarrow> case strip_prefix (lit ''0X'') s of Some h \<Rightarrow> h | None \<Rightarrow> s)
      in case parse_u64_radix 16 hex of
           Some pc \<Rightarrow> if pc \<noteq> 0 then Some pc else None
         | None \<Rightarrow> None)"

definition covset_load_file :: "str option \<Rightarrow> covset \<Rightarrow> bool \<times> covset" where
  "covset_load_file content s =
     (case content of
        None \<Rightarrow> (False, s)
      | Some d \<Rightarrow>
          (True, covset_sort_dedup
             (fold (\<lambda>line s. case log_pc line of Some pc \<Rightarrow> covset_add pc s | None \<Rightarrow> s) (str_lines d) s)))"

section \<open>Signals\<close>

record signal_set =
  ss_sigs :: "u64 list"
  ss_cap :: nat

definition signal_new :: "nat \<Rightarrow> signal_set" where
  "signal_new cap = \<lparr>ss_sigs = [], ss_cap = cap\<rparr>"

definition signal_count :: "signal_set \<Rightarrow> u32" where
  "signal_count s = of_nat (length (ss_sigs s))"

definition signal_of :: "u64 \<Rightarrow> u64 \<Rightarrow> u64" where
  "signal_of nr ret =
     (let errno = (if sint ret < 0 then - ret else 0) AND 0xffffffff
      in push_bit 32 (nr AND 0xffff) OR errno)"

definition signal_add :: "u64 \<Rightarrow> u64 \<Rightarrow> signal_set \<Rightarrow> signal_set" where
  "signal_add nr ret s =
     (if length (ss_sigs s) < ss_cap s then s\<lparr>ss_sigs := ss_sigs s @ [signal_of nr ret]\<rparr> else s)"

definition signal_sort_dedup :: "signal_set \<Rightarrow> signal_set" where
  "signal_sort_dedup s = (if length (ss_sigs s) \<le> 1 then s else s\<lparr>ss_sigs := dedup (sort (ss_sigs s))\<rparr>)"

definition signal_novel :: "signal_set \<Rightarrow> signal_set \<Rightarrow> u32" where
  "signal_novel a b = novel_loop (ss_sigs a) (ss_sigs b) 0"

section \<open>Live descriptors\<close>

definition max_fds :: nat where
  "max_fds = 256"

record fd_state =
  fds :: "u32 list"

definition fd_new :: fd_state where
  "fd_new = \<lparr>fds = []\<rparr>"

definition nfds :: "fd_state \<Rightarrow> nat" where
  "nfds s = length (fds s)"

text \<open>\<open>swap_remove\<close> is \<^verbatim>\<open>Vec::swap_remove\<close>: the last element takes the place of the removed one.\<close>

definition swap_remove :: "'a list \<Rightarrow> nat \<Rightarrow> 'a list" where
  "swap_remove xs i = butlast (xs[i := last xs])"

definition in_fd_range :: "u64 \<Rightarrow> bool" where
  "in_fd_range v \<longleftrightarrow> 0 \<le> sint v \<and> unat v < max_fds"

definition fd_producer :: "int \<Rightarrow> bool" where
  "fd_producer nr \<longleftrightarrow> nr \<in> {2, 257, 41, 43, 32, 288, 22, 437, 434}"

definition fd_track :: "u64 \<Rightarrow> u64 list \<Rightarrow> u64 \<Rightarrow> fd_state \<Rightarrow> fd_state" where
  "fd_track nr args ret s =
     (let s = (if in_fd_range ret \<and> fd_producer (sint nr) \<and> length (fds s) < max_fds
               then s\<lparr>fds := fds s @ [ucast ret]\<rparr> else s)
      in if sint nr = 3 \<and> in_fd_range (args ! 0)
         then (case position (\<lambda>f. f = ucast (args ! 0)) (fds s) of
                 Some idx \<Rightarrow> s\<lparr>fds := swap_remove (fds s) idx\<rparr>
               | None \<Rightarrow> s)
         else s)"

definition get_valid :: "fd_state \<Rightarrow> rng \<Rightarrow> u32 \<times> rng" where
  "get_valid s r =
     (if fds s = [] then (3, r)
      else let (i, r) = below_nat (length (fds s)) r in (fds s ! i, r))"

section \<open>The merge loops\<close>

lemma intersect_loop_card:
  "sorted_wrt (<) xs \<Longrightarrow> sorted_wrt (<) ys \<Longrightarrow> intersect_loop xs ys n = n + of_nat (card (set xs \<inter> set ys))"
proof (induction xs ys n rule: intersect_loop.induct)
  case (1 x xs y ys n)
  consider "x = y" | "x < y" | "y < x" by fastforce
  then show ?case
  proof cases
    case 1
    have "set (x # xs) \<inter> set (y # ys) = insert x (set xs \<inter> set ys)" using "1.prems" 1 by auto
    moreover have "x \<notin> set xs \<inter> set ys" using "1.prems" by auto
    ultimately show ?thesis using 1 "1.IH"(1) "1.prems" by simp
  next
    case 2
    have "set (x # xs) \<inter> set (y # ys) = set xs \<inter> set (y # ys)" using "1.prems" 2 by auto
    then show ?thesis using 2 less_imp_neq [OF 2] "1.IH"(2) "1.prems" by simp
  next
    case 3
    have "set (x # xs) \<inter> set (y # ys) = set (x # xs) \<inter> set ys" using "1.prems" 3 by auto
    then show ?thesis using 3 less_imp_neq [OF 3, symmetric] less_not_sym [OF 3] "1.IH"(3) "1.prems" by simp
  qed
qed simp_all

lemma novel_loop_card:
  "sorted_wrt (<) xs \<Longrightarrow> sorted_wrt (<) ys \<Longrightarrow> novel_loop xs ys n = n + of_nat (card (set xs - set ys))"
proof (induction xs ys n rule: novel_loop.induct)
  case (1 x xs y ys n)
  consider "x = y" | "x < y" | "y < x" by fastforce
  then show ?case
  proof cases
    case 1
    have "set (x # xs) - set (y # ys) = set xs - set ys" using "1.prems" 1 by auto
    then show ?thesis using 1 "1.IH"(1) "1.prems" by simp
  next
    case 2
    have "set (x # xs) - set (y # ys) = insert x (set xs - set (y # ys))" using "1.prems" 2 by auto
    moreover have "x \<notin> set xs - set (y # ys)" using "1.prems" by auto
    ultimately show ?thesis using 2 less_imp_neq [OF 2] "1.IH"(2) "1.prems" by simp
  next
    case 3
    have "set (x # xs) - set (y # ys) = set (x # xs) - set ys" using "1.prems" 3 by auto
    then show ?thesis using 3 less_imp_neq [OF 3, symmetric] less_not_sym [OF 3] "1.IH"(3) "1.prems" by simp
  qed
qed (simp_all add: distinct_card strict_sorted_iff)

section \<open>Loading, packing and tracking\<close>

lemma covset_add_all:
  "fold (\<lambda>line s. case log_pc line of Some pc \<Rightarrow> covset_add pc s | None \<Rightarrow> s) ls s =
     s\<lparr>cs_pcs := cs_pcs s @ take (cs_cap s - length (cs_pcs s)) (List.map_filter log_pc ls)\<rparr>"
proof (induction ls arbitrary: s)
  case (Cons l ls)
  show ?case
  proof (cases "log_pc l")
    case None
    then show ?thesis by (simp add: Cons List.map_filter_def)
  next
    case (Some pc)
    show ?thesis
    proof (cases "length (cs_pcs s) < cs_cap s")
      case True
      then obtain k where k: "cs_cap s - length (cs_pcs s) = Suc k" by (metis Suc_diff_Suc)
      then have "cs_cap s - Suc (length (cs_pcs s)) = k" by simp
      with Some True k show ?thesis by (simp add: Cons covset_add_def List.map_filter_def)
    qed (use Some in \<open>simp add: Cons covset_add_def\<close>)
  qed
qed (simp add: List.map_filter_def)

lemma sort_dedup_strict: "sorted_wrt (<) (dedup (sort (xs :: u64 list)))"
  using sorted_dedup_distinct [OF sorted_sort, of xs] by (simp add: strict_sorted_iff)

lemma covset_sort_dedup_spec:
  "sorted_wrt (<) (cs_pcs (covset_sort_dedup s))" "set (cs_pcs (covset_sort_dedup s)) = set (cs_pcs s)"
proof -
  have "length xs \<le> 1 \<Longrightarrow> sorted_wrt (<) xs" for xs :: "u64 list" by (cases xs) (auto simp: length_Suc_conv)
  then show "sorted_wrt (<) (cs_pcs (covset_sort_dedup s))" "set (cs_pcs (covset_sort_dedup s)) = set (cs_pcs s)"
    by (simp_all add: covset_sort_dedup_def sort_dedup_strict)
qed

lemma set_swap_remove: "i < length xs \<Longrightarrow> set (swap_remove xs i) \<subseteq> set xs"
proof -
  assume "i < length xs"
  then have "set (xs[i := last xs]) \<subseteq> set xs" by (metis insert_absorb last_in_set list.size(3) not_less_zero set_update_subset_insert)
  then show ?thesis unfolding swap_remove_def by (meson in_set_butlastD subset_iff)
qed

lemma length_swap_remove: "length (swap_remove xs i) = length xs - 1"
  by (simp add: swap_remove_def)

definition fd_inv :: "fd_state \<Rightarrow> bool" where
  "fd_inv s \<longleftrightarrow> length (fds s) \<le> max_fds \<and> list_all (\<lambda>f. unat f < max_fds) (fds s)"

lemma fd_push:
  "fd_inv s \<Longrightarrow> in_fd_range ret \<Longrightarrow> length (fds s) < max_fds \<Longrightarrow> fd_inv (s\<lparr>fds := fds s @ [ucast ret]\<rparr>)"
  by (simp add: fd_inv_def in_fd_range_def max_fds_def unsigned_ucast_eq take_bit_nat_eq_self)

lemma fd_drop:
  assumes "fd_inv s" and "position P (fds s) = Some i"
  shows "fd_inv (s\<lparr>fds := swap_remove (fds s) i\<rparr>)"
proof -
  have "i < length (fds s)" using position_Some [OF assms(2)] by simp
  from set_swap_remove [OF this] assms(1) show ?thesis
    by (auto simp: fd_inv_def length_swap_remove list_all_iff)
qed

section \<open>Properties\<close>

text \<open>C17. Loading a coverage log into an empty set keeps the first \<open>cap\<close> non-zero PCs of its lines as a sorted
  set without repetitions, and on such sets intersection and novelty count the common and the new PCs.\<close>

theorem covset_load_counts:
  assumes "covset_load_file (Some da) (covset_new ca) = (oka, A)" and "covset_load_file (Some db) (covset_new cb) = (okb, B)"
    and "length (cs_pcs A) < 2 ^ 32"
  shows "oka \<and> okb \<and> set (cs_pcs A) = set (take ca (List.map_filter log_pc (str_lines da))) \<and>
    sorted_wrt (<) (cs_pcs A) \<and>
    unat (covset_intersect A B) = card (set (cs_pcs A) \<inter> set (cs_pcs B)) \<and>
    unat (covset_novel A B) = card (set (cs_pcs A) - set (cs_pcs B))"
proof -
  have A: "oka" "A = covset_sort_dedup ((covset_new ca)\<lparr>cs_pcs := take ca (List.map_filter log_pc (str_lines da))\<rparr>)"
    using assms(1) by (auto simp: covset_load_file_def covset_add_all covset_new_def)
  have B: "okb" "B = covset_sort_dedup ((covset_new cb)\<lparr>cs_pcs := take cb (List.map_filter log_pc (str_lines db))\<rparr>)"
    using assms(2) by (auto simp: covset_load_file_def covset_add_all covset_new_def)
  have s: "sorted_wrt (<) (cs_pcs A)" "sorted_wrt (<) (cs_pcs B)"
    using covset_sort_dedup_spec(1) by (simp_all add: A(2) B(2))
  have "card (set (cs_pcs A) \<inter> X) < 2 ^ 32" "card (set (cs_pcs A) - X) < 2 ^ 32" for X
    using assms(3) card_length [of "cs_pcs A"] card_mono [of "set (cs_pcs A)"]
    by (meson Diff_subset Int_lower1 List.finite_set le_trans order.strict_trans1)+
  then show ?thesis
    using A(1) B(1) s covset_sort_dedup_spec(2)
    by (simp add: covset_intersect_def covset_novel_def intersect_loop_card novel_loop_card unat_of_nat A(2))
qed

theorem covset_load_counts_witness:
  "unat (covset_intersect \<lparr>cs_pcs = [0x10, 0x20], cs_cap = 4\<rparr> \<lparr>cs_pcs = [0x20, 0x30], cs_cap = 4\<rparr>) = 1"
proof -
  have a: "covset_load_file (Some (lit ''0x20\<newline>0x10\<newline>junk\<newline>20'')) (covset_new 4) = (True, \<lparr>cs_pcs = [0x10, 0x20], cs_cap = 4\<rparr>)"
    by code_simp
  have b: "covset_load_file (Some (lit ''0X30\<newline>0\<newline>20'')) (covset_new 4) = (True, \<lparr>cs_pcs = [0x20, 0x30], cs_cap = 4\<rparr>)"
    by code_simp
  from covset_load_counts [OF a b] show ?thesis by simp
qed

text \<open>A signal records the low sixteen bits of the call number and the low thirty-two bits of the errno, and
  can be read back: two results have the same signal only when they agree on both.\<close>

theorem signal_of_unpack:
  "drop_bit 32 (signal_of nr ret) = nr AND 0xffff \<and>
   take_bit 32 (signal_of nr ret) = (if sint ret < 0 then - ret else 0) AND 0xffffffff"
proof -
  have "0xffff = (mask 16 :: u64)" "0xffffffff = (mask 32 :: u64)" by (simp_all add: mask_eq_exp_minus_1)
  then have "signal_of nr ret = push_bit 32 (take_bit 16 nr) OR take_bit 32 (if sint ret < 0 then - ret else 0)"
    by (simp only: signal_of_def Let_def take_bit_eq_mask)
  moreover have "drop_bit 32 (push_bit 32 (take_bit 16 a) OR take_bit 32 b) = take_bit 16 a"
    "take_bit 32 (push_bit 32 (take_bit 16 a) OR take_bit 32 b) = take_bit 32 b" for a b :: u64
    by (rule bit_word_eqI, auto simp: bit_simps)+
  ultimately show ?thesis by (simp only: \<open>0xffff = mask 16\<close> \<open>0xffffffff = mask 32\<close> take_bit_eq_mask)
qed

text \<open>Whatever system calls are tracked, the descriptor table keeps at most 256 entries, all below 256, and the
  descriptor handed to the mutator is one of them, or 3 when there is none.\<close>

theorem fd_track_inv:
  "fd_inv (fold (\<lambda>(nr, args, ret). fd_track nr args ret) calls fd_new) \<and>
   (case get_valid (fold (\<lambda>(nr, args, ret). fd_track nr args ret) calls fd_new) r of
      (f, _) \<Rightarrow> f = 3 \<or> f \<in> set (fds (fold (\<lambda>(nr, args, ret). fd_track nr args ret) calls fd_new)))"
proof -
  have step: "fd_inv s \<Longrightarrow> fd_inv (fd_track nr args ret s)" for nr args ret s
    by (auto simp: fd_track_def Let_def fd_push fd_drop fd_producer_def split: option.splits)
  have steps: "fd_inv s \<Longrightarrow> fd_inv (fold (\<lambda>(nr, args, ret). fd_track nr args ret) calls s)" for s
    by (induction calls arbitrary: s) (auto simp: step)
  have new: "fd_inv fd_new" by (simp add: fd_inv_def fd_new_def)
  have valid: "case get_valid s r of (f, _) \<Rightarrow> f = 3 \<or> f \<in> set (fds s)" for s
    by (auto simp: get_valid_def fuzz_src.draw_in_set split: prod.splits)
  show ?thesis by (rule conjI [OF steps [OF new] valid])
qed

end
