(* ===== verification/Fuzz_Edges.thy ===== *)
theory Fuzz_Edges
  imports Fuzz_Sets "HOL-Library.Multiset"
begin

text \<open>
  The edge signal and the corpus of \<^verbatim>\<open>vock/src/fuzz/signal_edge.rs\<close>. The per-edge tables (\<^verbatim>\<open>Vec<u8>\<close> and
  \<^verbatim>\<open>Vec<u16>\<close> of \<open>signal_map_size\<close> entries) are functions from the edge; every edge comes out of \<open>edge_hash\<close>,
  which stays below the size. Reference counts are naturals with the saturation and the wrapping
  decrement of the code written out. Shown here: the edges of a trace are the set of hashes of its
  consecutive pairs; the corpus invariant - the maximal signal is exactly what the kept programs
  cover, and \<open>total_edges\<close> counts it - is kept by \<open>corpus_add\<close> and \<open>minimize\<close>; minimization keeps the coverage
  and leaves no redundant program.
\<close>

section \<open>The edges of a trace\<close>

definition signal_map_size :: nat where
  "signal_map_size = 65536"

definition edge_hash :: "u64 \<Rightarrow> u64 \<Rightarrow> u32" where
  "edge_hash pc prev_pc =
     (let h = pc XOR prev_pc;
          h = h XOR drop_bit 33 h;
          h = h * 0xff51afd7ed558ccd;
          h = h XOR drop_bit 33 h;
          h = h * 0xc4ceb9fe1a85ec53;
          h = h XOR drop_bit 33 h
      in ucast (h AND (of_nat signal_map_size - 1)))"

record prog_signal =
  ps_edges :: "u32 list"

fun edge_loop :: "u64 list \<Rightarrow> u64 \<Rightarrow> (nat \<Rightarrow> u8) \<Rightarrow> u32 list \<Rightarrow> u32 list" where
  "edge_loop [] prev seen edges = edges"
| "edge_loop (pc # pcs) prev seen edges =
     (let edge = edge_hash pc prev; byte = unat edge div 8; k = unat edge mod 8
      in if seen byte AND push_bit k 1 \<noteq> 0
         then edge_loop pcs pc seen edges
         else edge_loop pcs pc (seen(byte := seen byte OR push_bit k 1)) (edges @ [edge]))"

definition edge_signal_from_pcs :: "u64 list \<Rightarrow> prog_signal" where
  "edge_signal_from_pcs pcs = \<lparr>ps_edges = sort (edge_loop pcs 0 (\<lambda>_. 0) [])\<rparr>"

section \<open>The corpus\<close>

record edge_signal =
  es_map :: "u32 \<Rightarrow> u8"
  es_total :: nat

record corpus_entry =
  ce_prog :: int
  ce_sig :: prog_signal
  ce_unique :: nat

record corpus =
  co_entries :: "corpus_entry list"
  co_max :: edge_signal

definition corpus_new :: corpus where
  "corpus_new = \<lparr>co_entries = [], co_max = \<lparr>es_map = \<lambda>_. 0, es_total = 0\<rparr>\<rparr>"

definition new_count :: "corpus \<Rightarrow> prog_signal \<Rightarrow> nat" where
  "new_count c sg = length (filter (\<lambda>e. es_map (co_max c) e = 0) (ps_edges sg))"

definition bump_edge :: "u32 \<Rightarrow> edge_signal \<Rightarrow> edge_signal" where
  "bump_edge e m =
     (let m = (if es_map m e < 255 then m\<lparr>es_map := (es_map m)(e := es_map m e + 1)\<rparr> else m)
      in if es_map m e = 1 then m\<lparr>es_total := es_total m + 1\<rparr> else m)"

definition corpus_add :: "int \<Rightarrow> prog_signal \<Rightarrow> corpus \<Rightarrow> bool \<times> corpus" where
  "corpus_add prog_id sg c =
     (let new_edges = new_count c sg
      in if new_edges = 0 then (False, c)
         else (True, c\<lparr>co_max := fold bump_edge (ps_edges sg) (co_max c),
                       co_entries := co_entries c @ [\<lparr>ce_prog = prog_id, ce_sig = sg, ce_unique = new_edges\<rparr>]\<rparr>))"

definition count_edge :: "u32 \<Rightarrow> (u32 \<Rightarrow> nat) \<Rightarrow> (u32 \<Rightarrow> nat)" where
  "count_edge e rc = (if rc e < 65535 then rc(e := rc e + 1) else rc)"

definition refcounts :: "corpus_entry list \<Rightarrow> (u32 \<Rightarrow> nat)" where
  "refcounts es = fold (\<lambda>x rc. fold count_edge (ps_edges (ce_sig x)) rc) es (\<lambda>_. 0)"

definition uncount_edge :: "u32 \<Rightarrow> (u32 \<Rightarrow> nat) \<Rightarrow> (u32 \<Rightarrow> nat)" where
  "uncount_edge e rc = rc(e := (rc e + 65535) mod 65536)"

definition has_unique :: "(u32 \<Rightarrow> nat) \<Rightarrow> corpus_entry \<Rightarrow> bool" where
  "has_unique rc x \<longleftrightarrow> list_ex (\<lambda>e. rc e = 1) (ps_edges (ce_sig x))"

function minimize_loop :: "(u32 \<Rightarrow> nat) \<Rightarrow> corpus_entry list \<Rightarrow> nat \<Rightarrow> nat \<Rightarrow> (u32 \<Rightarrow> nat) \<times> corpus_entry list \<times> nat" where
  "minimize_loop rc es i removed =
     (if i < length es
      then (if \<not> has_unique rc (es ! i)
            then minimize_loop (fold uncount_edge (ps_edges (ce_sig (es ! i))) rc) (swap_remove es i) i (removed + 1)
            else minimize_loop rc es (i + 1) removed)
      else (rc, es, removed))"
  by pat_completeness auto
termination
  by (relation "measure (\<lambda>(rc, es, i, removed). length es + length es - i)") (auto simp: length_swap_remove)

declare minimize_loop.simps [simp del]

definition set_unique :: "(u32 \<Rightarrow> nat) \<Rightarrow> corpus_entry \<Rightarrow> corpus_entry" where
  "set_unique rc x = x\<lparr>ce_unique := length (filter (\<lambda>e. rc e = 1) (ps_edges (ce_sig x)))\<rparr>"

definition minimize :: "corpus \<Rightarrow> nat \<times> corpus" where
  "minimize c =
     (if length (co_entries c) \<le> 1 then (0, c)
      else let (rc, es, removed) = minimize_loop (refcounts (co_entries c)) (co_entries c) 0 0
           in (removed, c\<lparr>co_entries := map (set_unique rc) es\<rparr>))"

definition total_edges :: "corpus \<Rightarrow> nat" where
  "total_edges c = es_total (co_max c)"

definition corpus_size :: "corpus \<Rightarrow> nat" where
  "corpus_size c = length (co_entries c)"

section \<open>Edges of a trace\<close>

lemma edge_hash_less: "unat (edge_hash pc prev) < signal_map_size"
proof -
  have m: "of_nat signal_map_size - 1 = (mask 16 :: u64)" by (simp add: signal_map_size_def mask_eq_exp_minus_1)
  have "unat (ucast (x AND mask 16) :: u32) = take_bit 16 (unat x)" for x :: u64
    by (simp only: unsigned_ucast_eq take_bit_eq_mask [symmetric] unsigned_take_bit_eq take_bit_take_bit) simp
  then have "unat (ucast (x AND mask 16) :: u32) < 2 ^ 16" for x :: u64 by (simp only: take_bit_nat_less_exp)
  then have lt: "unat (ucast (x AND mask 16) :: u32) < 65536" for x :: u64 by simp
  show ?thesis unfolding edge_hash_def Let_def m unfolding signal_map_size_def by (rule lt)
qed

definition seen_is :: "(nat \<Rightarrow> u8) \<Rightarrow> u32 set \<Rightarrow> bool" where
  "seen_is seen E \<longleftrightarrow> (\<forall>e. bit (seen (unat e div 8)) (unat e mod 8) \<longleftrightarrow> e \<in> E)"

lemma and_push_1: "(w :: u8) AND push_bit k 1 \<noteq> 0 \<longleftrightarrow> bit w k"
  by (simp only: bit_iff_and_push_bit_not_eq_0)

lemma seen_is_insert:
  assumes "seen_is seen E"
  shows "seen_is (seen(unat e div 8 := seen (unat e div 8) OR push_bit (unat e mod 8) 1)) (insert e E)"
proof -
  let ?s = "seen(unat e div 8 := seen (unat e div 8) OR push_bit (unat e mod 8) 1)"
  have inj: "f = e" if "unat f div 8 = unat e div 8" "unat f mod 8 = unat e mod 8" for f :: u32
    using that by (metis div_mult_mod_eq word_eq_iff_unsigned)
  have "bit (?s (unat f div 8)) (unat f mod 8) \<longleftrightarrow> f \<in> insert e E" for f :: u32
  proof (cases "unat f div 8 = unat e div 8")
    case True
    have "bit (?s (unat f div 8)) (unat f mod 8) \<longleftrightarrow> bit (seen (unat f div 8)) (unat f mod 8) \<or> unat f mod 8 = unat e mod 8"
      by (auto simp: True bit_or_iff bit_exp_iff)
    with assms inj [OF True] show ?thesis by (auto simp only: seen_is_def insert_iff)
  next
    case False
    with assms show ?thesis by (auto simp: seen_is_def)
  qed
  then show ?thesis by (simp only: seen_is_def simp_thms)
qed

fun trace_edges :: "u64 \<Rightarrow> u64 list \<Rightarrow> u32 list" where
  "trace_edges prev [] = []"
| "trace_edges prev (pc # pcs) = edge_hash pc prev # trace_edges pc pcs"

lemma edge_loop_spec:
  "seen_is seen (set edges) \<Longrightarrow> distinct edges \<Longrightarrow>
     distinct (edge_loop pcs prev seen edges) \<and>
     set (edge_loop pcs prev seen edges) = set edges \<union> set (trace_edges prev pcs)"
proof (induction pcs arbitrary: prev seen edges)
  case (Cons pc pcs)
  let ?e = "edge_hash pc prev"
  show ?case
  proof (cases "?e \<in> set edges")
    case True
    with Cons.prems have "seen (unat ?e div 8) AND push_bit (unat ?e mod 8) 1 \<noteq> 0"
      by (simp add: and_push_1 seen_is_def del: push_bit_of_1)
    with True Cons show ?thesis by (auto simp: Let_def)
  next
    case False
    with Cons.prems have "\<not> seen (unat ?e div 8) AND push_bit (unat ?e mod 8) 1 \<noteq> 0"
      unfolding and_push_1 by (simp add: seen_is_def)
    then have not_seen: "(seen (unat ?e div 8) AND push_bit (unat ?e mod 8) 1 \<noteq> 0) = False" by simp
    define s' where "s' = seen(unat ?e div 8 := seen (unat ?e div 8) OR push_bit (unat ?e mod 8) 1)"
    have step: "edge_loop (pc # pcs) prev seen edges = edge_loop pcs pc s' (edges @ [?e])"
      by (simp only: edge_loop.simps Let_def not_seen if_False s'_def)
    have "seen_is s' (set (edges @ [?e]))"
      using seen_is_insert [OF Cons.prems(1), of ?e] by (simp only: s'_def set_append list.set Un_insert_right Un_empty_right)
    from Cons.IH [OF this, of pc] False Cons.prems(2) show ?thesis unfolding step by simp
  qed
qed simp

section \<open>The corpus invariant\<close>

definition covered :: "corpus_entry list \<Rightarrow> u32 set" where
  "covered es = (\<Union>x\<in>set es. set (ps_edges (ce_sig x)))"

definition support :: "edge_signal \<Rightarrow> u32 set" where
  "support m = {e. es_map m e \<noteq> 0}"

definition corpus_inv :: "corpus \<Rightarrow> bool" where
  "corpus_inv c \<longleftrightarrow> support (co_max c) = covered (co_entries c) \<and>
     es_total (co_max c) = card (support (co_max c)) \<and>
     list_all (\<lambda>x. distinct (ps_edges (ce_sig x))) (co_entries c)"

lemma finite_covered: "finite (covered es)"
  by (simp add: covered_def)

lemma covered_simps: "covered [] = {}" "covered (x # es) = set (ps_edges (ce_sig x)) \<union> covered es"
  "covered (es @ fs) = covered es \<union> covered fs"
  by (auto simp: covered_def)

lemma bump_edge_support: "support (bump_edge e m) = insert e (support m)"
proof (cases "es_map m e < 255")
  case True
  then have "uint (es_map m e + 1) = uint (es_map m e) + 1" by (simp add: uint_word_ariths word_less_def)
  then have "es_map m e + 1 \<noteq> 0" by (metis add_nonneg_eq_0_iff uint_0_eq unsigned_greater_eq zero_le_one zero_neq_one)
  with True show ?thesis by (auto simp: bump_edge_def Let_def support_def)
next
  case False
  then have "es_map m e \<noteq> 0" "es_map m e \<noteq> 1" by auto
  with False show ?thesis by (auto simp: bump_edge_def Let_def support_def)
qed

lemma bump_edge_total:
  "es_total (bump_edge e m) = es_total m + (if e \<in> support m then 0 else 1)"
proof (cases "es_map m e = 0")
  case True
  then show ?thesis by (simp add: bump_edge_def Let_def support_def)
next
  case False
  have "es_map m e + 1 \<noteq> 1" using False by simp
  moreover have "\<not> es_map m e < 255 \<Longrightarrow> es_map m e \<noteq> 1" by auto
  ultimately show ?thesis using False by (simp add: bump_edge_def Let_def support_def)
qed

lemma bump_all:
  "finite (support m) \<Longrightarrow> es_total m = card (support m) \<Longrightarrow>
     support (fold bump_edge es m) = set es \<union> support m \<and> es_total (fold bump_edge es m) = card (set es \<union> support m)"
proof (induction es arbitrary: m)
  case (Cons e es)
  have "es_total (bump_edge e m) = card (support (bump_edge e m))"
    using Cons.prems by (simp add: bump_edge_total bump_edge_support card_insert_if)
  with Cons.IH [of "bump_edge e m"] Cons.prems show ?case by (simp add: bump_edge_support)
qed simp

lemma corpus_add_inv:
  assumes "corpus_inv c" and "distinct (ps_edges sg)"
  shows "corpus_inv (snd (corpus_add pid sg c))"
proof -
  have "finite (support (co_max c))" using assms(1) by (simp add: corpus_inv_def finite_covered)
  with bump_all [of "co_max c" "ps_edges sg"] assms show ?thesis
    by (simp add: corpus_add_def Let_def corpus_inv_def covered_simps Un_commute)
qed

section \<open>Minimization\<close>

abbreviation edges_of :: "corpus_entry \<Rightarrow> u32 set" where
  "edges_of x \<equiv> set (ps_edges (ce_sig x))"

definition all_distinct :: "corpus_entry list \<Rightarrow> bool" where
  "all_distinct es \<longleftrightarrow> (\<forall>x\<in>set es. distinct (ps_edges (ce_sig x)))"

definition cnt :: "corpus_entry list \<Rightarrow> u32 \<Rightarrow> nat" where
  "cnt es e = length (filter (\<lambda>x. e \<in> edges_of x) es)"

lemma cnt_pos: "0 < cnt es e \<longleftrightarrow> e \<in> covered es"
  by (auto simp: cnt_def covered_def filter_empty_conv)

lemma mset_swap_remove: "i < length xs \<Longrightarrow> add_mset (xs ! i) (mset (swap_remove xs i)) = mset xs"
proof -
  assume i: "i < length xs"
  then obtain ys y where xs: "xs = ys @ [y]" by (cases xs rule: rev_cases) auto
  show ?thesis
  proof (cases "i = length ys")
    case False
    then have j: "i < length ys" using i xs by simp
    then have "swap_remove xs i = ys[i := y]" by (simp add: xs swap_remove_def list_update_append1)
    moreover have "add_mset (ys ! i) (mset (ys[i := y])) = add_mset y (mset ys)"
      using j by (simp add: mset_update nth_mem_mset)
    ultimately show ?thesis using j by (simp add: xs nth_append)
  qed (simp add: xs swap_remove_def)
qed

lemma nth_swap_remove: "i < length xs \<Longrightarrow> k < i \<Longrightarrow> swap_remove xs i ! k = xs ! k"
  by (simp add: swap_remove_def nth_butlast)

lemma cnt_swap_remove:
  assumes "i < length es"
  shows "cnt es e = cnt (swap_remove es i) e + (if e \<in> edges_of (es ! i) then 1 else 0)"
proof -
  have c: "cnt xs e = size (filter_mset (\<lambda>x. e \<in> edges_of x) (mset xs))" for xs
    unfolding cnt_def by (metis mset_filter size_mset)
  show ?thesis unfolding c mset_swap_remove [OF assms, symmetric] by simp
qed

lemma set_swap_remove_all: "i < length es \<Longrightarrow> set es = insert (es ! i) (set (swap_remove es i))"
  using mset_swap_remove [of i es] by (metis set_mset_add_mset_insert set_mset_mset)

lemma fold_count_edge:
  "distinct xs \<Longrightarrow> fold count_edge xs rc e = (if e \<in> set xs \<and> rc e < 65535 then rc e + 1 else rc e)"
  by (induction xs arbitrary: rc) (auto simp: count_edge_def)

lemma fold_uncount_edge:
  "distinct xs \<Longrightarrow> fold uncount_edge xs rc e = (if e \<in> set xs then (rc e + 65535) mod 65536 else rc e)"
  by (induction xs arbitrary: rc) (auto simp: uncount_edge_def)

lemma refcounts_cnt: "all_distinct es \<Longrightarrow> refcounts es e = min 65535 (cnt es e)"
proof -
  have "all_distinct es \<Longrightarrow> rc e = min 65535 k \<Longrightarrow>
      fold (\<lambda>x rc. fold count_edge (ps_edges (ce_sig x)) rc) es rc e = min 65535 (k + cnt es e)" for rc k
  proof (induction es arbitrary: rc k)
    case (Cons x es)
    let ?k = "k + (if e \<in> edges_of x then 1 else 0)"
    have "fold count_edge (ps_edges (ce_sig x)) rc e = min 65535 ?k"
      using Cons.prems by (auto simp: fold_count_edge all_distinct_def)
    with Cons.IH [of "fold count_edge (ps_edges (ce_sig x)) rc" ?k] Cons.prems
    show ?case by (simp add: all_distinct_def cnt_def)
  qed (simp add: cnt_def)
  from this [of "\<lambda>_. 0" 0] show "all_distinct es \<Longrightarrow> ?thesis" by (simp add: refcounts_def)
qed

definition rc_ok :: "(u32 \<Rightarrow> nat) \<Rightarrow> corpus_entry list \<Rightarrow> bool" where
  "rc_ok rc es \<longleftrightarrow> (\<forall>e. rc e \<le> cnt es e \<and> rc e \<le> 65535 \<and> (0 < cnt es e \<longrightarrow> 0 < rc e))"

lemma wrap_dec: "0 < n \<Longrightarrow> n \<le> 65535 \<Longrightarrow> (n + 65535) mod 65536 = n - (1 :: nat)"
proof -
  assume "0 < n" "n \<le> 65535"
  then have "n + 65535 = (n - 1) + 65536" "n - 1 < 65536" by simp_all
  then show ?thesis by (simp only: mod_add_self2 mod_less)
qed

lemma drop_entry:
  assumes ok: "rc_ok rc es" and d: "all_distinct es" and i: "i < length es" and nu: "\<not> has_unique rc (es ! i)"
  shows "rc_ok (fold uncount_edge (ps_edges (ce_sig (es ! i))) rc) (swap_remove es i)"
    and "covered (swap_remove es i) = covered es"
    and "fold uncount_edge (ps_edges (ce_sig (es ! i))) rc e = (if e \<in> edges_of (es ! i) then rc e - 1 else rc e)"
proof -
  have di: "distinct (ps_edges (ce_sig (es ! i)))" using d i by (simp add: all_distinct_def)
  have two: "2 \<le> rc e" "rc e \<le> 65535" "rc e \<le> cnt es e" if "e \<in> edges_of (es ! i)" for e
  proof -
    have "e \<in> covered es" using that i by (auto simp: covered_def)
    then have "0 < rc e" using ok by (simp add: rc_ok_def cnt_pos)
    moreover have "rc e \<noteq> 1" using nu that by (auto simp: has_unique_def list_ex_iff)
    ultimately show "2 \<le> rc e" by linarith
    show "rc e \<le> 65535" "rc e \<le> cnt es e" using ok by (simp_all add: rc_ok_def)
  qed
  have step: "fold uncount_edge (ps_edges (ce_sig (es ! i))) rc e = (if e \<in> edges_of (es ! i) then rc e - 1 else rc e)" for e
  proof (cases "e \<in> edges_of (es ! i)")
    case True
    with two [OF True] wrap_dec [of "rc e"] show ?thesis by (simp add: fold_uncount_edge [OF di])
  qed (simp add: fold_uncount_edge [OF di])
  then show "fold uncount_edge (ps_edges (ce_sig (es ! i))) rc e = (if e \<in> edges_of (es ! i) then rc e - 1 else rc e)" .
  have c: "cnt (swap_remove es i) e = cnt es e - (if e \<in> edges_of (es ! i) then 1 else 0)" for e
    using cnt_swap_remove [OF i, of e] by simp
  show "rc_ok (fold uncount_edge (ps_edges (ce_sig (es ! i))) rc) (swap_remove es i)"
  proof -
    have "rc e - 1 \<le> cnt es e - 1 \<and> rc e - 1 \<le> 65535 \<and> 0 < rc e - 1" if "e \<in> edges_of (es ! i)" for e
      using two [OF that] by linarith
    then show ?thesis unfolding rc_ok_def step c using ok by (simp add: rc_ok_def)
  qed
  have "e \<in> covered (swap_remove es i) \<longleftrightarrow> e \<in> covered es" for e
  proof -
    have "2 \<le> cnt es e" if "e \<in> edges_of (es ! i)" using two [OF that] by linarith
    then show ?thesis by (auto simp: cnt_pos [symmetric] c)
  qed
  then show "covered (swap_remove es i) = covered es" by blast
qed

lemma minimize_loop_covered:
  "minimize_loop rc es i n = (rc', es', n') \<Longrightarrow> rc_ok rc es \<Longrightarrow> all_distinct es \<Longrightarrow>
     covered es' = covered es \<and> set es' \<subseteq> set es \<and> n' + length es' = n + length es"
proof (induction rc es i n rule: minimize_loop.induct)
  case (1 rc es i n)
  note unf = minimize_loop.simps [of rc es i n]
  show ?case
  proof (cases "i < length es")
    case False
    with 1(3) show ?thesis by (auto simp: unf)
  next
    case i: True
    show ?thesis
    proof (cases "has_unique rc (es ! i)")
      case True
      with i 1(2) [OF i] 1(3-5) show ?thesis by (simp add: unf)
    next
      case False
      note step = drop_entry [OF 1(4,5) i False]
      have sub: "set (swap_remove es i) \<subseteq> set es" by (rule set_swap_remove [OF i])
      have "all_distinct (swap_remove es i)" using 1(5) sub by (auto simp: all_distinct_def)
      moreover have "minimize_loop (fold uncount_edge (ps_edges (ce_sig (es ! i))) rc) (swap_remove es i) i (n + 1) = (rc', es', n')"
        using 1(3) i False by (simp add: unf)
      ultimately show ?thesis
        using 1(1) [OF i False] step(1,2) sub i by (auto simp: length_swap_remove)
    qed
  qed
qed

lemma minimize_loop_unique:
  "minimize_loop rc es i n = (rc', es', n') \<Longrightarrow> rc_ok rc es \<Longrightarrow> all_distinct es \<Longrightarrow> (\<forall>e. rc e = cnt es e) \<Longrightarrow>
     i \<le> length es \<Longrightarrow> (\<forall>k<i. has_unique rc (es ! k)) \<Longrightarrow>
     (\<forall>e. rc' e = cnt es' e) \<and> (\<forall>x\<in>set es'. has_unique rc' x)"
proof (induction rc es i n rule: minimize_loop.induct)
  case (1 rc es i n)
  note unf = minimize_loop.simps [of rc es i n]
  show ?case
  proof (cases "i < length es")
    case False
    with 1(3) have "rc' = rc" "es' = es" by (simp_all add: unf)
    with 1(6,7,8) False show ?thesis by (auto simp: in_set_conv_nth)
  next
    case i: True
    show ?thesis
    proof (cases "has_unique rc (es ! i)")
      case True
      have "minimize_loop rc es (i + 1) n = (rc', es', n')" using 1(3) i True by (simp add: unf)
      moreover have "\<forall>k<i + 1. has_unique rc (es ! k)" using 1(8) True by (simp add: less_Suc_eq)
      moreover have "i + 1 \<le> length es" using i by simp
      ultimately show ?thesis using 1(2) [OF i] True 1(4-6) by blast
    next
      case False
      let ?rc = "fold uncount_edge (ps_edges (ce_sig (es ! i))) rc"
      note step = drop_entry [OF 1(4,5) i False]
      have exact: "?rc e = cnt (swap_remove es i) e" for e
        using cnt_swap_remove [OF i, of e] 1(6) by (simp add: step(3))
      have "has_unique ?rc (swap_remove es i ! k)" if "k < i" for k
      proof -
        have "has_unique rc (es ! k)" using 1(8) that by simp
        then obtain e where e: "e \<in> edges_of (es ! k)" "rc e = 1" by (auto simp: has_unique_def list_ex_iff)
        then have "e \<notin> edges_of (es ! i)" using False by (auto simp: has_unique_def list_ex_iff)
        with e that i show ?thesis by (auto simp: has_unique_def list_ex_iff nth_swap_remove step(3))
      qed
      moreover have "all_distinct (swap_remove es i)" using 1(5) set_swap_remove [OF i] by (auto simp: all_distinct_def)
      moreover have "minimize_loop ?rc (swap_remove es i) i (n + 1) = (rc', es', n')" using 1(3) i False by (simp add: unf)
      moreover have "i \<le> length (swap_remove es i)" using i by (simp add: length_swap_remove)
      ultimately show ?thesis using 1(1) [OF i False] step(1) exact by blast
    qed
  qed
qed

lemma refcounts_ok: "all_distinct es \<Longrightarrow> rc_ok (refcounts es) es"
  by (auto simp: rc_ok_def refcounts_cnt)

lemma edges_set_unique: "ce_sig (set_unique rc x) = ce_sig x"
  by (simp add: set_unique_def)

lemma covered_set_unique: "covered (map (set_unique rc) es) = covered es"
  by (simp add: covered_def set_unique_def)

lemma minimize_keeps:
  assumes "corpus_inv c"
  shows "corpus_inv (snd (minimize c))" and "covered (co_entries (snd (minimize c))) = covered (co_entries c)"
    and "fst (minimize c) + corpus_size (snd (minimize c)) = corpus_size c"
proof -
  have d: "all_distinct (co_entries c)" using assms by (simp add: corpus_inv_def all_distinct_def list_all_iff)
  obtain rc es n where l: "minimize_loop (refcounts (co_entries c)) (co_entries c) 0 0 = (rc, es, n)" by (rule prod_cases3)
  from minimize_loop_covered [OF l refcounts_ok [OF d] d]
  have r: "covered es = covered (co_entries c)" "set es \<subseteq> set (co_entries c)" "n + length es = length (co_entries c)" by simp_all
  then have "list_all (\<lambda>x. distinct (ps_edges (ce_sig x))) (map (set_unique rc) es)"
    using d by (auto simp: all_distinct_def list_all_iff set_unique_def)
  with assms l r show "corpus_inv (snd (minimize c))" "covered (co_entries (snd (minimize c))) = covered (co_entries c)"
    "fst (minimize c) + corpus_size (snd (minimize c)) = corpus_size c"
    by (simp_all add: minimize_def corpus_inv_def covered_set_unique corpus_size_def)
qed

section \<open>Properties\<close>

text \<open>The signal of a trace is the set of the hashes of its consecutive pairs of PCs, in ascending order and
  without repetitions, all of them indices of the signal map.\<close>

theorem edge_signal_spec:
  "set (ps_edges (edge_signal_from_pcs pcs)) = set (trace_edges 0 pcs) \<and>
   sorted_wrt (<) (ps_edges (edge_signal_from_pcs pcs)) \<and>
   list_all (\<lambda>e. unat e < signal_map_size) (ps_edges (edge_signal_from_pcs pcs))"
proof -
  have "seen_is (\<lambda>_. 0) (set [])" by (simp add: seen_is_def)
  from edge_loop_spec [OF this, of pcs 0]
  have l: "distinct (edge_loop pcs 0 (\<lambda>_. 0) [])" "set (edge_loop pcs 0 (\<lambda>_. 0) []) = set (trace_edges 0 pcs)" by simp_all
  have "list_all (\<lambda>e. unat e < signal_map_size) (trace_edges p pcs)" for p
    by (induction pcs arbitrary: p) (simp_all add: edge_hash_less)
  with l show ?thesis by (simp add: edge_signal_from_pcs_def strict_sorted_iff list_all_iff)
qed

text \<open>The states of a corpus under the operations of the fuzzer.\<close>

inductive corpus_reach :: "corpus \<Rightarrow> bool" where
  reach_new: "corpus_reach corpus_new"
| reach_add: "corpus_reach c \<Longrightarrow> corpus_reach (snd (corpus_add pid (edge_signal_from_pcs pcs) c))"
| reach_minimize: "corpus_reach c \<Longrightarrow> corpus_reach (snd (minimize c))"

lemma corpus_new_inv: "corpus_inv corpus_new"
  by (simp add: corpus_inv_def corpus_new_def support_def covered_def)

lemma edge_signal_distinct: "distinct (ps_edges (edge_signal_from_pcs pcs))"
proof -
  have "seen_is (\<lambda>_. 0) (set [])" by (simp add: seen_is_def)
  from edge_loop_spec [OF this, of pcs 0] show ?thesis by (simp add: edge_signal_from_pcs_def)
qed

lemma corpus_reach_inv: "corpus_reach c \<Longrightarrow> corpus_inv c"
  by (induction rule: corpus_reach.induct)
    (simp_all add: corpus_new_inv corpus_add_inv edge_signal_distinct minimize_keeps(1))

text \<open>C16. In every corpus the fuzzer can reach by adding traces and minimizing, the maximal signal marks exactly the
  edges the kept programs cover, and \<open>total_edges\<close> is their number: rejecting and minimizing lose no coverage.\<close>

theorem corpus_reach_coverage:
  assumes "corpus_reach c"
  shows "(es_map (co_max c) e \<noteq> 0 \<longleftrightarrow> e \<in> covered (co_entries c)) \<and> total_edges c = card (covered (co_entries c))"
  using corpus_reach_inv [OF assms] by (auto simp: corpus_inv_def support_def total_edges_def)

theorem corpus_reach_coverage_witness:
  "total_edges (snd (minimize (snd (corpus_add 1 (edge_signal_from_pcs [0x10, 0x20]) corpus_new)))) =
   card (covered (co_entries (snd (minimize (snd (corpus_add 1 (edge_signal_from_pcs [0x10, 0x20]) corpus_new))))))"
  using corpus_reach_coverage [OF reach_minimize [OF reach_add [OF reach_new]]] by blast

text \<open>C15. Minimizing a corpus of fewer than 65536 programs keeps its coverage, returns the number of programs it
  dropped, and leaves only programs that cover an edge no other program of the result covers; \<open>unique_edges\<close>
  then counts those edges.\<close>

theorem minimize_irredundant:
  assumes "corpus_inv c" and "2 \<le> corpus_size c" and "corpus_size c \<le> 65535" and "minimize c = (removed, c')"
  shows "covered (co_entries c') = covered (co_entries c) \<and> removed + corpus_size c' = corpus_size c \<and>
    list_all (\<lambda>x. 0 < ce_unique x \<and>
      ce_unique x = card {e \<in> edges_of x. length (filter (\<lambda>y. e \<in> edges_of y) (co_entries c')) = 1}) (co_entries c')"
proof -
  have d: "all_distinct (co_entries c)" using assms(1) by (simp add: corpus_inv_def all_distinct_def list_all_iff)
  obtain rc es n where l: "minimize_loop (refcounts (co_entries c)) (co_entries c) 0 0 = (rc, es, n)" by (rule prod_cases3)
  have "cnt (co_entries c) e \<le> 65535" for e
    using assms(3) le_trans [OF length_filter_le] by (simp add: cnt_def corpus_size_def)
  then have "refcounts (co_entries c) e = cnt (co_entries c) e" for e by (simp add: refcounts_cnt [OF d])
  with minimize_loop_unique [OF l refcounts_ok [OF d] d]
  have u: "rc e = cnt es e" "x \<in> set es \<Longrightarrow> has_unique rc x" for e x by auto
  have c': "co_entries c' = map (set_unique rc) es" using assms(2,4) l by (auto simp: minimize_def corpus_size_def)
  have "cnt (map (set_unique rc) es) e = cnt es e" for e by (simp add: cnt_def filter_map o_def set_unique_def)
  then have eq: "length (filter (\<lambda>y. e \<in> edges_of y) (co_entries c')) = rc e" for e by (simp add: c' u(1) cnt_def)
  have "0 < ce_unique (set_unique rc x) \<and> ce_unique (set_unique rc x) = card {e \<in> edges_of x. rc e = 1}" if "x \<in> set es" for x
  proof -
    have "x \<in> set (co_entries c)" using minimize_loop_covered [OF l refcounts_ok [OF d] d] that by auto
    then have "distinct (filter (\<lambda>e. rc e = 1) (ps_edges (ce_sig x)))" using d by (simp add: all_distinct_def)
    then have "ce_unique (set_unique rc x) = card {e \<in> edges_of x. rc e = 1}"
      by (simp add: set_unique_def distinct_card [symmetric])
    moreover have "0 < ce_unique (set_unique rc x)"
      using u(2) [OF that] by (auto simp: set_unique_def has_unique_def list_ex_iff filter_empty_conv)
    ultimately show ?thesis by simp
  qed
  then have "list_all (\<lambda>x. 0 < ce_unique x \<and> ce_unique x = card {e \<in> edges_of x. rc e = 1}) (co_entries c')"
    unfolding c' list_all_iff set_map ball_simps(9) edges_set_unique by blast
  with minimize_keeps(2,3) [OF assms(1)] assms(4) show ?thesis by (simp add: eq)
qed

definition two_programs :: corpus where
  "two_programs = snd (corpus_add 2 \<lparr>ps_edges = [1, 2]\<rparr> (snd (corpus_add 1 \<lparr>ps_edges = [1]\<rparr> corpus_new)))"

theorem minimize_irredundant_witness:
  "map ce_prog (co_entries (snd (minimize two_programs))) = [2] \<and> covered (co_entries (snd (minimize two_programs))) = {1, 2} \<and>
   1 + corpus_size (snd (minimize two_programs)) = 2"
proof -
  have inv: "corpus_inv two_programs"
    unfolding two_programs_def by (intro corpus_add_inv corpus_new_inv) simp_all
  have e: "co_entries two_programs = [\<lparr>ce_prog = 1, ce_sig = \<lparr>ps_edges = [1]\<rparr>, ce_unique = 1\<rparr>,
      \<lparr>ce_prog = 2, ce_sig = \<lparr>ps_edges = [1, 2]\<rparr>, ce_unique = 1\<rparr>]"
    by (simp add: two_programs_def corpus_add_def corpus_new_def new_count_def bump_edge_def)
  then have size: "corpus_size two_programs = 2" and cov: "covered (co_entries two_programs) = {1, 2}"
    by (auto simp: corpus_size_def covered_def)
  have run: "fst (minimize two_programs) = 1 \<and> map ce_prog (co_entries (snd (minimize two_programs))) = [2]"
    by code_simp
  have "minimize two_programs = (1, snd (minimize two_programs))" using run by (metis prod.collapse)
  from minimize_irredundant [OF inv _ _ this] size cov run show ?thesis by simp
qed

end
