(* ===== verification/Fuzz_Mutate.thy ===== *)
theory Fuzz_Mutate
  imports Fuzz_Sets Syscall_Table
begin

text \<open>
  The mutation engine of \<^verbatim>\<open>vock/src/fuzz/mutate.rs\<close>. Drawing from the generator is state passing; an operation
  that indexes or slices is an option whose \<open>None\<close> is the panic of the code. \<open>isqrt\<close> is the truncated
  \<^verbatim>\<open>f64::sqrt\<close> of \<^verbatim>\<open>biased_idx\<close>: its argument is below \<open>n * n\<close> for a trace of \<open>n\<close> calls, far below \<open>2 ^ 52\<close>, where
  doubles are exact. Shown here: mutation never panics on a trace within the limit, keeps the shape of
  calls and invents no call numbers; how the biased index is distributed; and that minimization only
  drops calls whose result no later kept call uses.
\<close>

section \<open>Definitions\<close>

definition max_syscalls :: nat where
  "max_syscalls = 4096"

text \<open>The scores of an entry are not read by the mutator.\<close>

record seq_entry =
  se_calls :: "syscall list"
  se_score :: int
  se_coverage :: int
  se_novelty :: int
  se_signal_novelty :: int

definition special_ints :: "u64 list" where
  "special_ints = [0, 1, 2, 3, 4, 5, 6, 7, 8, 9, 10, 11, 12, 13, 14, 15, 16, 64, 127, 128, 129, 255, 256, 257, 511, 512,
     1023, 1024, 1025, 2047, 2048, 4095, 4096, 0x7fff, 0x8000, 0x8001, 0xffff, 0x10000, 0x10001,
     0x7fffffff, 0x80000000, 0x80000001, 0xffffffff, 0x100000000, 0x100000001,
     0x7fffffffffffffff, 0x8000000000000000, 0xffffffffffffffff]"

definition n_special :: nat where
  "n_special = 48"

definition rand_class :: "u64 \<Rightarrow> int \<Rightarrow> rng \<Rightarrow> u64 \<times> rng" where
  "rand_class v k r =
     (if k < 100 then (v mod 10, r)
      else if k < 150 then (let (i, r) = below_nat n_special r in (special_ints ! i, r))
      else if k < 160 then (v mod 256, r)
      else if k < 170 then (v mod 4096, r)
      else if k < 180 then (v mod 65536, r)
      else (v mod 0x80000000, r))"

definition rand_int :: "rng \<Rightarrow> u64 \<times> rng" where
  "rand_int r =
     (let (a, r) = rand r; (b, r) = rand r;
          v = push_bit 32 a OR b;
          (k, r) = below 182 r;
          (v, r) = rand_class v k r;
          (p, r) = below 107 r
      in if 100 \<le> p \<and> p < 105 then (- v, r)
         else if 105 \<le> p then (let (s, r) = below_nat 64 r in (push_bit s v, r))
         else (v, r))"

definition is_fd_arg :: "u64 \<Rightarrow> nat \<Rightarrow> bool" where
  "is_fd_arg nr ai \<longleftrightarrow> ai = 0 \<and> sint nr \<in> {0, 1, 3, 5, 7, 8, 16, 17, 18, 19, 20, 72, 73, 74, 75}"

definition user_pointer :: "u64 \<Rightarrow> bool" where
  "user_pointer v \<longleftrightarrow> (0x100000 \<le> v \<and> v \<le> 0x7fffffffffff) \<or> (0x7f0000000000 \<le> v \<and> v \<le> 0x7fffffffffffffff)"

definition mutate_scalar :: "u64 \<Rightarrow> rng \<Rightarrow> u64 \<times> rng" where
  "mutate_scalar v r =
     (let (s, r) = below 100 r
      in if s < 30 then rand_int r
         else if s < 50
         then (let (d, r) = below_nat 35 r; d = of_nat d + 1; (x, r) = rand r
               in (if x AND 1 = 1 then v + d else v - d, r))
         else if s < 70 then (let (k, r) = below_nat 64 r in (v XOR push_bit k 1, r))
         else if s < 85
         then (let (k, r) = below_nat 3 r; w = (push_bit k 1 :: u32);
                   mask = (if w = 4 then 0xffffffff else if w = 2 then 0xffff else 0xff);
                   (x, r) = rand_int r
               in ((v AND NOT mask) OR (x AND mask), r))
         else (let (i, r) = below_nat n_special r in (special_ints ! i, r)))"

text \<open>The descriptor is an \<^verbatim>\<open>i32\<close>, so the cast to \<^verbatim>\<open>u64\<close> extends its sign. The draw that decides whether a
  descriptor is used happens only for a descriptor argument with live descriptors.\<close>

definition mutate_arg :: "u64 \<Rightarrow> u64 \<Rightarrow> nat \<Rightarrow> fd_state \<Rightarrow> rng \<Rightarrow> u64 \<times> rng" where
  "mutate_arg v nr ai fs r =
     (if user_pointer v then (v, r)
      else if is_fd_arg nr ai \<and> 0 < nfds fs
      then (let (k, r) = below 4 r
            in if k < 3 then (let (f, r) = get_valid fs r in (scast f, r)) else mutate_scalar v r)
      else mutate_scalar v r)"

primrec isqrt :: "nat \<Rightarrow> nat" where
  "isqrt 0 = 0"
| "isqrt (Suc n) = (if (isqrt n + 1) * (isqrt n + 1) \<le> Suc n then isqrt n + 1 else isqrt n)"

definition biased_of :: "nat \<Rightarrow> nat \<Rightarrow> nat" where
  "biased_of n r = nat ((int n - 1) - int (isqrt r))"

definition biased_idx :: "nat \<Rightarrow> rng \<Rightarrow> nat \<times> rng" where
  "biased_idx n r = (if n = 0 then (0, r) else let (x, r) = below_nat (n * n) r in (biased_of n x, r))"

definition mutate_one :: "fd_state \<Rightarrow> syscall list \<Rightarrow> rng \<Rightarrow> (syscall list \<times> rng) option" where
  "mutate_one fs dst r =
     (let (ci, r) = biased_idx (length dst) r; (ai, r) = below_nat 6 r
      in do {
        c \<leftarrow> nth_opt dst ci;
        v \<leftarrow> nth_opt (sc_args c) ai;
        let (v', r) = mutate_arg v (sc_nr c) ai fs r;
        Some (dst[ci := c\<lparr>sc_args := (sc_args c)[ai := v']\<rparr>], r) })"

fun mutate_many :: "nat \<Rightarrow> fd_state \<Rightarrow> syscall list \<Rightarrow> rng \<Rightarrow> (syscall list \<times> rng) option" where
  "mutate_many 0 fs dst r = Some (dst, r)"
| "mutate_many (Suc m) fs dst r = do { (dst, r) \<leftarrow> mutate_one fs dst r; mutate_many m fs dst r }"

definition splice :: "syscall list \<Rightarrow> seq_entry list \<Rightarrow> rng \<Rightarrow> (syscall list \<times> rng) option" where
  "splice src corpus r =
     (let (k, r) = below_nat (length corpus) r
      in do {
        donor \<leftarrow> nth_opt corpus k;
        let calls = se_calls donor;
        let (cut, r) = (if 0 < length src then below_nat (length src) r else (0, r));
        let (ds, r) = (if 1 < length calls then below_nat (length calls) r else (0, r));
        dl \<leftarrow> (if max_syscalls < cut + (length calls - ds) then checked_sub max_syscalls cut else Some (length calls - ds));
        part \<leftarrow> slice_get calls ds (ds + dl);
        Some (take cut src @ part, r) })"

fun rand_args :: "nat \<Rightarrow> rng \<Rightarrow> u64 list \<times> rng" where
  "rand_args 0 r = ([], r)"
| "rand_args (Suc n) r = (let (v, r) = rand_int r; (vs, r) = rand_args n r in (v # vs, r))"

definition squash :: "syscall list \<Rightarrow> rng \<Rightarrow> (syscall list \<times> rng) option" where
  "squash dst r =
     (let (ci, r) = below_nat (length dst) r
      in do {
        c \<leftarrow> nth_opt dst ci;
        let (vs, r) = rand_args 6 r;
        Some (dst[ci := c\<lparr>sc_args := vs\<rparr>], r) })"

definition remove_at :: "nat \<Rightarrow> 'a list \<Rightarrow> 'a list" where
  "remove_at i xs = take i xs @ drop (i + 1) xs"

definition mutate_sequence :: "syscall list \<Rightarrow> seq_entry list \<Rightarrow> fd_state \<Rightarrow> rng \<Rightarrow> (syscall list \<times> rng) option" where
  "mutate_sequence src corpus fs r =
     (let n = length src; (w, r) = below 560 r
      in if w < 200 \<and> corpus \<noteq> [] then splice src corpus r
         else if w < 300 then (if 0 < n then mutate_one fs src r else Some (src, r))
         else if w < 400
         then (let (m, r) = below_nat 3 r in if 0 < n then mutate_many (m + 1) fs src r else Some (src, r))
         else if w < 500
         then (if 1 < n then (let (cut, r) = below_nat n r in Some (take cut src @ rev (drop cut src), r)) else Some (src, r))
         else if w < 550 then (if 0 < n then squash src r else Some (src, r))
         else (if 1 < n then (let (ci, r) = below_nat n r in Some (remove_at ci src, r)) else Some (src, r)))"

definition needed_by :: "u64 \<Rightarrow> syscall list \<Rightarrow> bool" where
  "needed_by ret later \<longleftrightarrow> 0 \<le> sint ret \<and> sint ret < 256 \<and> list_ex (\<lambda>c. ret \<in> set (sc_args c)) later"

primrec minimize_trace_loop :: "nat \<Rightarrow> syscall list \<Rightarrow> rng \<Rightarrow> syscall list \<times> rng" where
  "minimize_trace_loop 0 t r = (t, r)"
| "minimize_trace_loop (Suc i) t r =
     (if length t \<le> 3 then (t, r)
      else let (t, r) = (if \<not> needed_by (sc_ret (t ! Suc i)) (drop (Suc i + 1) t)
                         then (let (x, r) = below 3 r in if x = 0 then (remove_at (Suc i) t, r) else (t, r))
                         else (t, r))
           in minimize_trace_loop i t r)"

definition minimize_trace :: "syscall list \<Rightarrow> rng \<Rightarrow> syscall list \<times> rng" where
  "minimize_trace t r = (if length t \<le> 3 then (t, r) else minimize_trace_loop (length t - 1) t r)"

section \<open>The biased index\<close>

lemma isqrt_spec: "isqrt n * isqrt n \<le> n \<and> n < (isqrt n + 1) * (isqrt n + 1)"
proof (induction n)
  case (Suc n)
  have "(isqrt n + 1) * (isqrt n + 1) + 1 \<le> (isqrt n + 2) * (isqrt n + 2)" by simp
  with Suc show ?case by (cases "(isqrt n + 1) * (isqrt n + 1) \<le> Suc n") auto
qed simp

lemma isqrt_eq: "isqrt r = j \<longleftrightarrow> r \<in> {j * j..<(j + 1) * (j + 1)}"
proof
  assume r: "r \<in> {j * j..<(j + 1) * (j + 1)}"
  have "\<not> isqrt r < j"
  proof
    assume "isqrt r < j"
    then have "(isqrt r + 1) * (isqrt r + 1) \<le> j * j" by (intro mult_le_mono) simp_all
    with r isqrt_spec [of r] show False by auto
  qed
  moreover have "\<not> j < isqrt r"
  proof
    assume "j < isqrt r"
    then have "(j + 1) * (j + 1) \<le> isqrt r * isqrt r" by (intro mult_le_mono) simp_all
    with r isqrt_spec [of r] show False by auto
  qed
  ultimately show "isqrt r = j" by simp
qed (use isqrt_spec [of r] in auto)

lemma isqrt_less: "r < n * n \<Longrightarrow> isqrt r < n"
proof (rule ccontr)
  assume r: "r < n * n" and "\<not> isqrt r < n"
  then have "n * n \<le> isqrt r * isqrt r" by (intro mult_le_mono) simp_all
  with r isqrt_spec [of r] show False by simp
qed

lemma biased_of_eq: "r < n * n \<Longrightarrow> biased_of n r = n - 1 - isqrt r"
  using isqrt_less [of r n] by (simp add: biased_of_def nat_diff_distrib')

lemma biased_idx_less: "0 < n \<Longrightarrow> biased_idx n r = (i, r') \<Longrightarrow> i < n"
proof -
  assume n: "0 < n" and "biased_idx n r = (i, r')"
  then obtain x r1 where x: "below_nat (n * n) r = (x, r1)" and i: "i = biased_of n x"
    by (auto simp: biased_idx_def split: prod.splits)
  have "x < n * n" using fuzz_src.draw_bound [OF x] n by simp
  with n show "i < n" by (simp add: i biased_of_eq)
qed

section \<open>Shape\<close>

definition trace_ok :: "syscall list \<Rightarrow> bool" where
  "trace_ok t \<longleftrightarrow> list_all (\<lambda>c. length (sc_args c) = 6) t"

definition same_calls :: "syscall list \<Rightarrow> syscall list \<Rightarrow> bool" where
  "same_calls t t' \<longleftrightarrow> map sc_nr t' = map sc_nr t \<and> (trace_ok t \<longrightarrow> trace_ok t')"

lemma same_calls_refl: "same_calls t t"
  by (simp add: same_calls_def)

lemma same_calls_trans: "same_calls a b \<Longrightarrow> same_calls b c \<Longrightarrow> same_calls a c"
  by (simp add: same_calls_def)

lemma same_calls_length: "same_calls t t' \<Longrightarrow> length t' = length t"
  unfolding same_calls_def by (metis length_map)

lemma same_calls_update:
  assumes "i < length t" and "length vs = length (sc_args (t ! i)) \<or> length vs = 6"
  shows "same_calls t (t[i := (t ! i)\<lparr>sc_args := vs\<rparr>])"
proof -
  have "map sc_nr (t[i := (t ! i)\<lparr>sc_args := vs\<rparr>]) = map sc_nr t"
    using assms(1) by (simp add: map_update list_update_same_conv)
  moreover have "trace_ok t \<longrightarrow> trace_ok (t[i := (t ! i)\<lparr>sc_args := vs\<rparr>])"
    using assms by (auto simp: trace_ok_def list_all_length nth_list_update)
  ultimately show ?thesis by (simp add: same_calls_def)
qed

lemma mutate_one_total:
  assumes "t \<noteq> []" and "trace_ok t"
  shows "\<exists>t' r'. mutate_one fs t r = Some (t', r') \<and> same_calls t t'"
proof -
  obtain ci r1 where ci: "biased_idx (length t) r = (ci, r1)" by (cases "biased_idx (length t) r")
  obtain ai r2 where ai: "below_nat 6 r1 = (ai, r2)" by (cases "below_nat 6 r1")
  have c: "ci < length t" using biased_idx_less [OF _ ci] assms(1) by simp
  have a: "ai < length (sc_args (t ! ci))"
    using fuzz_src.draw_bound [OF ai] assms(2) c by (simp add: trace_ok_def list_all_length)
  obtain v r3 where v: "mutate_arg (sc_args (t ! ci) ! ai) (sc_nr (t ! ci)) ai fs r2 = (v, r3)"
    by (cases "mutate_arg (sc_args (t ! ci) ! ai) (sc_nr (t ! ci)) ai fs r2")
  have "mutate_one fs t r = Some (t[ci := (t ! ci)\<lparr>sc_args := (sc_args (t ! ci))[ai := v]\<rparr>], r3)"
    using c a by (simp add: mutate_one_def ci ai v nth_opt_def)
  with same_calls_update [OF c, of "(sc_args (t ! ci))[ai := v]"] show ?thesis by simp
qed

lemma mutate_many_total:
  "t \<noteq> [] \<Longrightarrow> trace_ok t \<Longrightarrow> \<exists>t' r'. mutate_many m fs t r = Some (t', r') \<and> same_calls t t'"
proof (induction m arbitrary: t r)
  case (Suc m)
  from mutate_one_total [OF Suc.prems] obtain t1 r1 where t1: "mutate_one fs t r = Some (t1, r1)" "same_calls t t1" by blast
  then have "t1 \<noteq> []" "trace_ok t1" using Suc.prems same_calls_length [of t t1] by (auto simp: same_calls_def)
  from Suc.IH [OF this] obtain t' r' where "mutate_many m fs t1 r1 = Some (t', r')" "same_calls t1 t'" by blast
  with t1 show ?case by (auto intro: same_calls_trans)
qed (simp add: same_calls_refl)

lemma length_rand_args: "length (fst (rand_args n r)) = n"
  by (induction n arbitrary: r) (auto simp: split_beta Let_def)

lemma squash_total:
  assumes "t \<noteq> []"
  shows "\<exists>t' r'. squash t r = Some (t', r') \<and> same_calls t t'"
proof -
  obtain ci r1 where ci: "below_nat (length t) r = (ci, r1)" by (cases "below_nat (length t) r")
  have c: "ci < length t" using fuzz_src.draw_bound [OF ci] assms by simp
  obtain vs r2 where vs: "rand_args 6 r1 = (vs, r2)" by (cases "rand_args 6 r1")
  then have "length vs = 6" using length_rand_args [of 6 r1] by simp
  with same_calls_update [OF c, of vs] c show ?thesis by (simp add: squash_def ci vs nth_opt_def)
qed

definition donor_calls :: "seq_entry list \<Rightarrow> syscall set" where
  "donor_calls corpus = (\<Union>d\<in>set corpus. set (se_calls d))"

lemma splice_total:
  assumes "corpus \<noteq> []" and len: "length src \<le> max_syscalls"
  shows "\<exists>t' r'. splice src corpus r = Some (t', r') \<and> length t' \<le> max_syscalls \<and> set t' \<subseteq> set src \<union> donor_calls corpus \<and>
    (list_all (\<lambda>d. se_calls d \<noteq> []) corpus \<longrightarrow> t' \<noteq> [])"
proof -
  obtain k r1 where k: "below_nat (length corpus) r = (k, r1)" by (cases "below_nat (length corpus) r")
  have kl: "k < length corpus" using fuzz_src.draw_bound [OF k] assms(1) by simp
  define calls where "calls = se_calls (corpus ! k)"
  obtain cut r2 where cut: "(if 0 < length src then below_nat (length src) r1 else (0, r1)) = (cut, r2)" by fastforce
  have cl: "cut \<le> length src" "cut < max_syscalls"
    using cut len fuzz_src.draw_bound [of "length src" r1 cut r2] by (auto split: if_splits simp: max_syscalls_def)
  obtain ds r3 where ds: "(if 1 < length calls then below_nat (length calls) r2 else (0, r2)) = (ds, r3)" by fastforce
  have inside: "calls \<noteq> [] \<Longrightarrow> ds < length calls"
    using ds fuzz_src.draw_bound [of "length calls" r2 ds r3] by (auto split: if_splits)
  then have "ds \<le> length calls" using ds by (cases "calls = []") (auto simp: less_imp_le)
  note dl = this inside
  define n where "n = (if max_syscalls < cut + (length calls - ds) then max_syscalls - cut else length calls - ds)"
  have n: "ds + n \<le> length calls" "cut + n \<le> max_syscalls" "calls \<noteq> [] \<Longrightarrow> 0 < n"
    using dl cl by (auto simp: n_def)
  have lim: "(if max_syscalls < cut + (length calls - ds) then checked_sub max_syscalls cut else Some (length calls - ds)) = Some n"
    using cl by (auto simp: n_def checked_sub_def)
  have part: "slice_get calls ds (ds + n) = Some (take n (drop ds calls))" using n(1) by simp
  have "nth_opt corpus k = Some (corpus ! k)" using kl by simp
  then have run: "splice src corpus r = Some (take cut src @ take n (drop ds calls), r3)"
    by (simp only: splice_def k prod.case Option.bind.simps Let_def calls_def [symmetric] cut ds lim part)
  have "set (take cut src @ take n (drop ds calls)) \<subseteq> set src \<union> donor_calls corpus"
    using kl by (auto simp: donor_calls_def calls_def dest!: in_set_takeD in_set_dropD intro!: bexI [of _ "corpus ! k"])
  moreover have "list_all (\<lambda>d. se_calls d \<noteq> []) corpus \<Longrightarrow> take cut src @ take n (drop ds calls) \<noteq> []"
    using kl n(1,3) by (auto simp: list_all_length calls_def)
  moreover have "length (take cut src @ take n (drop ds calls)) \<le> max_syscalls" using cl n by simp
  ultimately show ?thesis using run by blast
qed

section \<open>Minimization\<close>

text \<open>\<open>prunes t t'\<close>: \<open>t'\<close> is \<open>t\<close> without some calls, none of which a later kept call needs.\<close>

inductive prunes :: "syscall list \<Rightarrow> syscall list \<Rightarrow> bool" where
  prunes_Nil: "prunes [] []"
| prunes_keep: "prunes t t' \<Longrightarrow> prunes (c # t) (c # t')"
| prunes_drop: "prunes t t' \<Longrightarrow> \<not> needed_by (sc_ret c) t' \<Longrightarrow> prunes (c # t) t'"

lemma prunes_refl: "prunes t t"
  by (induction t) (auto intro: prunes.intros)

lemma prunes_prefix: "prunes q q' \<Longrightarrow> prunes (p @ q) (p @ q')"
  by (induction p) (auto intro: prunes.intros)

lemma minimize_trace_loop_prunes:
  "length p = Suc i \<Longrightarrow> 3 \<le> length (p @ q') \<Longrightarrow> prunes q q' \<Longrightarrow> minimize_trace_loop i (p @ q') r = (t', r') \<Longrightarrow>
     prunes (p @ q) t' \<and> 3 \<le> length t' \<and> hd t' = hd p"
proof (induction i arbitrary: p q q' r)
  case 0
  then show ?case by (auto simp: prunes_prefix hd_append)
next
  case (Suc i)
  obtain p0 c where p: "p = p0 @ [c]" using Suc.prems(1) by (cases p rule: rev_cases) auto
  then have p0: "length p0 = Suc i" using Suc.prems(1) by simp
  then have hd: "hd p = hd p0" by (cases p0) (simp_all add: p)
  let ?t = "p0 @ c # q'"
  have nth: "?t ! Suc i = c" "drop (Suc i + 1) ?t = q'" "remove_at (Suc i) ?t = p0 @ q'" using p0 by (simp_all add: nth_append remove_at_def)
  show ?case
  proof (cases "length ?t \<le> 3")
    case True
    with Suc.prems(2-4) p hd show ?thesis by (auto simp: prunes_prefix prunes_keep p0 hd_append)
  next
    case False
    obtain x r1 where x: "below 3 r = (x, r1)" by (cases "below 3 r")
    have step: "minimize_trace_loop (Suc i) ?t r =
        (if \<not> needed_by (sc_ret c) q' then minimize_trace_loop i (if x = 0 then p0 @ q' else ?t) r1 else minimize_trace_loop i ?t r)"
      by (simp only: minimize_trace_loop.simps False nth if_False x Let_def prod.case split: if_split) simp
    have run: "minimize_trace_loop (Suc i) ?t r = (t', r')" using Suc.prems(4) by (simp only: p append.assoc append_Cons append_Nil)
    consider (dropped) "\<not> needed_by (sc_ret c) q'" "x = 0" | (kept_drawn) "\<not> needed_by (sc_ret c) q'" "x \<noteq> 0" | (kept) "needed_by (sc_ret c) q'"
      by blast
    then show ?thesis
    proof cases
      case dropped
      with run have "minimize_trace_loop i (p0 @ q') r1 = (t', r')" by (simp only: step if_True simp_thms)
      from Suc.IH [OF p0 _ prunes_drop [OF Suc.prems(3) dropped(1)] this] False hd show ?thesis by (simp add: p)
    next
      case kept_drawn
      with run have "minimize_trace_loop i (p0 @ c # q') r1 = (t', r')" by (simp only: step if_True if_False simp_thms)
      from Suc.IH [OF p0 _ prunes_keep [OF Suc.prems(3)] this] False hd show ?thesis by (simp add: p)
    next
      case kept
      with run have "minimize_trace_loop i (p0 @ c # q') r = (t', r')" by (simp only: step if_False simp_thms)
      from Suc.IH [OF p0 _ prunes_keep [OF Suc.prems(3)] this] False hd show ?thesis by (simp add: p)
    qed
  qed
qed

section \<open>Properties\<close>

text \<open>C20. Mutating a trace of at most 4096 well-formed calls never panics: whatever is drawn, the result has at most
  4096 calls of six arguments each, uses only call numbers of the trace or of the corpus, and is empty only if
  the trace or some donor is.\<close>

theorem mutate_sequence_total:
  assumes "length src \<le> max_syscalls" and "trace_ok src" and "list_all (\<lambda>d. trace_ok (se_calls d)) corpus"
  shows "\<exists>dst r'. mutate_sequence src corpus fs r = Some (dst, r') \<and> length dst \<le> max_syscalls \<and> trace_ok dst \<and>
    sc_nr ` set dst \<subseteq> sc_nr ` set src \<union> sc_nr ` donor_calls corpus \<and>
    (src \<noteq> [] \<and> list_all (\<lambda>d. se_calls d \<noteq> []) corpus \<longrightarrow> dst \<noteq> [])"
proof -
  define good where "good dst \<longleftrightarrow> length dst \<le> max_syscalls \<and> trace_ok dst \<and>
    sc_nr ` set dst \<subseteq> sc_nr ` set src \<union> sc_nr ` donor_calls corpus \<and>
    (src \<noteq> [] \<and> list_all (\<lambda>d. se_calls d \<noteq> []) corpus \<longrightarrow> dst \<noteq> [])" for dst
  have same: "good dst" if "same_calls src dst" for dst
  proof -
    have "sc_nr ` set dst = sc_nr ` set src" using that unfolding same_calls_def by (metis image_set)
    then show ?thesis
      using that assms(1,2) same_calls_length [OF that] by (auto simp: good_def same_calls_def)
  qed
  have self: "good src" by (rule same [OF same_calls_refl])
  have rev: "good (take cut src @ rev (drop cut src))" for cut
    using assms(1,2) by (auto simp: good_def trace_ok_def list_all_iff dest: in_set_takeD in_set_dropD)
  have rem: "good (remove_at ci src)" if "1 < length src" "ci < length src" for ci
    using assms(1,2) that by (auto simp: good_def trace_ok_def remove_at_def list_all_iff dest: in_set_takeD in_set_dropD)
  have spl: "\<exists>dst r'. splice src corpus r = Some (dst, r') \<and> good dst" if "corpus \<noteq> []" for r
  proof -
    from splice_total [OF that assms(1)] obtain t' r' where t': "splice src corpus r = Some (t', r')" "length t' \<le> max_syscalls"
      "set t' \<subseteq> set src \<union> donor_calls corpus" "list_all (\<lambda>d. se_calls d \<noteq> []) corpus \<longrightarrow> t' \<noteq> []" by blast
    have "sc_nr ` set t' \<subseteq> sc_nr ` set src \<union> sc_nr ` donor_calls corpus" using image_mono [OF t'(3)] by (simp add: image_Un)
    moreover have "trace_ok t'" using t'(3) assms(2,3) by (fastforce simp: trace_ok_def list_all_iff donor_calls_def)
    ultimately have "good t'" using t'(2,4) by (simp add: good_def)
    with t'(1) show ?thesis by blast
  qed
  define ok where "ok x \<longleftrightarrow> (\<exists>dst r'. x = Some (dst, r') \<and> good dst)" for x :: "(syscall list \<times> rng) option"
  have okI: "ok (Some (dst, r'))" if "good dst" for dst r' using that by (simp add: ok_def)
  have okS: "ok x" if "\<exists>t' r'. x = Some (t', r') \<and> same_calls src t'" for x using that same by (auto simp: ok_def)
  obtain w r1 where w: "below 560 r = (w, r1)" by (cases "below 560 r")
  obtain m r2 where m: "below_nat 3 r1 = (m, r2)" by (cases "below_nat 3 r1")
  obtain i r3 where i: "below_nat (length src) r1 = (i, r3)" by (cases "below_nat (length src) r1")
  have one: "ok (if 0 < length src then mutate_one fs src r1 else Some (src, r1))"
    using okS [OF mutate_one_total [OF _ assms(2)]] okI [OF self] by (auto split: if_split)
  have many: "ok (if 0 < length src then mutate_many (m + 1) fs src r2 else Some (src, r2))"
    using okS [OF mutate_many_total [OF _ assms(2)]] okI [OF self] by (auto simp del: mutate_many.simps split: if_split)
  have sq: "ok (if 0 < length src then squash src r1 else Some (src, r1))"
    using okS [OF squash_total] okI [OF self] by (auto split: if_split)
  have rm: "ok (if 1 < length src then Some (remove_at i src, r3) else Some (src, r1))"
  proof (cases "1 < length src")
    case True
    then have "i < length src" using fuzz_src.draw_bound [OF i] by linarith
    with okI [OF rem [OF True]] True show ?thesis by simp
  qed (simp add: okI [OF self])
  have rv: "ok (if 1 < length src then Some (take i src @ rev (drop i src), r3) else Some (src, r1))"
    using okI [OF rev] okI [OF self] by (auto split: if_split)
  have "ok (mutate_sequence src corpus fs r)"
    using spl [of r1] one many sq rm rv
    by (simp only: mutate_sequence_def Let_def w m i prod.case ok_def split: if_split) blast
  then show ?thesis by (simp only: ok_def good_def)
qed

definition one_call :: "syscall list" where
  "one_call = [\<lparr>sc_nr = 3, sc_args = [7, 0, 0, 0, 0, 0], sc_ret = 0\<rparr>]"

theorem mutate_sequence_total_witness:
  "\<exists>dst r'. mutate_sequence one_call [] fd_new (rng_new 1) = Some (dst, r') \<and> dst \<noteq> [] \<and> trace_ok dst \<and> sc_nr ` set dst \<subseteq> {3}"
proof -
  have "length one_call \<le> max_syscalls" "trace_ok one_call" "list_all (\<lambda>d. trace_ok (se_calls d)) []"
    by (simp_all add: one_call_def max_syscalls_def trace_ok_def)
  from mutate_sequence_total [OF this, of fd_new "rng_new 1"] show ?thesis
    by (fastforce simp: one_call_def donor_calls_def)
qed

text \<open>Of the \<open>n * n\<close> values the biased index can be drawn from, exactly \<open>2 * (n - 1 - i) + 1\<close> select call \<open>i\<close>: the
  first call is the most likely one and the last the least likely.\<close>

theorem biased_idx_counts:
  assumes "i < n"
  shows "card {x \<in> {..<n * n}. biased_of n x = i} = 2 * (n - 1 - i) + 1"
proof -
  let ?j = "n - 1 - i"
  have "(?j + 1) * (?j + 1) \<le> n * n" using assms by (intro mult_le_mono) simp_all
  then have le: "x < n * n" if "x < (?j + 1) * (?j + 1)" for x using that by linarith
  have "biased_of n x = i \<longleftrightarrow> isqrt x = ?j" if "x < n * n" for x
    using isqrt_less [OF that] assms by (auto simp: biased_of_eq [OF that])
  then have "{x \<in> {..<n * n}. biased_of n x = i} = {x \<in> {..<n * n}. isqrt x = ?j}" by auto
  also have "\<dots> = {?j * ?j..<(?j + 1) * (?j + 1)}" using le by (auto simp only: isqrt_eq mem_Collect_eq lessThan_iff atLeastLessThan_iff)
  finally show ?thesis by simp
qed

theorem biased_idx_counts_witness:
  "card {x \<in> {..<3 * 3}. biased_of 3 x = 0} = 5 \<and> card {x \<in> {..<3 * 3}. biased_of 3 x = 2} = 1"
  using biased_idx_counts [of 0 3] biased_idx_counts [of 2 3] by simp

text \<open>C21. Minimizing a trace only drops calls whose result - as a descriptor below 256 - is the argument of no later
  call that is kept; it keeps the first call and, of a trace longer than three, at least three calls.\<close>

theorem minimize_trace_prunes:
  assumes "minimize_trace t r = (t', r')"
  shows "prunes t t' \<and> min 3 (length t) \<le> length t' \<and> (t = [] \<or> hd t' = hd t)"
proof (cases "length t \<le> 3")
  case True
  with assms show ?thesis by (simp add: minimize_trace_def prunes_refl)
next
  case False
  then have "length t = Suc (length t - 1)" "3 \<le> length (t @ [])" by simp_all
  with minimize_trace_loop_prunes [OF _ _ prunes_Nil, of t "length t - 1" r t' r'] assms False
  show ?thesis by (simp add: minimize_trace_def)
qed

definition four_calls :: "syscall list" where
  "four_calls = map (\<lambda>i. \<lparr>sc_nr = i, sc_args = [i, 0, 0, 0, 0, 0], sc_ret = -1\<rparr>) [0, 1, 2, 3]"

theorem minimize_trace_prunes_witness:
  "prunes four_calls (fst (minimize_trace four_calls (rng_new 3))) \<and>
   map sc_nr (fst (minimize_trace four_calls (rng_new 3))) = [0, 1, 2]"
proof -
  have "fst (below 3 (rng_new 3)) = 0" by (simp add: below_def rand_def next_u64_def rng_new_def)
  then obtain r where "below 3 (rng_new 3) = (0, r)" by (cases "below 3 (rng_new 3)") simp
  then have "map sc_nr (fst (minimize_trace four_calls (rng_new 3))) = [0, 1, 2]"
    by (simp add: minimize_trace_def four_calls_def needed_by_def remove_at_def eval_nat_numeral)
  with minimize_trace_prunes [OF prod.collapse [symmetric]] show ?thesis by blast
qed

end
