(* ===== verification/Prog_Mutate.thy ===== *)
theory Prog_Mutate
  imports Prog_Parse Fuzz_Rng
begin

text \<open>
  The program mutator of \<^verbatim>\<open>vock execprog -stress\<close> (\<^verbatim>\<open>fuzz/prog_mutate.rs\<close>) over the
  argument trees of \<open>Prog_Parse\<close> and the generator \<open>pm_rng\<close> of \<open>Fuzz_Rng\<close>. A function that indexes a vector
  returns an option whose \<open>None\<close> is the panic. Mutation never panics, edits exactly the chosen leaf, and keeps the
  pointers, resources and shape of every call.
\<close>

section \<open>Leaves\<close>

definition interesting :: "u64 list" where
  "interesting =
     [0, 1, 0xffffffffffffffff, 0x7fffffffffffffff, 0x8000000000000000, 0xffffffff, 0x7fffffff, 0x80000000,
      0xffff, 0x8000, 0x7f, 0x80, 0x100, 0x1000, 0x4000, 0xffffff00]"

definition mutate_int :: "u64 \<Rightarrow> pm_rng \<Rightarrow> (u64 \<times> pm_rng) option" where
  "mutate_int v r =
     (let (k, r) = pm_below 4 r
      in if k = 0 then (let (i, r) = pm_below (length interesting) r in map_option (\<lambda>x. (x, r)) (nth_opt interesting i))
         else if k = 1 then (let (i, r) = pm_below 64 r in Some (v XOR push_bit i 1, r))
         else if k = 2 then (let (i, r) = pm_below 4 r in Some (v + (1 + of_nat i), r))
         else (let (i, r) = pm_below 4 r in Some (v - (1 + of_nat i), r)))"

definition mutate_data :: "bytes \<Rightarrow> pm_rng \<Rightarrow> (bytes \<times> pm_rng) option" where
  "mutate_data d r =
     (if d = [] then (let (b, r) = pm_next r in Some (d @ [ucast b], r))
      else let (k, r) = pm_below 4 r
      in if k = 0
         then (let (i, r) = pm_below (length d) r; (j, r) = pm_below 8 r
               in map_option (\<lambda>b. (d[i := b XOR push_bit j 1], r)) (nth_opt d i))
         else if k = 1
         then (let (i, r) = pm_below (length d) r; (j, r) = pm_below (length interesting) r
               in do { x \<leftarrow> nth_opt interesting j; _ \<leftarrow> nth_opt d i; Some (d[i := ucast x], r) })
         else if k = 2 \<and> length d < 64 * 1024 then (let (b, r) = pm_next r in Some (d @ [ucast b], r))
         else Some (if 1 < length d then take (length d - 1) d else d, r))"

fun count_leaves :: "arg \<Rightarrow> nat" where
  "count_leaves (Int_arg v) = 1"
| "count_leaves (Data d) = 1"
| "count_leaves (Ptr addr (Some x)) = count_leaves x"
| "count_leaves (Union_arg x) = count_leaves x"
| "count_leaves (Out n x) = count_leaves x"
| "count_leaves (Struct fs) = sum_list (map count_leaves fs)"
| "count_leaves (Array fs) = sum_list (map count_leaves fs)"
| "count_leaves a = 0"

text \<open>The result is whether a leaf was edited, the tree, the leaves still to skip and the generator.\<close>

fun mutate_nth :: "arg \<Rightarrow> nat \<Rightarrow> pm_rng \<Rightarrow> (bool \<times> arg \<times> nat \<times> pm_rng) option"
  and mutate_fields :: "arg list \<Rightarrow> nat \<Rightarrow> pm_rng \<Rightarrow> (bool \<times> arg list \<times> nat \<times> pm_rng) option" where
  "mutate_nth (Int_arg v) n r =
     (if n = 0 then map_option (\<lambda>(v, r). (True, Int_arg v, n, r)) (mutate_int v r) else Some (False, Int_arg v, n - 1, r))"
| "mutate_nth (Data d) n r =
     (if n = 0 then map_option (\<lambda>(d, r). (True, Data d, n, r)) (mutate_data d r) else Some (False, Data d, n - 1, r))"
| "mutate_nth (Ptr addr (Some x)) n r = map_option (\<lambda>(b, x, n, r). (b, Ptr addr (Some x), n, r)) (mutate_nth x n r)"
| "mutate_nth (Union_arg x) n r = map_option (\<lambda>(b, x, n, r). (b, Union_arg x, n, r)) (mutate_nth x n r)"
| "mutate_nth (Out k x) n r = map_option (\<lambda>(b, x, n, r). (b, Out k x, n, r)) (mutate_nth x n r)"
| "mutate_nth (Struct fs) n r = map_option (\<lambda>(b, fs, n, r). (b, Struct fs, n, r)) (mutate_fields fs n r)"
| "mutate_nth (Array fs) n r = map_option (\<lambda>(b, fs, n, r). (b, Array fs, n, r)) (mutate_fields fs n r)"
| "mutate_nth a n r = Some (False, a, n, r)"
| "mutate_fields [] n r = Some (False, [], n, r)"
| "mutate_fields (f # fs) n r = do {
     (b, f, n, r) \<leftarrow> mutate_nth f n r;
     if b then Some (True, f # fs, n, r)
     else do { (b, fs, n, r) \<leftarrow> mutate_fields fs n r; Some (b, f # fs, n, r) } }"

section \<open>Programs\<close>

definition insert_at :: "nat \<Rightarrow> 'a \<Rightarrow> 'a list \<Rightarrow> 'a list" where
  "insert_at i x xs = take i xs @ x # drop i xs"

definition drop_call :: "prog \<Rightarrow> nat \<Rightarrow> pm_rng \<Rightarrow> (prog \<times> nat \<times> pm_rng) option" where
  "drop_call p edits r =
     (if 1 < length p
      then (let (hit, r) = pm_chance 10 r
            in if hit
               then (let (i, r) = pm_below (length p) r
                     in if i < length p then Some (take i p @ drop (i + 1) p, edits + 1, r) else None)
               else Some (p, edits, r))
      else Some (p, edits, r))"

definition dup_call :: "prog \<Rightarrow> nat \<Rightarrow> pm_rng \<Rightarrow> (prog \<times> nat \<times> pm_rng) option" where
  "dup_call p edits r =
     (if length p < 512
      then (let (hit, r) = pm_chance 10 r
            in if hit
               then (let (i, r) = pm_below (length p) r in map_option (\<lambda>c. (insert_at i c p, edits + 1, r)) (nth_opt p i))
               else Some (p, edits, r))
      else Some (p, edits, r))"

definition mutate_round :: "prog \<Rightarrow> nat \<Rightarrow> pm_rng \<Rightarrow> (prog \<times> nat \<times> pm_rng) option" where
  "mutate_round p edits r =
     (let (ci, r) = pm_below (length p) r
      in do {
        c \<leftarrow> nth_opt p ci;
        let total = sum_list (map count_leaves (c_args c));
        if total = 0 then Some (p, edits, r)
        else (let (n, r) = pm_below total r
              in do {
                (hit, as, _, r) \<leftarrow> mutate_fields (c_args c) n r;
                Some (p[ci := c\<lparr>c_args := as\<rparr>], if hit then edits + 1 else edits, r) }) })"

fun mutate_rounds :: "nat \<Rightarrow> prog \<Rightarrow> nat \<Rightarrow> pm_rng \<Rightarrow> (prog \<times> nat \<times> pm_rng) option" where
  "mutate_rounds 0 p edits r = Some (p, edits, r)"
| "mutate_rounds (Suc k) p edits r = do { (p, edits, r) \<leftarrow> mutate_round p edits r; mutate_rounds k p edits r }"

definition mutate :: "prog \<Rightarrow> pm_rng \<Rightarrow> (prog \<times> nat \<times> pm_rng) option" where
  "mutate p r =
     (if p = [] then Some (p, 0, r)
      else do {
        (p, edits, r) \<leftarrow> drop_call p 0 r;
        (p, edits, r) \<leftarrow> dup_call p edits r;
        let (k, r) = pm_below 3 r;
        mutate_rounds (1 + k) p edits r })"

section \<open>The leaf that is edited\<close>

datatype leaf = Leaf_int u64 | Leaf_data bytes

fun leaves :: "arg \<Rightarrow> leaf list" where
  "leaves (Int_arg v) = [Leaf_int v]"
| "leaves (Data d) = [Leaf_data d]"
| "leaves (Ptr addr (Some x)) = leaves x"
| "leaves (Union_arg x) = leaves x"
| "leaves (Out n x) = leaves x"
| "leaves (Struct fs) = concat (map leaves fs)"
| "leaves (Array fs) = concat (map leaves fs)"
| "leaves a = []"

text \<open>\<open>skeleton\<close> blanks the leaves: what is left is the wiring of the argument.\<close>

fun skeleton :: "arg \<Rightarrow> arg" where
  "skeleton (Int_arg v) = Int_arg 0"
| "skeleton (Data d) = Data []"
| "skeleton (Ptr addr (Some x)) = Ptr addr (Some (skeleton x))"
| "skeleton (Union_arg x) = Union_arg (skeleton x)"
| "skeleton (Out n x) = Out n (skeleton x)"
| "skeleton (Struct fs) = Struct (map skeleton fs)"
| "skeleton (Array fs) = Array (map skeleton fs)"
| "skeleton a = a"

text \<open>\<open>leaf_step\<close>: an integer stays an integer, a buffer stays a buffer and is not made longer than 64 KiB.\<close>

fun leaf_step :: "leaf \<Rightarrow> leaf \<Rightarrow> bool" where
  "leaf_step (Leaf_int v) (Leaf_int w) = True"
| "leaf_step (Leaf_data d) (Leaf_data e) = (length e \<le> max (length d) 65536)"
| "leaf_step a b = False"

lemma count_leaves_length: "count_leaves a = length (leaves a)"
  by (induction a rule: count_leaves.induct) (simp_all add: length_concat comp_def cong: map_cong)

lemma mutate_int_total: "\<exists>w r'. mutate_int v r = Some (w, r')"
proof -
  have "\<exists>x. nth_opt interesting (fst (pm_below (length interesting) r)) = Some x" for r
    using pm_src.draw_less [of "length interesting" r] by (simp add: interesting_def nth_opt_def)
  then show ?thesis by (auto simp: mutate_int_def Let_def split: prod.splits) (metis fst_conv option.distinct(1) option.simps(9))+
qed

lemma mutate_data_total: "\<exists>e r'. mutate_data d r = Some (e, r') \<and> length e \<le> max (length d) 65536"
proof -
  have 1: "\<exists>x. nth_opt interesting (fst (pm_below (length interesting) r)) = Some x" for r
    using pm_src.draw_less [of "length interesting" r] by (simp add: interesting_def nth_opt_def)
  have 2: "d \<noteq> [] \<Longrightarrow> \<exists>x. nth_opt d (fst (pm_below (length d) r)) = Some x" for r
    using pm_src.draw_less [of "length d" r] by (simp add: nth_opt_def)
  show ?thesis
  proof (cases "d = []")
    case False
    obtain k r1 where k: "pm_below 4 r = (k, r1)" by fastforce
    obtain i r2 where i: "pm_below (length d) r1 = (i, r2)" by fastforce
    obtain j r3 where j: "pm_below 8 r2 = (j, r3)" by fastforce
    obtain l r4 where l: "pm_below (length interesting) r2 = (l, r4)" by fastforce
    obtain b r5 where b: "pm_next r1 = (b, r5)" by fastforce
    from 2 [OF False, of r1] i obtain x where x: "nth_opt d i = Some x" by auto
    from 1 [of r2] l obtain y where y: "nth_opt interesting l = Some y" by auto
    show ?thesis using False by (auto simp: mutate_data_def k i j l b x y)
  qed (auto simp: mutate_data_def split: prod.splits)
qed

text \<open>\<open>hits ls n ls'\<close>: the leaves \<open>ls'\<close> are \<open>ls\<close> with the leaf \<open>n\<close> edited.\<close>

definition hits :: "leaf list \<Rightarrow> nat \<Rightarrow> leaf list \<Rightarrow> bool" where
  "hits ls n ls' \<longleftrightarrow> n < length ls \<and> (\<exists>x. leaf_step (ls ! n) x \<and> ls' = ls[n := x])"

lemma hits_left: "hits ls n ls' \<Longrightarrow> hits (ls @ ms) n (ls' @ ms)"
  by (auto simp: hits_def nth_append list_update_append)

lemma hits_right: "hits ms n ms' \<Longrightarrow> hits (ls @ ms) (length ls + n) (ls @ ms')"
  by (auto simp: hits_def nth_append list_update_append)

lemma mutate_nth_spec:
  "(if n < length (leaves a)
    then \<exists>a' r'. mutate_nth a n r = Some (True, a', 0, r') \<and> skeleton a' = skeleton a \<and> hits (leaves a) n (leaves a')
    else mutate_nth a n r = Some (False, a, n - length (leaves a), r))"
  and mutate_fields_spec:
  "(if n < length (concat (map leaves fs))
    then \<exists>fs' r'. mutate_fields fs n r = Some (True, fs', 0, r') \<and> map skeleton fs' = map skeleton fs \<and>
      hits (concat (map leaves fs)) n (concat (map leaves fs'))
    else mutate_fields fs n r = Some (False, fs, n - length (concat (map leaves fs)), r))"
proof (induction a n r and fs n r rule: mutate_nth_mutate_fields.induct)
  case (1 v n r)
  then show ?case using mutate_int_total [of v r] by (auto simp: hits_def)
next
  case (2 d n r)
  then show ?case using mutate_data_total [of d r] by (auto simp: hits_def)
next
  case (10 f fs n r)
  show ?case
  proof (cases "n < length (leaves f)")
    case True
    with 10(1) obtain f' r' where "mutate_nth f n r = Some (True, f', 0, r')" "skeleton f' = skeleton f" "hits (leaves f) n (leaves f')"
      by auto
    with True show ?thesis using hits_left by auto
  next
    case False
    let ?n = "n - length (leaves f)"
    from False 10(1) have f: "mutate_nth f n r = Some (False, f, ?n, r)" by simp
    note IH = 10(2) [OF f refl refl refl]
    show ?thesis
    proof (cases "?n < length (concat (map leaves fs))")
      case True
      with IH obtain fs' r' where fs: "mutate_fields fs ?n r = Some (True, fs', 0, r')" "map skeleton fs' = map skeleton fs"
        "hits (concat (map leaves fs)) ?n (concat (map leaves fs'))" by auto
      have "hits (leaves f @ concat (map leaves fs)) (length (leaves f) + ?n) (leaves f @ concat (map leaves fs'))"
        by (rule hits_right [OF fs(3)])
      with False True f fs(1,2) show ?thesis by auto
    next
      case False2: False
      then have "\<not> n < length (leaves f) + length (concat (map leaves fs))" using False by linarith
      with IH False False2 f show ?thesis by simp
    qed
  qed
qed (auto split: if_splits)

section \<open>Programs under mutation\<close>

definition call_skel :: "call \<Rightarrow> call" where
  "call_skel c = c\<lparr>c_args := map skeleton (c_args c)\<rparr>"

fun small_leaf :: "leaf \<Rightarrow> bool" where
  "small_leaf (Leaf_int v) = True"
| "small_leaf (Leaf_data d) = (length d \<le> 65536)"

definition small_call :: "call \<Rightarrow> bool" where
  "small_call c \<longleftrightarrow> list_all small_leaf (concat (map leaves (c_args c)))"

text \<open>\<open>evolves k p e q f\<close>: from the program \<open>p\<close> with \<open>e\<close> edits to \<open>q\<close> with \<open>f\<close>, at most \<open>k\<close> of them new.\<close>

definition evolves :: "nat \<Rightarrow> prog \<Rightarrow> nat \<Rightarrow> prog \<Rightarrow> nat \<Rightarrow> bool" where
  "evolves k p e q f \<longleftrightarrow> call_skel ` set q \<subseteq> call_skel ` set p \<and> (list_all small_call p \<longrightarrow> list_all small_call q) \<and>
     q \<noteq> [] \<and> length q \<le> max (length p) 512 \<and> e \<le> f \<and> f \<le> e + k \<and> (e = f \<longrightarrow> q = p)"

lemma evolves_refl: "p \<noteq> [] \<Longrightarrow> evolves k p e p e"
  by (simp add: evolves_def)

lemma evolves_trans: "evolves k p e q f \<Longrightarrow> evolves l q f s g \<Longrightarrow> evolves (k + l) p e s g"
  unfolding evolves_def by (intro conjI; (elim conjE)?) (blast, blast, blast, linarith, linarith, linarith, metis le_antisym)

lemma small_hits: "list_all small_leaf ls \<Longrightarrow> hits ls n ls' \<Longrightarrow> list_all small_leaf ls'"
proof -
  assume ls: "list_all small_leaf ls" and "hits ls n ls'"
  then obtain x where x: "n < length ls" "leaf_step (ls ! n) x" "ls' = ls[n := x]" by (auto simp: hits_def)
  then have "small_leaf x" using ls by (cases "ls ! n"; cases x) (auto simp: list_all_length dest!: spec [of _ n])
  with ls x show ?thesis by (auto simp: list_all_length nth_list_update)
qed

lemma drop_call_evolves:
  assumes "p \<noteq> []"
  shows "\<exists>q f r'. drop_call p e r = Some (q, f, r') \<and> evolves 1 p e q f"
proof -
  obtain h r1 where h: "pm_chance 10 r = (h, r1)" by fastforce
  obtain i r2 where i: "pm_below (length p) r1 = (i, r2)" by fastforce
  have il: "i < length p" using pm_src.draw_less [of "length p" r1] i assms by simp
  have "evolves 1 p e (take i p @ drop (i + 1) p) (e + 1)" if "1 < length p"
  proof -
    have "set (take i p @ drop (i + 1) p) \<subseteq> set p" by (auto dest: in_set_takeD in_set_dropD)
    moreover have "length (take i p @ drop (i + 1) p) = length p - 1" using il by simp
    moreover have "take i p @ drop (i + 1) p \<noteq> []" using that il by auto
    ultimately show ?thesis by (auto simp: evolves_def list_all_iff)
  qed
  then show ?thesis using assms il by (auto simp: drop_call_def h i evolves_refl)
qed

lemma dup_call_evolves:
  assumes "p \<noteq> []"
  shows "\<exists>q f r'. dup_call p e r = Some (q, f, r') \<and> evolves 1 p e q f"
proof -
  obtain h r1 where h: "pm_chance 10 r = (h, r1)" by fastforce
  obtain i r2 where i: "pm_below (length p) r1 = (i, r2)" by fastforce
  have il: "i < length p" using pm_src.draw_less [of "length p" r1] i assms by simp
  have "evolves 1 p e (insert_at i (p ! i) p) (e + 1)" if "length p < 512"
  proof -
    have "set (insert_at i (p ! i) p) = set p"
      using il by (auto simp: insert_at_def dest: in_set_takeD in_set_dropD)
        (metis Un_iff append_take_drop_id set_append)
    then show ?thesis using that il assms by (auto simp: evolves_def list_all_iff insert_at_def)
  qed
  then show ?thesis using assms il by (auto simp: dup_call_def h i evolves_refl nth_opt_def)
qed

lemma mutate_round_evolves:
  assumes "p \<noteq> []"
  shows "\<exists>q f r'. mutate_round p e r = Some (q, f, r') \<and> evolves 1 p e q f"
proof -
  obtain ci r1 where ci: "pm_below (length p) r = (ci, r1)" by fastforce
  have cl: "ci < length p" using pm_src.draw_less [of "length p" r] ci assms by simp
  let ?c = "p ! ci"
  let ?ls = "concat (map leaves (c_args ?c))"
  have total: "sum_list (map count_leaves (c_args ?c)) = length ?ls"
    using count_leaves_length by (simp add: length_concat comp_def cong: map_cong)
  show ?thesis
  proof (cases "?ls = []")
    case True
    then show ?thesis using assms cl total by (simp add: mutate_round_def ci nth_opt_def evolves_refl del: concat_eq_Nil_conv)
  next
    case False
    obtain n r2 where n: "pm_below (length ?ls) r1 = (n, r2)" by fastforce
    have "n < length ?ls" using pm_src.draw_less [of "length ?ls" r1] n False by (simp del: concat_eq_Nil_conv sum_list_eq_0_iff)
    then obtain as r3 where as: "mutate_fields (c_args ?c) n r2 = Some (True, as, 0, r3)"
      "map skeleton as = map skeleton (c_args ?c)" "hits ?ls n (concat (map leaves as))"
      using mutate_fields_spec [of n "c_args ?c" r2] by auto
    let ?d = "?c\<lparr>c_args := as\<rparr>"
    have "call_skel ?d = call_skel ?c" using as(2) by (simp add: call_skel_def)
    moreover have "small_call ?c \<Longrightarrow> small_call ?d" using small_hits [OF _ as(3)] by (simp add: small_call_def)
    ultimately have "evolves 1 p e (p[ci := ?d]) (e + 1)"
      using cl assms by (auto simp: evolves_def list_all_length nth_list_update image_iff dest!: set_update_subset_insert [THEN subsetD])
    then show ?thesis using False total n as(1) cl by (auto simp: mutate_round_def ci nth_opt_def simp del: concat_eq_Nil_conv sum_list_eq_0_iff)
  qed
qed

lemma mutate_rounds_evolves: "p \<noteq> [] \<Longrightarrow> \<exists>q f r'. mutate_rounds k p e r = Some (q, f, r') \<and> evolves k p e q f"
proof (induction k arbitrary: p e r)
  case (Suc k)
  from mutate_round_evolves [OF Suc.prems, of e r] obtain q f r1 where 1: "mutate_round p e r = Some (q, f, r1)" "evolves 1 p e q f" by blast
  then have "q \<noteq> []" by (simp add: evolves_def)
  from Suc.IH [OF this, of f r1] obtain s g r2 where 2: "mutate_rounds k q f r1 = Some (s, g, r2)" "evolves k q f s g" by blast
  show ?case using 1 2 evolves_trans [OF 1(2) 2(2)] by simp
qed (simp add: evolves_refl)

section \<open>Properties\<close>

text \<open>\<open>mutate_nth\<close> finds its leaf: for a number below the leaf count it edits exactly the leaf of that number - an
  integer to an integer, a buffer to a buffer of at most 64 KiB unless it was longer - keeps the rest of the tree and
  never panics; for a larger number it changes nothing and takes the leaf count off the number.\<close>

theorem mutate_nth_leaf:
  "(if n < count_leaves a
    then \<exists>a' r'. mutate_nth a n r = Some (True, a', 0, r') \<and> skeleton a' = skeleton a \<and> hits (leaves a) n (leaves a')
    else mutate_nth a n r = Some (False, a, n - count_leaves a, r))"
  unfolding count_leaves_length by (rule mutate_nth_spec)

text \<open>C24. One round of mutation never panics and keeps the wiring: every call of the result is a call of the input with
  only integers and buffers changed (name, number, result slot, pointers, resources and structure are the same), the
  program does not become empty, grows only up to 512 calls, no buffer grows beyond 64 KiB, and the returned edit count
  is at most 5 and is 0 only when nothing changed.\<close>

theorem mutate_keeps_wiring:
  assumes "p \<noteq> []"
  shows "\<exists>q edits r'. mutate p r = Some (q, edits, r') \<and> call_skel ` set q \<subseteq> call_skel ` set p \<and> q \<noteq> [] \<and>
    length q \<le> max (length p) 512 \<and> (list_all small_call p \<longrightarrow> list_all small_call q) \<and>
    edits \<le> 5 \<and> (edits = 0 \<longrightarrow> q = p)"
proof -
  from drop_call_evolves [OF assms, of 0 r] obtain p1 e1 r1
    where 1: "drop_call p 0 r = Some (p1, e1, r1)" "evolves 1 p 0 p1 e1" by blast
  then have "p1 \<noteq> []" by (simp add: evolves_def)
  from dup_call_evolves [OF this, of e1 r1] obtain p2 e2 r2
    where 2: "dup_call p1 e1 r1 = Some (p2, e2, r2)" "evolves 1 p1 e1 p2 e2" by blast
  then have "p2 \<noteq> []" by (simp add: evolves_def)
  obtain k r3 where k: "pm_below 3 r2 = (k, r3)" by fastforce
  from mutate_rounds_evolves [OF \<open>p2 \<noteq> []\<close>, of "1 + k" e2 r3] obtain q e r'
    where 3: "mutate_rounds (1 + k) p2 e2 r3 = Some (q, e, r')" "evolves (1 + k) p2 e2 q e" by blast
  have "evolves (1 + 1 + (1 + k)) p 0 q e" by (rule evolves_trans [OF evolves_trans [OF 1(2) 2(2)] 3(2)])
  moreover have "k < 3" using pm_src.draw_less [of 3 r2] k by simp
  moreover have "mutate p r = Some (q, e, r')" using assms 1(1) 2(1) 3(1) k by (simp add: mutate_def)
  ultimately show ?thesis unfolding evolves_def by auto
qed

definition stress_prog :: prog where
  "stress_prog =
     [\<lparr>c_name = lit ''write'', c_base = lit ''write'', c_nr = Some 1, c_args = [Res 0 0 0, Ptr 64 (Some (Data [1, 2])), Int_arg 2],
       c_res = None, c_fail_nth = None, c_async = False\<rparr>]"

theorem mutate_keeps_wiring_witness:
  "\<exists>q edits r'. mutate stress_prog (pm_new 7) = Some (q, edits, r') \<and> call_skel ` set q \<subseteq> call_skel ` set stress_prog \<and>
     list_all small_call q \<and> edits \<le> 5"
proof -
  have "stress_prog \<noteq> []" "list_all small_call stress_prog" by (simp_all add: stress_prog_def small_call_def)
  then show ?thesis using mutate_keeps_wiring [of stress_prog "pm_new 7"] by blast
qed

end
