(* ===== verification/Prog_Arena.thy ===== *)
theory Prog_Arena
  imports Prelude
begin

text \<open>
  The data arena of the program executor (\<^verbatim>\<open>Arena\<close> in \<^verbatim>\<open>fuzz/prog_decode.rs\<close>): the
  bytes behind \<^verbatim>\<open>DATA_OFFSET\<close>, the bitmap of 64-byte granules that places \<^verbatim>\<open>AUTO\<close> objects
  around fixed ones, and the writes clipped at the next fixed object. The mapping is a function from arena offsets to
  bytes; a bitmap access out of range is the \<open>None\<close> of the operation. The lemmas show that the bitmap never panics,
  that allocation is exactly first fit on the free granules, and that a write stays inside its object.
\<close>

unbundle bit_operations_syntax

section \<open>Byte stores\<close>

text \<open>What the layout code relies on: a write changes nothing outside the extent of its bytes.\<close>

locale frame_store =
  fixes rd :: "'s \<Rightarrow> nat \<Rightarrow> u8" and wr :: "'s \<Rightarrow> u64 \<Rightarrow> bytes \<Rightarrow> 's"
  assumes frame: "i < unat a \<or> unat a + length bs \<le> i \<Longrightarrow> rd (wr s a bs) i = rd s i"
begin

definition wr_all :: "(u64 \<times> bytes) list \<Rightarrow> 's \<Rightarrow> 's" where
  "wr_all ws s = fold (\<lambda>(a, bs) s. wr s a bs) ws s"

lemma wr_all_simps [simp]:
  "wr_all [] s = s" "wr_all ((a, bs) # ws) s = wr_all ws (wr s a bs)" "wr_all (vs @ ws) s = wr_all ws (wr_all vs s)"
  by (simp_all add: wr_all_def)

lemma frame_all: "\<forall>(a, bs)\<in>set ws. i < unat a \<or> unat a + length bs \<le> i \<Longrightarrow> rd (wr_all ws s) i = rd s i"
  by (induction ws arbitrary: s) (auto simp: frame)

end

section \<open>The arena\<close>

definition data_offset :: u64 where
  "data_offset = 0x200000000000"

definition arena_size :: nat where
  "arena_size = 16 * 2 ^ 20"

definition granule :: nat where
  "granule = 64"

definition physical_addr :: "u64 \<Rightarrow> u64" where
  "physical_addr off = data_offset + off"

record arena =
  ar_mem :: "nat \<Rightarrow> u8"
  ar_len :: nat
  ar_used :: "u64 list"
  ar_fixed :: "u64 list"

text \<open>The state after a successful \<^verbatim>\<open>mmap\<close> of anonymous memory.\<close>

definition arena_map :: arena where
  "arena_map = \<lparr>ar_mem = (\<lambda>_. 0), ar_len = arena_size, ar_used = replicate (arena_size div granule div 64 + 1) 0, ar_fixed = []\<rparr>"

definition reset :: "arena \<Rightarrow> arena" where
  "reset a = a\<lparr>ar_mem := (\<lambda>i. if i < ar_len a then 0 else ar_mem a i), ar_used := map (\<lambda>_. 0) (ar_used a)\<rparr>"

definition in_range :: "arena \<Rightarrow> u64 \<Rightarrow> nat \<Rightarrow> bool" where
  "in_range a off sz \<longleftrightarrow> saturating_add (unat off) sz \<le> ar_len a"

definition div_ceil :: "nat \<Rightarrow> nat \<Rightarrow> nat" where
  "div_ceil n d = n div d + (if n mod d = 0 then 0 else 1)"

fun mark_loop :: "nat list \<Rightarrow> u64 list \<Rightarrow> u64 list option" where
  "mark_loop [] used = Some used"
| "mark_loop (g # gs) used = do {
     w \<leftarrow> nth_opt used (g div 64);
     mark_loop gs (used[g div 64 := w OR push_bit (g mod 64) 1]) }"

definition note_alloc :: "u64 \<Rightarrow> nat \<Rightarrow> arena \<Rightarrow> arena option" where
  "note_alloc off sz a =
     (if \<not> in_range a off sz then Some a
      else let first = unat off div granule; end_g = div_ceil (unat off + sz) granule
           in map_option (\<lambda>u. a\<lparr>ar_used := u\<rparr>) (mark_loop [first..<end_g] (ar_used a)))"

text \<open>The inner loop: the first granule of the window that is taken.\<close>

fun window_loop :: "nat list \<Rightarrow> u64 list \<Rightarrow> nat option option" where
  "window_loop [] used = Some None"
| "window_loop (g # gs) used = do {
     w \<leftarrow> nth_opt used (g div 64);
     if w AND push_bit (g mod 64) 1 \<noteq> 0 then Some (Some g) else window_loop gs used }"

lemma window_loop_mem: "window_loop gs used = Some (Some g) \<Longrightarrow> g \<in> set gs"
  by (induction gs) (auto split: bind_splits if_splits)

function alloc_loop :: "nat \<Rightarrow> nat \<Rightarrow> u64 list \<Rightarrow> nat \<Rightarrow> nat option option" where
  "alloc_loop need limit used start =
     (if start + need \<le> limit
      then case window_loop [start..<start + need] used of
             None \<Rightarrow> None
           | Some None \<Rightarrow> Some (Some start)
           | Some (Some g) \<Rightarrow> alloc_loop need limit used (g + 1)
      else Some None)"
  by pat_completeness auto
termination
  by (relation "measure (\<lambda>(need, limit, used, start). limit + 1 - start)") (auto dest!: window_loop_mem)

declare alloc_loop.simps [simp del]

definition alloc :: "nat \<Rightarrow> arena \<Rightarrow> (u64 \<times> arena) option" where
  "alloc sz a =
     (let need = max (div_ceil sz granule) 1; limit = ar_len a div granule
      in do {
        found \<leftarrow> alloc_loop need limit (ar_used a) 0;
        case found of
          Some start \<Rightarrow> (let off = of_nat (start * granule) in map_option (\<lambda>a. (off, a)) (note_alloc off sz a))
        | None \<Rightarrow> Some (0, a) })"

text \<open>\<^verbatim>\<open>ptr::copy_nonoverlapping\<close> into the mapping.\<close>

definition copy_to :: "arena \<Rightarrow> nat \<Rightarrow> bytes \<Rightarrow> arena" where
  "copy_to a off bs = a\<lparr>ar_mem := (\<lambda>i. if off \<le> i \<and> i < off + length bs then bs ! (i - off) else ar_mem a i)\<rparr>"

definition clip_len :: "arena \<Rightarrow> u64 \<Rightarrow> nat \<Rightarrow> nat" where
  "clip_len a off n = (case find (\<lambda>f. off < f) (ar_fixed a) of Some next \<Rightarrow> min n (unat (next - off)) | None \<Rightarrow> n)"

definition arena_write :: "arena \<Rightarrow> u64 \<Rightarrow> bytes \<Rightarrow> arena" where
  "arena_write a off bs =
     (let len = clip_len a off (length bs)
      in if len = 0 \<or> \<not> in_range a off len then a else copy_to a (unat off) (take len bs))"

definition read_scalar :: "arena \<Rightarrow> u64 \<Rightarrow> nat \<Rightarrow> u64 option" where
  "read_scalar a off sz =
     (let sz = max 1 (min sz 8)
      in if \<not> in_range a off sz then None
         else let buf = map (ar_mem a) [unat off..<unat off + sz] @ replicate (8 - sz) 0 in Some (word_of_le buf))"

definition set_fixed :: "u64 list \<Rightarrow> arena \<Rightarrow> arena" where
  "set_fixed addrs a = a\<lparr>ar_fixed := dedup (sort addrs)\<rparr>"

lemma clip_len_le: "clip_len a off n \<le> n"
  by (simp add: clip_len_def split: option.split)

interpretation arena_store: frame_store ar_mem arena_write
proof unfold_locales
  fix i :: nat and off :: u64 and bs :: bytes and a :: arena
  assume "i < unat off \<or> unat off + length bs \<le> i"
  then show "ar_mem (arena_write a off bs) i = ar_mem a i"
    using clip_len_le [of a off "length bs"] by (auto simp: arena_write_def Let_def copy_to_def)
qed

section \<open>The bitmap\<close>

definition arena_wf :: "arena \<Rightarrow> bool" where
  "arena_wf a \<longleftrightarrow> ar_len a \<le> arena_size \<and> ar_len a div granule div 64 < length (ar_used a) \<and> sorted (ar_fixed a)"

definition taken :: "u64 list \<Rightarrow> nat set" where
  "taken used = {g. g div 64 < length used \<and> bit (used ! (g div 64)) (g mod 64)}"

lemma and_bit: "(w :: u64) AND push_bit k 1 \<noteq> 0 \<longleftrightarrow> bit w k"
  by (simp only: bit_iff_and_push_bit_not_eq_0)

lemma taken_mark:
  assumes "g div 64 < length used"
  shows "taken (used[g div 64 := used ! (g div 64) OR push_bit (g mod 64) 1]) = insert g (taken used)"
proof -
  have "g' = g" if "g' div 64 = g div 64" "g' mod 64 = g mod 64" for g' by (metis div_mult_mod_eq that)
  moreover have "bit (used ! (g div 64) OR push_bit (g mod 64) 1 :: u64) k \<longleftrightarrow> bit (used ! (g div 64)) k \<or> k = g mod 64" if "k < 64" for k
    using that by (auto simp: bit_simps)
  ultimately show ?thesis
    using assms by (auto simp: taken_def nth_list_update split: if_splits simp del: push_bit_of_1)
qed

lemma mark_loop_taken:
  "\<forall>g\<in>set gs. g div 64 < length used \<Longrightarrow>
   \<exists>u. mark_loop gs used = Some u \<and> length u = length used \<and> taken u = taken used \<union> set gs"
proof (induction gs arbitrary: used)
  case (Cons g gs)
  let ?u = "used[g div 64 := used ! (g div 64) OR push_bit (g mod 64) 1]"
  have g: "g div 64 < length used" using Cons.prems by simp
  have "\<forall>g\<in>set gs. g div 64 < length ?u" using Cons.prems by simp
  from Cons.IH [OF this] obtain u where u: "mark_loop gs ?u = Some u" "length u = length ?u" "taken u = taken ?u \<union> set gs"
    by blast
  have "taken u = insert g (taken used) \<union> set gs" using u(3) taken_mark [OF g] by simp
  then show ?case using g u(1,2) by (auto simp: nth_opt_def simp del: push_bit_of_1)
qed simp

lemma window_loop_spec:
  "\<forall>g\<in>set gs. g div 64 < length used \<Longrightarrow> window_loop gs used = Some (find (\<lambda>g. g \<in> taken used) gs)"
  by (induction gs) (auto simp: nth_opt_def and_bit taken_def simp del: push_bit_of_1)

definition free_run :: "u64 list \<Rightarrow> nat \<Rightarrow> nat \<Rightarrow> bool" where
  "free_run used need s \<longleftrightarrow> {s..<s + need} \<inter> taken used = {}"

lemma find_upt_Some:
  "find P [a..<b] = Some g \<longleftrightarrow> a \<le> g \<and> g < b \<and> P g \<and> (\<forall>i. a \<le> i \<longrightarrow> i < g \<longrightarrow> \<not> P i)"
proof
  assume "find P [a..<b] = Some g"
  then obtain i where i: "i < length [a..<b]" "P ([a..<b] ! i)" "g = [a..<b] ! i" "\<forall>j<i. \<not> P ([a..<b] ! j)"
    unfolding find_Some_iff by blast
  have "\<not> P k" if "a \<le> k" "k < g" for k
  proof -
    have "k - a < i" using that i(1,3) by simp
    then have "\<not> P ([a..<b] ! (k - a))" using i(4) by blast
    then show ?thesis using that i(1,3) by simp
  qed
  with i show "a \<le> g \<and> g < b \<and> P g \<and> (\<forall>i. a \<le> i \<longrightarrow> i < g \<longrightarrow> \<not> P i)" by simp
next
  assume "a \<le> g \<and> g < b \<and> P g \<and> (\<forall>i. a \<le> i \<longrightarrow> i < g \<longrightarrow> \<not> P i)"
  then show "find P [a..<b] = Some g" unfolding find_Some_iff by (intro exI [of _ "g - a"]) auto
qed

lemma alloc_loop_spec:
  assumes "\<And>g. g < limit \<Longrightarrow> g div 64 < length used"
  shows "\<exists>r. alloc_loop need limit used start = Some r \<and>
    (case r of None \<Rightarrow> \<forall>s\<ge>start. s + need \<le> limit \<longrightarrow> \<not> free_run used need s
     | Some s \<Rightarrow> start \<le> s \<and> s + need \<le> limit \<and> free_run used need s \<and> (\<forall>u. start \<le> u \<and> u < s \<longrightarrow> \<not> free_run used need u))"
  using assms
proof (induction need limit used start rule: alloc_loop.induct)
  case (1 need limit used start)
  show ?case
  proof (cases "start + need \<le> limit")
    case True
    have "\<forall>g\<in>set [start..<start + need]. g div 64 < length used" using True 1(2) by simp
    note win = window_loop_spec [OF this]
    show ?thesis
    proof (cases "find (\<lambda>g. g \<in> taken used) [start..<start + need]")
      case None
      then have "free_run used need start" by (auto simp: free_run_def find_None_iff)
      then show ?thesis using True win None by (auto simp: alloc_loop.simps [of need limit used start])
    next
      case (Some g)
      then have g: "start \<le> g" "g < start + need" "g \<in> taken used" unfolding find_upt_Some by auto
      have w: "window_loop [start..<start + need] used = Some (Some g)" using win Some by simp
      have skip: "\<not> free_run used need u" if "start \<le> u" "u < g + 1" for u
      proof -
        have "g \<in> {u..<u + need} \<inter> taken used" using that g by simp
        then show ?thesis unfolding free_run_def by blast
      qed
      have step: "alloc_loop need limit used start = alloc_loop need limit used (g + 1)"
        using True w by (simp add: alloc_loop.simps [of need limit used start])
      from 1(1) [OF True w refl 1(2)] obtain r where r: "alloc_loop need limit used (g + 1) = Some r"
        "case r of None \<Rightarrow> \<forall>s\<ge>g + 1. s + need \<le> limit \<longrightarrow> \<not> free_run used need s
         | Some s \<Rightarrow> g + 1 \<le> s \<and> s + need \<le> limit \<and> free_run used need s \<and> (\<forall>u. g + 1 \<le> u \<and> u < s \<longrightarrow> \<not> free_run used need u)"
        by blast
      have "case r of None \<Rightarrow> \<forall>s\<ge>start. s + need \<le> limit \<longrightarrow> \<not> free_run used need s
         | Some s \<Rightarrow> start \<le> s \<and> s + need \<le> limit \<and> free_run used need s \<and> (\<forall>u. start \<le> u \<and> u < s \<longrightarrow> \<not> free_run used need u)"
        using r(2) g(1) skip by (cases r) (simp_all, (metis not_less)+)
      with step r(1) show ?thesis by simp
    qed
  qed (auto simp: alloc_loop.simps [of need limit used start])
qed

lemma granule_index:
  assumes "arena_wf a" and "g \<le> ar_len a div granule"
  shows "g div 64 < length (ar_used a)"
  using assms div_le_mono [OF assms(2), of 64] by (simp add: arena_wf_def)

lemma in_range_iff: "arena_wf a \<Longrightarrow> in_range a off sz \<longleftrightarrow> unat off + sz \<le> ar_len a"
  by (auto simp: arena_wf_def in_range_def saturating_add_def usize_max_def arena_size_def)

lemma div_ceil_le: "n \<le> m \<Longrightarrow> g < div_ceil n granule \<Longrightarrow> g \<le> m div granule"
  using div_le_mono [of n m granule] by (auto simp: div_ceil_def granule_def split: if_splits)

lemma note_alloc_spec:
  assumes "arena_wf a" and "in_range a off sz"
  shows "\<exists>u. note_alloc off sz a = Some (a\<lparr>ar_used := u\<rparr>) \<and> length u = length (ar_used a) \<and>
    taken u = taken (ar_used a) \<union> {unat off div granule..<div_ceil (unat off + sz) granule}"
proof -
  have le: "unat off + sz \<le> ar_len a" using assms in_range_iff by blast
  have "\<forall>g\<in>set [unat off div granule..<div_ceil (unat off + sz) granule]. g div 64 < length (ar_used a)"
    using granule_index [OF assms(1)] div_ceil_le [OF le] by simp
  from mark_loop_taken [OF this] assms(2) show ?thesis by (auto simp: note_alloc_def Let_def)
qed

section \<open>The invariant\<close>

lemma wf_note_alloc: "arena_wf a \<Longrightarrow> \<exists>b. note_alloc off sz a = Some b \<and> arena_wf b"
  using note_alloc_spec [of a off sz] by (cases "in_range a off sz") (auto simp: arena_wf_def note_alloc_def)

lemma alloc_spec:
  fixes sz :: nat and a :: arena
  assumes "arena_wf a"
  defines "need \<equiv> max (div_ceil sz granule) 1" and "limit \<equiv> ar_len a div granule"
  shows "(\<exists>s u. alloc sz a = Some (of_nat (s * granule), a\<lparr>ar_used := u\<rparr>) \<and> length u = length (ar_used a) \<and> s + need \<le> limit \<and>
      free_run (ar_used a) need s \<and> (\<forall>j < s. \<not> free_run (ar_used a) need j) \<and>
      taken u = taken (ar_used a) \<union> {s..<s + div_ceil sz granule}) \<or>
    (alloc sz a = Some (0, a) \<and> (\<forall>s. s + need \<le> limit \<longrightarrow> \<not> free_run (ar_used a) need s))"
proof -
  have "\<And>g. g < limit \<Longrightarrow> g div 64 < length (ar_used a)"
    unfolding limit_def by (rule granule_index [OF assms(1)]) simp
  from alloc_loop_spec [OF this, where need = need and start = 0] obtain r
    where r: "alloc_loop need limit (ar_used a) 0 = Some r"
      "case r of None \<Rightarrow> \<forall>s\<ge>0. s + need \<le> limit \<longrightarrow> \<not> free_run (ar_used a) need s
       | Some s \<Rightarrow> 0 \<le> s \<and> s + need \<le> limit \<and> free_run (ar_used a) need s \<and> (\<forall>u. 0 \<le> u \<and> u < s \<longrightarrow> \<not> free_run (ar_used a) need u)"
    by blast
  have al: "alloc sz a = (case r of Some s \<Rightarrow> map_option (\<lambda>b. (of_nat (s * granule), b)) (note_alloc (of_nat (s * granule)) sz a) | None \<Rightarrow> Some (0, a))"
    using r(1) by (simp add: alloc_def Let_def need_def limit_def del: of_nat_mult)
  show ?thesis
  proof (cases r)
    case None
    then show ?thesis using al r(2) by simp
  next
    case (Some s)
    then have s: "s + need \<le> limit" "free_run (ar_used a) need s" "\<forall>j < s. \<not> free_run (ar_used a) need j" using r(2) by simp_all
    have len: "ar_len a \<le> 16 * 2 ^ 20" using assms(1) by (simp add: arena_wf_def arena_size_def)
    have "(s + need) * granule \<le> limit * granule" by (rule mult_le_mono1 [OF s(1)])
    also have "\<dots> \<le> ar_len a" by (simp add: limit_def)
    finally have fits: "s * granule + need * granule \<le> ar_len a" by (simp add: add_mult_distrib)
    have "s * granule < 2 ^ LENGTH(64)" using fits len by simp
    then have un: "unat (of_nat (s * granule) :: u64) = s * granule" by (simp add: unat_of_nat take_bit_nat_eq_self del: of_nat_mult)
    have "sz \<le> need * granule"
    proof -
      have "sz \<le> div_ceil sz granule * granule"
        using div_mult_mod_eq [of sz granule] mod_less_divisor [of granule sz] by (auto simp: div_ceil_def granule_def)
      also have "\<dots> \<le> need * granule" by (rule mult_le_mono1) (simp add: need_def)
      finally show ?thesis .
    qed
    then have ir: "in_range a (of_nat (s * granule)) sz" using fits un in_range_iff [OF assms(1)] by (simp del: of_nat_mult)
    have "div_ceil (s * granule + sz) granule = s + div_ceil sz granule" by (simp add: div_ceil_def granule_def)
    moreover have "s * granule div granule = s" by (simp add: granule_def)
    ultimately show ?thesis using note_alloc_spec [OF assms(1) ir] Some al s un by (auto simp del: of_nat_mult)
  qed
qed

lemma wf_alloc: "arena_wf a \<Longrightarrow> \<exists>off b. alloc sz a = Some (off, b) \<and> arena_wf b \<and> unat off < 2 ^ 24"
proof -
  assume wf: "arena_wf a"
  consider (hit) s u where "alloc sz a = Some (of_nat (s * granule), a\<lparr>ar_used := u\<rparr>)" "length u = length (ar_used a)"
      "s + max (div_ceil sz granule) 1 \<le> ar_len a div granule"
    | (full) "alloc sz a = Some (0, a)"
    using alloc_spec [OF wf, of sz] by blast
  then show ?thesis
  proof cases
    case hit
    then have "(s + 1) * granule \<le> ar_len a div granule * granule" by (intro mult_le_mono1) simp
    also have "\<dots> \<le> ar_len a" by simp
    also have "\<dots> \<le> 2 ^ 24" using wf by (simp add: arena_wf_def arena_size_def)
    finally have "s * granule < 2 ^ 24" by (simp add: granule_def)
    then have "unat (of_nat (s * granule) :: u64) < 2 ^ 24" by (simp add: unat_of_nat take_bit_nat_eq_self del: of_nat_mult)
    with hit wf show ?thesis by (auto simp: arena_wf_def)
  qed (use wf in simp)
qed

lemma write_fields [simp]:
  "ar_len (arena_write a off bs) = ar_len a" "ar_used (arena_write a off bs) = ar_used a" "ar_fixed (arena_write a off bs) = ar_fixed a"
  by (simp_all add: arena_write_def Let_def copy_to_def)

inductive arena_reach :: "arena \<Rightarrow> bool" where
  "arena_reach arena_map"
| "arena_reach a \<Longrightarrow> arena_reach (reset a)"
| "arena_reach a \<Longrightarrow> note_alloc off sz a = Some b \<Longrightarrow> arena_reach b"
| "arena_reach a \<Longrightarrow> alloc sz a = Some (off, b) \<Longrightarrow> arena_reach b"
| "arena_reach a \<Longrightarrow> arena_reach (arena_write a off bs)"
| "arena_reach a \<Longrightarrow> arena_reach (set_fixed addrs a)"

lemma arena_reach_wf: "arena_reach a \<Longrightarrow> arena_wf a"
proof (induction rule: arena_reach.induct)
  case 1
  show ?case by (simp add: arena_map_def arena_wf_def granule_def)
next
  case (3 a off sz b)
  then show ?case using wf_note_alloc [of a off sz] by auto
next
  case (4 a sz off b)
  then show ?case using wf_alloc [of a sz] by auto
qed (auto simp: arena_wf_def reset_def set_fixed_def sorted_dedup_distinct)

section \<open>Writes\<close>

lemma find_sorted:
  assumes "sorted xs" and "find P xs = Some x"
  shows "x \<in> set xs \<and> P x \<and> (\<forall>y\<in>set xs. P y \<longrightarrow> x \<le> y)"
  using assms by (induction xs) (auto split: if_splits)

lemma arena_write_spec:
  assumes "arena_wf a" and "in_range a off (length bs)"
  shows "ar_mem (arena_write a off bs) i =
    (if unat off \<le> i \<and> i < unat off + length bs \<and> (\<forall>f\<in>set (ar_fixed a). off < f \<longrightarrow> i < unat f) then bs ! (i - unat off) else ar_mem a i)"
proof -
  have srt: "sorted (ar_fixed a)" and le: "unat off + length bs \<le> ar_len a"
    using assms in_range_iff by (auto simp: arena_wf_def)
  let ?n = "clip_len a off (length bs)"
  have nle: "?n \<le> length bs" by (rule clip_len_le)
  have clip: "i < unat off + ?n \<longleftrightarrow> i < unat off + length bs \<and> (\<forall>f\<in>set (ar_fixed a). off < f \<longrightarrow> i < unat f)"
  proof (cases "find (\<lambda>f. off < f) (ar_fixed a)")
    case None
    then have "\<forall>x\<in>set (ar_fixed a). \<not> off < x" by (simp add: find_None_iff)
    with None show ?thesis by (simp add: clip_len_def)
  next
    case (Some x)
    from find_sorted [OF srt Some] have x: "x \<in> set (ar_fixed a)" "off < x" "\<forall>y\<in>set (ar_fixed a). off < y \<longrightarrow> x \<le> y" by auto
    have "unat (x - off) = unat x - unat off" by (rule unat_sub) (use x(2) in simp)
    moreover have "unat off < unat x" using x(2) by (simp add: word_less_nat_alt)
    moreover have "(\<forall>f\<in>set (ar_fixed a). off < f \<longrightarrow> i < unat f) \<longleftrightarrow> i < unat x"
      using x by (auto simp: word_le_nat_alt intro: less_le_trans)
    ultimately show ?thesis using Some by (auto simp: clip_len_def)
  qed
  have ir: "in_range a off ?n" using le nle in_range_iff [OF assms(1)] by simp
  show ?thesis
  proof (cases "?n = 0")
    case True
    then show ?thesis using clip by (auto simp: arena_write_def)
  next
    case False
    then have "ar_mem (arena_write a off bs) i = (if unat off \<le> i \<and> i < unat off + ?n then take ?n bs ! (i - unat off) else ar_mem a i)"
      using ir nle by (simp add: arena_write_def copy_to_def Let_def min_absorb2)
    then show ?thesis using clip by auto
  qed
qed

section \<open>Properties\<close>

text \<open>C27. In every arena the executor can reach, allocation answers without a panic, leaves the bytes alone and is
  exactly first fit: if some run of free granules is long enough, the object is placed at the first of them and its
  granules, and no others, become taken; otherwise the answer is offset 0 and nothing is reserved.\<close>

theorem alloc_first_fit:
  assumes "arena_reach a" and "0 < sz"
  shows "\<exists>off b. alloc sz a = Some (off, b) \<and> ar_mem b = ar_mem a \<and> ar_fixed b = ar_fixed a \<and>
    (if \<exists>s. s + div_ceil sz granule \<le> ar_len a div granule \<and> free_run (ar_used a) (div_ceil sz granule) s
     then unat off mod granule = 0 \<and> unat off + sz \<le> ar_len a \<and>
       free_run (ar_used a) (div_ceil sz granule) (unat off div granule) \<and>
       (\<forall>t < unat off div granule. \<not> free_run (ar_used a) (div_ceil sz granule) t) \<and>
       taken (ar_used b) = taken (ar_used a) \<union> {unat off div granule..<unat off div granule + div_ceil sz granule}
     else off = 0 \<and> b = a)"
proof -
  have wf: "arena_wf a" by (rule arena_reach_wf [OF assms(1)])
  have need: "max (div_ceil sz granule) 1 = div_ceil sz granule" using assms(2) by (auto simp: div_ceil_def granule_def)
  note spec = alloc_spec [OF wf, of sz, unfolded need]
  show ?thesis
  proof (cases "\<exists>s. s + div_ceil sz granule \<le> ar_len a div granule \<and> free_run (ar_used a) (div_ceil sz granule) s")
    case True
    with spec obtain s u where s: "alloc sz a = Some (of_nat (s * granule), a\<lparr>ar_used := u\<rparr>)"
      "s + div_ceil sz granule \<le> ar_len a div granule" "free_run (ar_used a) (div_ceil sz granule) s"
      "\<forall>v < s. \<not> free_run (ar_used a) (div_ceil sz granule) v" "taken u = taken (ar_used a) \<union> {s..<s + div_ceil sz granule}"
      by blast
    have "(s + div_ceil sz granule) * granule \<le> ar_len a div granule * granule" by (rule mult_le_mono1 [OF s(2)])
    also have "\<dots> \<le> ar_len a" by simp
    finally have le: "s * granule + div_ceil sz granule * granule \<le> ar_len a" by (simp add: add_mult_distrib)
    have "s * granule < 2 ^ LENGTH(64)" using le wf by (simp add: arena_wf_def arena_size_def)
    then have un: "unat (of_nat (s * granule) :: u64) = s * granule" by (simp add: unat_of_nat take_bit_nat_eq_self del: of_nat_mult)
    have "sz \<le> div_ceil sz granule * granule"
      using div_mult_mod_eq [of sz granule] mod_less_divisor [of granule sz] by (auto simp: div_ceil_def granule_def)
    moreover have "s * granule div granule = s" "s * granule mod granule = 0" by (simp_all add: granule_def)
    ultimately show ?thesis using True s le un by (auto simp del: of_nat_mult)
  next
    case False
    with spec show ?thesis by auto
  qed
qed

theorem alloc_first_fit_witness: "\<exists>off b. alloc 100 arena_map = Some (off, b) \<and> taken (ar_used b) = {0, 1}"
proof -
  have "taken (replicate n 0) = {}" for n by (auto simp: taken_def)
  then have free: "taken (ar_used arena_map) = {}" by (simp only: arena_map_def arena.simps)
  have ceil: "div_ceil 100 granule = 2" by (simp add: div_ceil_def granule_def)
  have lim: "ar_len arena_map div granule = 2 ^ 18" by (simp add: arena_map_def arena_size_def granule_def)
  have pos: "0 < (100 :: nat)" by simp
  have ex: "\<exists>s. s + 2 \<le> (2 :: nat) ^ 18 \<and> free_run (ar_used arena_map) 2 s" by (intro exI [of _ 0]) (simp add: free_run_def free)
  from alloc_first_fit [OF arena_reach.intros(1) pos, unfolded ceil lim if_P [OF ex]] obtain off b
    where r: "alloc 100 arena_map = Some (off, b)" "\<forall>t < unat off div granule. \<not> free_run (ar_used arena_map) 2 t"
      "taken (ar_used b) = taken (ar_used arena_map) \<union> {unat off div granule..<unat off div granule + 2}"
    by (elim exE conjE) (rule that)
  have "\<not> 0 < unat off div granule" using r(2) by (auto simp: free_run_def free)
  then have "taken (ar_used b) = {0..<2}" using r(3) free by (simp add: numeral_2_eq_2)
  moreover have "{0..<2 :: nat} = {0, 1}" by auto
  ultimately have "alloc 100 arena_map = Some (off, b) \<and> taken (ar_used b) = {0, 1}" using r(1) by (simp only: simp_thms)
  then show ?thesis by (intro exI)
qed

text \<open>C28. A write that fits the arena changes exactly the bytes of its object: those of its extent that lie before the next
  fixed object. Everything else, in particular every fixed object behind it, keeps its bytes.\<close>

theorem arena_write_clipped:
  assumes "arena_reach a" and "unat off + length bs \<le> ar_len a"
  shows "ar_mem (arena_write a off bs) i =
    (if unat off \<le> i \<and> i < unat off + length bs \<and> (\<forall>f\<in>set (ar_fixed a). off < f \<longrightarrow> i < unat f)
     then bs ! (i - unat off) else ar_mem a i)"
  by (rule arena_write_spec [OF arena_reach_wf [OF assms(1)]])
    (simp add: in_range_iff [OF arena_reach_wf [OF assms(1)]] assms(2))

theorem arena_write_clipped_witness:
  "ar_mem (arena_write (set_fixed [2] arena_map) 0 [7, 8, 9]) 1 = 8 \<and> ar_mem (arena_write (set_fixed [2] arena_map) 0 [7, 8, 9]) 2 = 0"
proof -
  have "arena_reach (set_fixed [2] arena_map)" by (rule arena_reach.intros(6) [OF arena_reach.intros(1)])
  note w = arena_write_clipped [OF this, of 0 "[7, 8, 9]"]
  have f: "set (ar_fixed (set_fixed [2] arena_map)) = {2}" "ar_len (set_fixed [2] arena_map) = 2 ^ 24"
    "ar_mem (set_fixed [2] arena_map) = (\<lambda>_. 0)" by (simp_all add: set_fixed_def arena_map_def arena_size_def)
  show ?thesis using w [of 1] w [of 2] by (simp add: f)
qed

text \<open>Copyout reads what copyin wrote: a little-endian scalar of 1 to 8 bytes written into an arena where no fixed object
  starts inside it is read back, truncated to its width.\<close>

theorem scalar_roundtrip:
  assumes "arena_reach a" and "unat off + n \<le> ar_len a" and "1 \<le> n" and "n \<le> 8"
    and "\<forall>f\<in>set (ar_fixed a). f \<le> off \<or> unat off + n \<le> unat f"
  shows "read_scalar (arena_write a off (le_of_word n v)) off n = Some (take_bit (8 * n) v)"
proof -
  have wf: "arena_wf a" by (rule arena_reach_wf [OF assms(1)])
  then have wf': "arena_wf (arena_write a off (le_of_word n v))" by (simp add: arena_wf_def)
  have ir: "in_range a off (length (le_of_word n v))" using in_range_iff [OF wf] assms(2) by simp
  have "ar_mem (arena_write a off (le_of_word n v)) i = le_of_word n v ! (i - unat off)" if "unat off \<le> i" "i < unat off + n" for i
    using that assms(5) unfolding arena_write_spec [OF wf ir] by auto
  then have "map (ar_mem (arena_write a off (le_of_word n v))) [unat off..<unat off + n] = le_of_word n v"
    by (intro nth_equalityI) auto
  moreover have "word_of_le (le_of_word n v @ replicate (8 - n) 0) = take_bit (8 * n) v"
    using assms(4) by (intro bit_word_eqI) (auto simp: bit_word_of_le nth_append le_of_word_def bit_simps less_mult_imp_div_less div_less_iff_less_mult)
  moreover have "in_range (arena_write a off (le_of_word n v)) off n" using in_range_iff [OF wf'] assms(2) by simp
  ultimately show ?thesis using assms(3,4) by (simp add: read_scalar_def)
qed

theorem scalar_roundtrip_witness: "read_scalar (arena_write arena_map 8 (le_of_word 4 (0x1122334455 :: u64))) 8 4 = Some 0x22334455"
  using scalar_roundtrip [OF arena_reach.intros(1), of 8 4 "0x1122334455"]
  by (simp add: arena_map_def arena_size_def take_bit_eq_mod)

end
