(* ===== verification/Prog_Csum.thy ===== *)
theory Prog_Csum
  imports Prelude
begin

text \<open>
  The internet checksum and the bit-field packing of the copyin code (\<^verbatim>\<open>csum_inet\<close> and
  \<^verbatim>\<open>bitfield_pack\<close> in \<^verbatim>\<open>fuzz/prog_decode.rs\<close>), on the machine words of the source. The
  lemmas relate the folded accumulator to the sum of the 16-bit words modulo 65535.
\<close>

unbundle bit_operations_syntax

section \<open>Definitions\<close>

lemma fold_decreases: "0xffff < acc \<Longrightarrow> unat ((acc AND 0xffff) + drop_bit 16 acc) < unat (acc :: u32)"
  and unat_fold: "unat ((acc AND 0xffff) + drop_bit 16 acc) = unat acc mod 65536 + unat acc div 65536"
proof -
  have "acc AND 0xffff = take_bit 16 acc" by (simp add: take_bit_eq_mask mask_eq_exp_minus_1)
  then have "unat (acc AND 0xffff) = take_bit 16 (unat acc)" by (simp only: unsigned_take_bit_eq)
  then have m: "unat (acc AND 0xffff) = unat acc mod 65536" by (simp add: take_bit_eq_mod)
  have d: "unat (drop_bit 16 acc) = unat acc div 65536" by (simp add: drop_bit_eq_div unat_div)
  have "unat acc < 2 ^ LENGTH(32)" by (rule unsigned_less)
  then have "unat acc mod 65536 + unat acc div 65536 < 2 ^ LENGTH(32)"
    using mod_less_divisor [of 65536 "unat acc"] by (simp add: div_less_iff_less_mult)
  then show s: "unat ((acc AND 0xffff) + drop_bit 16 acc) = unat acc mod 65536 + unat acc div 65536"
    unfolding unat_word_ariths m d by simp
  show "unat ((acc AND 0xffff) + drop_bit 16 acc) < unat acc" if "0xffff < acc"
  proof -
    have "65535 < unat acc" using that by (simp add: word_less_nat_alt)
    then have "0 < unat acc div 65536" by (simp add: div_greater_zero_iff)
    moreover have "unat acc = 65536 * (unat acc div 65536) + unat acc mod 65536" by simp
    ultimately show ?thesis unfolding s by linarith
  qed
qed

function fold_carry :: "u32 \<Rightarrow> u32" where
  "fold_carry acc = (if 0xffff < acc then fold_carry ((acc AND 0xffff) + drop_bit 16 acc) else acc)"
  by pat_completeness auto
termination
  by (relation "measure unat") (use fold_decreases in auto)

declare fold_carry.simps [simp del]

fun csum_loop :: "bytes \<Rightarrow> u32 \<Rightarrow> u32" where
  "csum_loop (x # y # ds) acc = csum_loop ds (fold_carry (acc + ucast (word_of_le [x, y] :: u16)))"
| "csum_loop [x] acc = acc + ucast x"
| "csum_loop [] acc = acc"

definition csum_inet :: "bytes \<Rightarrow> u16" where
  "csum_inet data = NOT (ucast (fold_carry (csum_loop data 0)))"

text \<open>The shifts of the release build take their amount modulo 64.\<close>

definition bitfield_pack :: "u64 \<Rightarrow> u64 \<Rightarrow> u64 \<Rightarrow> u64 \<Rightarrow> u64" where
  "bitfield_pack wd v offset len =
     (if len = 0 \<or> 64 \<le> len then v
      else let sh = unat offset mod 64; msk = push_bit sh (push_bit (unat len) 1 - 1)
           in (wd AND NOT msk) OR (push_bit sh v AND msk))"

section \<open>The folded sum\<close>

fun wsum :: "bytes \<Rightarrow> nat" where
  "wsum (x # y # ds) = unat x + 256 * unat y + wsum ds"
| "wsum [x] = unat x"
| "wsum [] = 0"

text \<open>\<open>folded n m\<close>: \<open>m\<close> is a 16-bit one's complement representative of \<open>n\<close>.\<close>

definition folded :: "nat \<Rightarrow> nat \<Rightarrow> bool" where
  "folded n m \<longleftrightarrow> m \<le> 65535 \<and> m mod 65535 = n mod 65535 \<and> (m = 0 \<longleftrightarrow> n = 0)"

lemma folded_fold_carry: "folded (unat acc) (unat (fold_carry acc))"
proof (induction acc rule: fold_carry.induct)
  case (1 acc)
  show ?case
  proof (cases "0xffff < acc")
    case True
    let ?n = "unat acc"
    have n: "?n = 65536 * (?n div 65536) + ?n mod 65536" by simp
    then have "?n = 65535 * (?n div 65536) + (?n mod 65536 + ?n div 65536)" by linarith
    then have "?n mod 65535 = (?n mod 65536 + ?n div 65536) mod 65535" by (metis mod_mult_self4)
    moreover have "?n mod 65536 + ?n div 65536 = 0 \<longleftrightarrow> ?n = 0" using n by linarith
    ultimately show ?thesis
      using 1 [OF True] True by (simp add: folded_def unat_fold fold_carry.simps [of acc])
  next
    case False
    then show ?thesis by (simp add: folded_def word_less_nat_alt fold_carry.simps [of acc])
  qed
qed

lemma folded_add:
  assumes "folded n m" and "folded (m + k) r"
  shows "folded (n + k) r"
proof -
  have "(m + k) mod 65535 = (n + k) mod 65535" using assms(1) unfolding folded_def by (metis mod_add_left_eq)
  then show ?thesis using assms by (auto simp: folded_def)
qed

lemma unat_le16: "unat (word_of_le [x, y] :: u16) = unat x + 256 * unat y"
proof -
  have b: "unat x < 256" "unat y < 256" using unsigned_less [of x] unsigned_less [of y] by simp_all
  have "(word_of_le [x, y] :: u16) = of_nat (unat x + 256 * unat y)"
  proof -
    have "le_int [x, y] = int (unat x + 256 * unat y)" by simp
    then show ?thesis by (simp only: word_of_le_int of_int_of_nat_eq)
  qed
  moreover have "unat (of_nat k :: u16) = k" if "k < 65536" for k using that by (simp add: unat_of_nat take_bit_nat_eq_self)
  ultimately show ?thesis using b by (simp only:)
qed

lemma csum_loop_folded:
  "unat acc \<le> 65535 \<Longrightarrow> folded (unat acc + wsum ds) (unat (fold_carry (csum_loop ds acc)))"
proof (induction ds acc rule: csum_loop.induct)
  case (1 x y ds acc)
  let ?w = "word_of_le [x, y] :: u16"
  have "unat ?w < 2 ^ LENGTH(16)" by (rule unsigned_less)
  then have s: "unat (acc + ucast ?w) = unat acc + (unat x + 256 * unat y)"
    using 1(2) by (simp add: unat_word_ariths unat_ucast_up unat_le16 del: word_of_le.simps)
  have f: "folded (unat (acc + ucast ?w)) (unat (fold_carry (acc + ucast ?w)))" by (rule folded_fold_carry)
  then have "folded (unat (fold_carry (acc + ucast ?w)) + wsum ds) (unat (fold_carry (csum_loop ds (fold_carry (acc + ucast ?w)))))"
    by (intro 1(1)) (simp add: folded_def)
  from folded_add [OF f this] show ?case by (simp add: s add.assoc del: word_of_le.simps)
next
  case (2 x acc)
  have "unat x < 2 ^ LENGTH(8)" by (rule unsigned_less)
  then have "unat (acc + ucast x) = unat acc + unat x" using 2 by (simp add: unat_word_ariths unat_ucast_up)
  then show ?case using folded_fold_carry [of "acc + ucast x"] by simp
next
  case (3 acc)
  then show ?case using folded_fold_carry [of acc] by simp
qed

lemma unat_csum: "\<exists>m. folded (wsum data) m \<and> unat (csum_inet data) = 65535 - m"
proof -
  let ?f = "fold_carry (csum_loop data 0)"
  have f: "folded (wsum data) (unat ?f)" using csum_loop_folded [of 0 data] by simp
  then have "unat (ucast ?f :: u16) = unat ?f" by (simp add: folded_def unsigned_ucast_eq take_bit_nat_eq_self)
  moreover have "unat (NOT w) = 65535 - unat w" for w :: u16
  proof -
    have "NOT w = 0xffff - w" by (simp add: not_eq_complement)
    moreover have "unat w < 2 ^ LENGTH(16)" by (rule unsigned_less)
    then have "w \<le> 0xffff" by (simp add: word_le_nat_alt)
    ultimately show ?thesis by (simp add: unat_sub)
  qed
  ultimately show ?thesis using f by (auto simp: csum_inet_def)
qed

section \<open>Storing the checksum\<close>

lemma wsum_update:
  assumes "even off" and "off + 2 \<le> length ds"
  shows "wsum (ds[off := x, off + 1 := y]) + (unat (ds ! off) + 256 * unat (ds ! (off + 1))) = wsum ds + (unat x + 256 * unat y)"
  using assms
proof (induction ds arbitrary: off rule: wsum.induct)
  case (1 a b ds)
  show ?case
  proof (cases "off = 0")
    case False
    with 1(2) have "2 \<le> off" by presburger
    then obtain k where k: "off = k + 2" by (metis le_add_diff_inverse2)
    with 1(2) have "even k" by simp
    with k show ?thesis using 1(1) [of k] 1(3) by simp
  qed simp
qed auto

text \<open>\<open>store_csum\<close> is the body of \<^verbatim>\<open>fix_csums\<close> once the offset is known.\<close>

definition store_csum :: "nat \<Rightarrow> bytes \<Rightarrow> bytes" where
  "store_csum off bs =
     (if length bs < off + 2 then bs
      else let bs = bs[off := 0, off + 1 := 0]; sm = le_of_word 2 (csum_inet bs)
           in bs[off := sm ! 0, off + 1 := sm ! 1])"

lemma unat_le_of_word2: "unat (le_of_word 2 (c :: u16) ! 0) + 256 * unat (le_of_word 2 c ! 1) = unat c"
proof -
  have "[le_of_word 2 c ! 0, le_of_word 2 c ! 1] = le_of_word 2 c" by (simp add: le_of_word_def upt_rec)
  moreover have "word_of_le (le_of_word 2 c) = c" by (rule word_of_le_of_word) simp
  ultimately show ?thesis using unat_le16 [of "le_of_word 2 c ! 0" "le_of_word 2 c ! 1"] by metis
qed

lemma csum_store:
  assumes "even off" and "off + 2 \<le> length bs"
  shows "csum_inet (store_csum off bs) = 0"
proof -
  define z where "z = bs[off := 0, off + 1 := 0]"
  let ?c = "csum_inet z"
  let ?s = "z[off := le_of_word 2 ?c ! 0, off + 1 := le_of_word 2 ?c ! 1]"
  have st: "store_csum off bs = ?s" using assms(2) by (simp add: store_csum_def z_def Let_def)
  have "z ! off = 0" "z ! (off + 1) = 0" "off + 2 \<le> length z" using assms(2) by (simp_all add: z_def nth_list_update)
  then have sum: "wsum ?s = wsum z + unat ?c"
    using wsum_update [OF assms(1), of z "le_of_word 2 ?c ! 0" "le_of_word 2 ?c ! 1"] unat_le_of_word2 [of ?c] by simp
  obtain m where m: "folded (wsum z) m" "unat ?c = 65535 - m" using unat_csum by blast
  obtain n where n: "folded (wsum ?s) n" "unat (csum_inet ?s) = 65535 - n" using unat_csum by blast
  have "(wsum z + (65535 - m)) mod 65535 = (m + (65535 - m)) mod 65535"
    using m(1) unfolding folded_def by (metis mod_add_left_eq)
  then have "wsum ?s mod 65535 = 0" using sum m unfolding folded_def by simp
  moreover have "wsum ?s \<noteq> 0" using sum m unfolding folded_def by auto
  ultimately have "n mod 65535 = 0" "n \<noteq> 0" "n \<le> 65535" using n(1) unfolding folded_def by simp_all
  then have "n = 65535" by auto
  then have "unat (csum_inet ?s) = 0" using n(2) by simp
  then show ?thesis unfolding st by (simp add: unat_eq_0)
qed

section \<open>Bit fields\<close>

lemma bit_field_mask: "len < 64 \<Longrightarrow> bit (push_bit sh (push_bit len 1 - 1) :: u64) i \<longleftrightarrow> i < 64 \<and> sh \<le> i \<and> i < sh + len"
proof -
  assume "len < 64"
  have "push_bit len 1 - 1 = (mask len :: u64)" by (simp add: mask_eq_exp_minus_1)
  then show ?thesis using \<open>len < 64\<close> by (auto simp: bit_simps)
qed

text \<open>Packing a bit field writes exactly its bits: inside the field the word carries the low bits of the value,
  outside it keeps its own bits. Fields of width 0 or of 64 and more bits replace the whole word.\<close>

theorem bitfield_pack_bits:
  assumes "offset + len \<le> 64"
  shows "bit (bitfield_pack wd v (of_nat offset) (of_nat len)) i \<longleftrightarrow>
    (if len = 0 \<or> 64 \<le> len then bit v i else if offset \<le> i \<and> i < offset + len then bit v (i - offset) else bit wd i)"
proof -
  have u: "unat (of_nat len :: u64) = len" "unat (of_nat offset :: u64) = offset"
    using assms by (simp_all add: unat_of_nat take_bit_nat_eq_self)
  then have z: "(of_nat len :: u64) = 0 \<longleftrightarrow> len = 0" "(64 :: u64) \<le> of_nat len \<longleftrightarrow> 64 \<le> len"
    by (metis unat_eq_0, simp add: word_le_nat_alt)
  show ?thesis
  proof (cases "len = 0 \<or> 64 \<le> len")
    case False
    then have "offset < 64" using assms by simp
    define M :: u64 where "M = push_bit offset (push_bit len 1 - 1)"
    have M: "bit M i \<longleftrightarrow> i < 64 \<and> offset \<le> i \<and> i < offset + len" unfolding M_def by (rule bit_field_mask) (use False in simp)
    have "bitfield_pack wd v (of_nat offset) (of_nat len) = (wd AND NOT M) OR (push_bit offset v AND M)"
      using False \<open>offset < 64\<close> z by (simp only: bitfield_pack_def u M_def Let_def if_False mod_less simp_thms)
    moreover have "\<not> bit wd i" if "\<not> i < 64" using that bit_imp_le_length [of wd i] by auto
    ultimately show ?thesis using False assms by (auto simp: bit_or_iff bit_and_iff bit_not_iff bit_push_bit_iff M)
  qed (use z in \<open>simp add: bitfield_pack_def\<close>)
qed

theorem bitfield_pack_bits_witness: "bit (bitfield_pack 0xff 0 4 2) 5 = False \<and> bit (bitfield_pack 0xff 0 4 2) 6 = True"
  using bitfield_pack_bits [of 4 2 "0xff" 0 5] bitfield_pack_bits [of 4 2 "0xff" 0 6] by simp

end
