(* ===== verification/Prog_Copyin.thy ===== *)
theory Prog_Copyin
  imports Prog_Parse Prog_Arena Prog_Csum
begin

text \<open>
  Copyin and copyout (\<^verbatim>\<open>fuzz/prog_decode.rs\<close>): the byte image of an argument, the layout of pointer
  targets into the arena with their checksums, the resource fields to read back, the placement of fixed and
  \<^verbatim>\<open>AUTO\<close> objects, and the scalar arguments of a call. The integer width inside compound values, which the
  source reads from the environment, is an argument of the functions.
\<close>

section \<open>Definitions\<close>

definition res_width :: nat where
  "res_width = 4"

definition max_args :: nat where
  "max_args = 9"

definition int_width :: "str option \<Rightarrow> nat" where
  "int_width env =
     (case env \<bind> parse_usize of
        Some w \<Rightarrow> if w = 1 \<or> w = 2 \<or> w = 4 \<or> w = 8 then w else 8
      | None \<Rightarrow> 8)"

record copyout =
  co_slot :: nat
  co_off :: u64
  co_size :: nat

record ctx =
  cx_res :: "nat \<Rightarrow> u64 option"

definition ctx_new :: ctx where
  "ctx_new = \<lparr>cx_res = Map.empty\<rparr>"

definition ctx_resolve :: "ctx \<Rightarrow> nat \<Rightarrow> u64 \<Rightarrow> u64 \<Rightarrow> u64" where
  "ctx_resolve c idx dv add =
     (case cx_res c idx of
        Some v \<Rightarrow> (let v = (if dv \<noteq> 0 then v div dv else v) in v + add)
      | None \<Rightarrow> 0xffffffffffffffff)"

definition ctx_set :: "nat \<Rightarrow> u64 \<Rightarrow> ctx \<Rightarrow> ctx" where
  "ctx_set idx v c = c\<lparr>cx_res := (cx_res c)(idx \<mapsto> v)\<rparr>"

fun encode :: "arg \<Rightarrow> ctx \<Rightarrow> nat \<Rightarrow> bytes" where
  "encode (Int_arg v) c w = take w (le_of_word 8 v)"
| "encode (Res idx dv add) c w = take w (le_of_word 8 (ctx_resolve c idx dv add))"
| "encode Nil_arg c w = replicate w 0"
| "encode Csum c w = replicate 2 0"
| "encode (Data d) c w = d"
| "encode (Union_arg x) c w = encode x c w"
| "encode (Out n x) c w = resize (encode x c res_width) res_width 0"
| "encode (Struct fs) c w = concat (map (\<lambda>f. encode f c w) fs)"
| "encode (Array fs) c w = concat (map (\<lambda>f. encode f c w) fs)"
| "encode (Ptr addr t) c w = le_of_word 8 (physical_addr addr)"

fun encoded_len :: "arg \<Rightarrow> nat \<Rightarrow> nat" where
  "encoded_len (Data d) w = length d"
| "encoded_len Csum w = 2"
| "encoded_len (Ptr addr t) w = 8"
| "encoded_len (Out n x) w = res_width"
| "encoded_len (Union_arg x) w = encoded_len x w"
| "encoded_len (Struct fs) w = sum_list (map (\<lambda>f. encoded_len f w) fs)"
| "encoded_len (Array fs) w = sum_list (map (\<lambda>f. encoded_len f w) fs)"
| "encoded_len a w = w"

fun collect_copyouts :: "arg \<Rightarrow> u64 \<Rightarrow> nat \<Rightarrow> copyout list \<Rightarrow> copyout list"
  and collect_fields :: "arg list \<Rightarrow> u64 \<Rightarrow> nat \<Rightarrow> copyout list \<Rightarrow> copyout list" where
  "collect_copyouts (Out n x) base w out =
     collect_copyouts x base w (out @ [\<lparr>co_slot = n, co_off = base, co_size = res_width\<rparr>])"
| "collect_copyouts (Struct fs) base w out = collect_fields fs base w out"
| "collect_copyouts (Array fs) base w out = collect_fields fs base w out"
| "collect_copyouts (Union_arg x) base w out = collect_copyouts x base w out"
| "collect_copyouts a base w out = out"
| "collect_fields [] off w out = out"
| "collect_fields (f # fs) off w out = collect_fields fs (off + of_nat (encoded_len f w)) w (collect_copyouts f off w out)"

fun csum_offset :: "arg \<Rightarrow> nat \<Rightarrow> nat \<Rightarrow> nat option"
  and csum_fields :: "arg list \<Rightarrow> nat \<Rightarrow> nat \<Rightarrow> nat option" where
  "csum_offset Csum base w = Some base"
| "csum_offset (Struct fs) base w = csum_fields fs base w"
| "csum_offset (Array fs) base w = csum_fields fs base w"
| "csum_offset (Union_arg x) base w = csum_offset x base w"
| "csum_offset (Out n x) base w = csum_offset x base w"
| "csum_offset a base w = None"
| "csum_fields [] off w = None"
| "csum_fields (f # fs) off w =
     (case csum_offset f off w of Some p \<Rightarrow> Some p | None \<Rightarrow> csum_fields fs (off + encoded_len f w) w)"

definition fix_csums :: "bytes \<Rightarrow> arg \<Rightarrow> nat \<Rightarrow> bytes" where
  "fix_csums bs a w = (case csum_offset a 0 w of None \<Rightarrow> bs | Some off \<Rightarrow> store_csum off bs)"

text \<open>The arena is behind a raw pointer in the source: its state is threaded through.\<close>

fun copyin :: "nat \<Rightarrow> ctx \<Rightarrow> arg \<Rightarrow> arena \<Rightarrow> u64 \<times> arena"
  and lay_out_nested :: "nat \<Rightarrow> ctx \<Rightarrow> arg \<Rightarrow> arena \<Rightarrow> arena"
  and lay_out_fields :: "nat \<Rightarrow> ctx \<Rightarrow> arg list \<Rightarrow> arena \<Rightarrow> arena" where
  "copyin w c (Int_arg v) ar = (v, ar)"
| "copyin w c (Res idx dv add) ar = (ctx_resolve c idx dv add, ar)"
| "copyin w c (Union_arg x) ar = copyin w c x ar"
| "copyin w c (Out n x) ar = copyin w c x ar"
| "copyin w c (Ptr addr None) ar = (physical_addr addr, ar)"
| "copyin w c (Ptr addr (Some x)) ar =
     (let ar = lay_out_nested w c x ar; bs = fix_csums (encode x c w) x w
      in (physical_addr addr, arena_write ar addr bs))"
| "copyin w c a ar = (0, ar)"
| "lay_out_nested w c (Ptr addr t) ar = snd (copyin w c (Ptr addr t) ar)"
| "lay_out_nested w c (Struct fs) ar = lay_out_fields w c fs ar"
| "lay_out_nested w c (Array fs) ar = lay_out_fields w c fs ar"
| "lay_out_nested w c (Union_arg x) ar = lay_out_nested w c x ar"
| "lay_out_nested w c (Out n x) ar = lay_out_nested w c x ar"
| "lay_out_nested w c a ar = ar"
| "lay_out_fields w c [] ar = ar"
| "lay_out_fields w c (f # fs) ar = lay_out_fields w c fs (lay_out_nested w c f ar)"

section \<open>Placement\<close>

type_synonym placing = "arena \<times> u64 list"

fun note_arg :: "nat \<Rightarrow> arg \<Rightarrow> placing \<Rightarrow> placing option"
  and note_list :: "nat \<Rightarrow> arg list \<Rightarrow> placing \<Rightarrow> placing option" where
  "note_arg w (Ptr addr (Some x)) (ar, addrs) = do {
     ar \<leftarrow> note_alloc addr (max (encoded_len x w) 1) ar;
     note_arg w x (ar, addrs @ [addr]) }"
| "note_arg w (Struct fs) s = note_list w fs s"
| "note_arg w (Array fs) s = note_list w fs s"
| "note_arg w (Union_arg x) s = note_arg w x s"
| "note_arg w (Out n x) s = note_arg w x s"
| "note_arg w a s = Some s"
| "note_list w [] s = Some s"
| "note_list w (f # fs) s = do { s \<leftarrow> note_arg w f s; note_list w fs s }"

fun assign :: "nat \<Rightarrow> arg \<Rightarrow> placing \<Rightarrow> (arg \<times> placing) option"
  and assign_list :: "nat \<Rightarrow> arg list \<Rightarrow> placing \<Rightarrow> (arg list \<times> placing) option" where
  "assign w (Ptr addr (Some x)) (ar, addrs) = do {
     (addr, ar, addrs) \<leftarrow>
       (if addr = auto_addr
        then do { (off, ar) \<leftarrow> alloc (max (encoded_len x w) 1) ar; Some (off, ar, addrs @ [off]) }
        else Some (addr, ar, addrs));
     (x, s) \<leftarrow> assign w x (ar, addrs);
     Some (Ptr addr (Some x), s) }"
| "assign w (Ptr addr None) (ar, addrs) =
     (if addr = auto_addr then do { (off, ar) \<leftarrow> alloc granule ar; Some (Ptr off None, ar, addrs) }
      else Some (Ptr addr None, ar, addrs))"
| "assign w (Struct fs) s = map_option (\<lambda>(fs, s). (Struct fs, s)) (assign_list w fs s)"
| "assign w (Array fs) s = map_option (\<lambda>(fs, s). (Array fs, s)) (assign_list w fs s)"
| "assign w (Union_arg x) s = map_option (\<lambda>(x, s). (Union_arg x, s)) (assign w x s)"
| "assign w (Out n x) s = map_option (\<lambda>(x, s). (Out n x, s)) (assign w x s)"
| "assign w a s = Some (a, s)"
| "assign_list w [] s = Some ([], s)"
| "assign_list w (f # fs) s = do { (f, s) \<leftarrow> assign w f s; (fs, s) \<leftarrow> assign_list w fs s; Some (f # fs, s) }"

fun note_calls :: "nat \<Rightarrow> prog \<Rightarrow> placing \<Rightarrow> placing option" where
  "note_calls w [] s = Some s"
| "note_calls w (c # cs) s = do { s \<leftarrow> note_list w (c_args c) s; note_calls w cs s }"

fun assign_calls :: "nat \<Rightarrow> prog \<Rightarrow> placing \<Rightarrow> (prog \<times> placing) option" where
  "assign_calls w [] s = Some ([], s)"
| "assign_calls w (c # cs) s = do {
     (as, s) \<leftarrow> assign_list w (c_args c) s;
     (cs, s) \<leftarrow> assign_calls w cs s;
     Some (c\<lparr>c_args := as\<rparr> # cs, s) }"

definition note_fixed :: "nat \<Rightarrow> prog \<Rightarrow> arena \<Rightarrow> (prog \<times> arena) option" where
  "note_fixed w p ar = do {
     s \<leftarrow> note_calls w p (ar, []);
     (p, ar, addrs) \<leftarrow> assign_calls w p s;
     Some (p, set_fixed addrs ar) }"

section \<open>The arguments of a call\<close>

record prepared =
  pr_args :: "u64 list"
  pr_copyouts :: "copyout list"

fun prepare_loop :: "nat \<Rightarrow> ctx \<Rightarrow> nat \<Rightarrow> arg list \<Rightarrow> u64 list \<Rightarrow> copyout list \<Rightarrow> arena \<Rightarrow> prepared \<times> arena" where
  "prepare_loop w c i [] args outs ar = (\<lparr>pr_args = args, pr_copyouts = outs\<rparr>, ar)"
| "prepare_loop w c i (a # as) args outs ar =
     (let (v, ar) = copyin w c a ar;
          outs = (case a of Ptr addr (Some x) \<Rightarrow> collect_copyouts x addr w outs | _ \<Rightarrow> outs)
      in prepare_loop w c (i + 1) as (args[i := v]) outs ar)"

definition prepare_args :: "nat \<Rightarrow> call \<Rightarrow> ctx \<Rightarrow> arena \<Rightarrow> prepared \<times> arena" where
  "prepare_args w cl c ar = prepare_loop w c 0 (take max_args (c_args cl)) (replicate max_args 0) [] ar"

section \<open>The byte image\<close>

lemma encode_length: "w \<le> 8 \<Longrightarrow> length (encode a c w) = encoded_len a w"
proof (induction a c w rule: encode.induct)
  case (8 fs c w)
  then show ?case by (simp add: length_concat comp_def cong: map_cong)
next
  case (9 fs c w)
  then show ?case by (simp add: length_concat comp_def cong: map_cong)
qed simp_all

lemma length_store_csum [simp]: "length (store_csum off bs) = length bs"
  by (simp add: store_csum_def Let_def)

lemma length_fix_csums [simp]: "length (fix_csums bs a w) = length bs"
  by (simp add: fix_csums_def split: option.split)

text \<open>The objects an argument writes, in the order they are written.\<close>

definition object_bytes :: "nat \<Rightarrow> ctx \<Rightarrow> arg \<Rightarrow> bytes" where
  "object_bytes w c x = fix_csums (encode x c w) x w"

fun nested_objects :: "nat \<Rightarrow> ctx \<Rightarrow> arg \<Rightarrow> (u64 \<times> bytes) list" where
  "nested_objects w c (Ptr addr (Some x)) = nested_objects w c x @ [(addr, object_bytes w c x)]"
| "nested_objects w c (Struct fs) = concat (map (nested_objects w c) fs)"
| "nested_objects w c (Array fs) = concat (map (nested_objects w c) fs)"
| "nested_objects w c (Union_arg x) = nested_objects w c x"
| "nested_objects w c (Out n x) = nested_objects w c x"
| "nested_objects w c a = []"

fun objects :: "nat \<Rightarrow> ctx \<Rightarrow> arg \<Rightarrow> (u64 \<times> bytes) list" where
  "objects w c (Ptr addr (Some x)) = nested_objects w c (Ptr addr (Some x))"
| "objects w c (Union_arg x) = objects w c x"
| "objects w c (Out n x) = objects w c x"
| "objects w c a = []"

lemma copyin_writes: "snd (copyin w c a ar) = arena_store.wr_all (objects w c a) ar"
  and lay_out_nested_writes: "lay_out_nested w c a ar = arena_store.wr_all (nested_objects w c a) ar"
  and lay_out_fields_writes: "lay_out_fields w c fs ar = arena_store.wr_all (concat (map (nested_objects w c) fs)) ar"
proof (induction w c a ar and w c a ar and w c fs ar rule: copyin_lay_out_nested_lay_out_fields.induct)
  case (8 w c addr t ar)
  then show ?case by (cases t) simp_all
qed (simp_all add: object_bytes_def Let_def)

lemma wr_all_fields [simp]:
  "ar_len (arena_store.wr_all ws ar) = ar_len ar" "ar_fixed (arena_store.wr_all ws ar) = ar_fixed ar"
  by (induction ws arbitrary: ar) (auto simp: arena_store.wr_all_simps)

lemma reach_wr_all: "arena_reach ar \<Longrightarrow> arena_reach (arena_store.wr_all ws ar)"
  by (induction ws arbitrary: ar) (simp_all add: split_paired_all arena_reach.intros(5))

lemma wr_all_keeps:
  assumes "arena_reach ar" and "unat off + length bs \<le> ar_len ar"
    and "unat off \<le> i" and "i < unat off + length bs" and "\<forall>f\<in>set (ar_fixed ar). off < f \<longrightarrow> i < unat f"
    and "\<forall>(o', b)\<in>set post. i < unat o' \<or> unat o' + length b \<le> i"
  shows "ar_mem (arena_store.wr_all (pre @ (off, bs) # post) ar) i = bs ! (i - unat off)"
proof -
  let ?a = "arena_store.wr_all pre ar"
  have wf: "arena_wf ?a" by (rule arena_reach_wf [OF reach_wr_all [OF assms(1)]])
  have "in_range ?a off (length bs)" using in_range_iff [OF wf] assms(2) by simp
  from arena_write_spec [OF wf this, of i] have "ar_mem (arena_write ?a off bs) i = bs ! (i - unat off)"
    using assms(3-5) by simp
  then show ?thesis using arena_store.frame_all [OF assms(6), of "arena_write ?a off bs"] by simp
qed

lemma prepare_loop_arena:
  "snd (prepare_loop w c i as args outs ar) = arena_store.wr_all (concat (map (objects w c) as)) ar"
proof (induction as arbitrary: i args outs ar)
  case (Cons a as)
  obtain v b where v: "copyin w c a ar = (v, b)" by fastforce
  then have "b = arena_store.wr_all (objects w c a) ar" using copyin_writes [of w c a ar] by simp
  with v Cons show ?case by (simp add: Let_def)
qed simp

section \<open>Resource fields\<close>

fun out_slots :: "arg \<Rightarrow> nat list" where
  "out_slots (Out n x) = n # out_slots x"
| "out_slots (Struct fs) = concat (map out_slots fs)"
| "out_slots (Array fs) = concat (map out_slots fs)"
| "out_slots (Union_arg x) = out_slots x"
| "out_slots a = []"

text \<open>\<open>flat_outs\<close>: a produced field does not contain another one.\<close>

fun flat_outs :: "arg \<Rightarrow> bool" where
  "flat_outs (Out n x) = (out_slots x = [])"
| "flat_outs (Struct fs) = list_all flat_outs fs"
| "flat_outs (Array fs) = list_all flat_outs fs"
| "flat_outs (Union_arg x) = flat_outs x"
| "flat_outs a = True"

definition co_inside :: "nat \<Rightarrow> nat \<Rightarrow> copyout \<Rightarrow> bool" where
  "co_inside lo hi f \<longleftrightarrow> lo \<le> unat (co_off f) \<and> unat (co_off f) + co_size f \<le> hi"

lemma collect_slots: "map co_slot (collect_copyouts a base w out) = map co_slot out @ out_slots a"
  and collect_fields_slots: "map co_slot (collect_fields fs base w out) = map co_slot out @ concat (map out_slots fs)"
  by (induction a base w out and fs base w out rule: collect_copyouts_collect_fields.induct) simp_all

lemma collect_none: "out_slots a = [] \<Longrightarrow> collect_copyouts a base w out = out"
  and collect_fields_none: "concat (map out_slots fs) = [] \<Longrightarrow> collect_fields fs base w out = out"
  by (induction a base w out and fs base w out rule: collect_copyouts_collect_fields.induct) simp_all

lemma co_inside_mono: "co_inside lo hi f \<Longrightarrow> lo' \<le> lo \<Longrightarrow> hi \<le> hi' \<Longrightarrow> co_inside lo' hi' f"
  by (simp add: co_inside_def)

lemma unat_advance: "unat off + n < 2 ^ 64 \<Longrightarrow> unat (off + of_nat n :: u64) = unat off + n"
  by (simp add: unat_word_ariths unat_of_nat take_bit_nat_eq_self)

lemma collect_inside:
  "flat_outs a \<Longrightarrow> unat base + encoded_len a w < 2 ^ 64 \<Longrightarrow> f \<in> set (collect_copyouts a base w out) \<Longrightarrow>
     f \<in> set out \<or> co_inside (unat base) (unat base + encoded_len a w) f"
  and collect_fields_inside:
  "list_all flat_outs fs \<Longrightarrow> unat base + sum_list (map (\<lambda>f. encoded_len f w) fs) < 2 ^ 64 \<Longrightarrow> f \<in> set (collect_fields fs base w out) \<Longrightarrow>
     f \<in> set out \<or> co_inside (unat base) (unat base + sum_list (map (\<lambda>f. encoded_len f w) fs)) f"
proof (induction a base w out and fs base w out rule: collect_copyouts_collect_fields.induct)
  case (1 n x base w out)
  then show ?case by (auto simp: collect_none co_inside_def)
next
  case (7 g fs off w out)
  let ?n = "encoded_len g w" and ?m = "sum_list (map (\<lambda>f. encoded_len f w) fs)"
  have fits: "unat off + ?n < 2 ^ 64" "unat off + ?n + ?m < 2 ^ 64" using 7(4) by simp_all
  then have adv: "unat (off + of_nat ?n) = unat off + ?n" by (intro unat_advance)
  have "f \<in> set (collect_copyouts g off w out) \<or> co_inside (unat off + ?n) (unat off + ?n + ?m) f"
    using 7(2) 7(3,5) fits adv by simp
  then show ?case
  proof
    assume "f \<in> set (collect_copyouts g off w out)"
    then have "f \<in> set out \<or> co_inside (unat off) (unat off + ?n) f" using 7(1,3) fits by simp
    then show ?thesis using co_inside_mono [of "unat off" "unat off + ?n" f] by auto
  next
    assume "co_inside (unat off + ?n) (unat off + ?n + ?m) f"
    then have "co_inside (unat off) (unat off + (?n + ?m)) f" by (rule co_inside_mono) simp_all
    then show ?thesis by simp
  qed
qed auto

section \<open>Placement\<close>

fun no_auto :: "arg \<Rightarrow> bool" where
  "no_auto (Ptr addr (Some x)) = (addr \<noteq> auto_addr \<and> no_auto x)"
| "no_auto (Ptr addr None) = (addr \<noteq> auto_addr)"
| "no_auto (Struct fs) = list_all no_auto fs"
| "no_auto (Array fs) = list_all no_auto fs"
| "no_auto (Union_arg x) = no_auto x"
| "no_auto (Out n x) = no_auto x"
| "no_auto a = True"

fun object_addrs :: "arg \<Rightarrow> u64 set" where
  "object_addrs (Ptr addr (Some x)) = insert addr (object_addrs x)"
| "object_addrs (Struct fs) = \<Union> (set (map object_addrs fs))"
| "object_addrs (Array fs) = \<Union> (set (map object_addrs fs))"
| "object_addrs (Union_arg x) = object_addrs x"
| "object_addrs (Out n x) = object_addrs x"
| "object_addrs a = {}"

text \<open>The pointers of an argument in the order the passes visit them, each with the size of the memory it needs, and
  those of them that have an object.\<close>

type_synonym slot = "u64 \<times> nat"

fun slots :: "nat \<Rightarrow> arg \<Rightarrow> slot list" where
  "slots w (Ptr addr (Some x)) = (addr, max (encoded_len x w) 1) # slots w x"
| "slots w (Ptr addr None) = [(addr, granule)]"
| "slots w (Struct fs) = concat (map (slots w) fs)"
| "slots w (Array fs) = concat (map (slots w) fs)"
| "slots w (Union_arg x) = slots w x"
| "slots w (Out n x) = slots w x"
| "slots w a = []"

fun pointees :: "nat \<Rightarrow> arg \<Rightarrow> slot list" where
  "pointees w (Ptr addr (Some x)) = (addr, max (encoded_len x w) 1) # pointees w x"
| "pointees w (Struct fs) = concat (map (pointees w) fs)"
| "pointees w (Array fs) = concat (map (pointees w) fs)"
| "pointees w (Union_arg x) = pointees w x"
| "pointees w (Out n x) = pointees w x"
| "pointees w a = []"

text \<open>An argument without its addresses: what the placement must not change.\<close>

fun blank :: "arg \<Rightarrow> arg" where
  "blank (Ptr addr (Some x)) = Ptr 0 (Some (blank x))"
| "blank (Ptr addr None) = Ptr 0 None"
| "blank (Struct fs) = Struct (map blank fs)"
| "blank (Array fs) = Array (map blank fs)"
| "blank (Union_arg x) = Union_arg (blank x)"
| "blank (Out n x) = Out n (blank x)"
| "blank a = a"

definition blank_call :: "call \<Rightarrow> call" where
  "blank_call c = c\<lparr>c_args := map blank (c_args c)\<rparr>"

definition prog_slots :: "nat \<Rightarrow> prog \<Rightarrow> slot list" where
  "prog_slots w p = concat (map (slots w) (concat (map c_args p)))"

definition prog_pointees :: "nat \<Rightarrow> prog \<Rightarrow> slot list" where
  "prog_pointees w p = concat (map (pointees w) (concat (map c_args p)))"

text \<open>The granules an object covers, if it lies in the arena, and those a list of objects covers.\<close>

definition granules :: "nat \<Rightarrow> slot \<Rightarrow> nat set" where
  "granules len o' = (if unat (fst o') + snd o' \<le> len
     then {unat (fst o') div granule..<div_ceil (unat (fst o') + snd o') granule} else {})"

definition covered_by :: "nat \<Rightarrow> slot list \<Rightarrow> nat set" where
  "covered_by len os = \<Union> (set (map (granules len) os))"

definition fits :: "nat \<Rightarrow> nat set \<Rightarrow> nat \<Rightarrow> nat \<Rightarrow> bool" where
  "fits lim T sz s \<longleftrightarrow> s + div_ceil sz granule \<le> lim \<and> {s..<s + div_ceil sz granule} \<inter> T = {}"

text \<open>\<open>placed lim T os as T'\<close>: starting with the granules \<open>T\<close> taken, the slots \<open>os\<close> get the addresses \<open>as\<close> in order.
  An address of the text is kept; an \<^verbatim>\<open>AUTO\<close> slot gets the lowest free run of granules that holds it, which is
  then taken, or offset 0 when there is none.\<close>

fun placed :: "nat \<Rightarrow> nat set \<Rightarrow> slot list \<Rightarrow> u64 list \<Rightarrow> nat set \<Rightarrow> bool" where
  "placed lim T [] [] T' \<longleftrightarrow> T' = T"
| "placed lim T (o' # os) (a # as) T' \<longleftrightarrow>
     (if fst o' \<noteq> auto_addr then a = fst o' \<and> placed lim T os as T'
      else if \<forall>s. \<not> fits lim T (snd o') s then a = 0 \<and> placed lim T os as T'
      else \<exists>s. fits lim T (snd o') s \<and> (\<forall>j < s. \<not> fits lim T (snd o') j) \<and> a = of_nat (s * granule) \<and>
        placed lim (T \<union> {s..<s + div_ceil (snd o') granule}) os as T')"
| "placed lim T os as T' \<longleftrightarrow> False"

lemma placed_append:
  "placed lim T os as U \<Longrightarrow> placed lim U os' as' V \<Longrightarrow> placed lim T (os @ os') (as @ as') V"
  by (induction lim T os as U rule: placed.induct) (fastforce split: if_splits)+

lemma placed_mono: "placed lim T os as T' \<Longrightarrow> T \<subseteq> T' \<and> length as = length os"
  by (induction lim T os as T' rule: placed.induct) (auto split: if_splits)

lemma fits_mono: "fits lim T' sz s \<Longrightarrow> T \<subseteq> T' \<Longrightarrow> fits lim T sz s"
  by (auto simp: fits_def)

lemma placed_tail:
  assumes "placed lim T (o' # os) (a # as) T'"
  obtains U where "placed lim U os as T'" "T \<subseteq> U"
  using assms that by (auto split: if_splits)

lemma placed_head:
  assumes "placed lim T (o' # os) (a # as) T'" and "fst o' = auto_addr" and "fits lim T' (snd o') r"
  obtains s where "fits lim T (snd o') s" "a = of_nat (s * granule)" "placed lim (T \<union> {s..<s + div_ceil (snd o') granule}) os as T'"
proof -
  have "fits lim T (snd o') r" using assms(3) placed_mono [OF assms(1)] fits_mono by blast
  then show ?thesis using assms(1,2) that by (auto split: if_splits)
qed

lemma placed_at:
  "placed lim T os as T' \<Longrightarrow> i < length os \<Longrightarrow> fst (os ! i) = auto_addr \<Longrightarrow> fits lim T' (snd (os ! i)) r \<Longrightarrow>
   \<exists>s. as ! i = of_nat (s * granule) \<and> fits lim T (snd (os ! i)) s"
proof (induction os arbitrary: T as i)
  case (Cons o' os)
  obtain a as' where as: "as = a # as'" using placed_mono [OF Cons.prems(1)] by (cases as) auto
  show ?case
  proof (cases i)
    case 0
    with Cons.prems as placed_head [of lim T o' os a as' T' r] show ?thesis by auto
  next
    case (Suc k)
    obtain U where U: "placed lim U os as' T'" "T \<subseteq> U" using Cons.prems(1) unfolding as by (rule placed_tail)
    have "\<exists>s. as' ! k = of_nat (s * granule) \<and> fits lim U (snd (os ! k)) s"
      by (rule Cons.IH [OF U(1)]) (use Cons.prems(2-4) Suc in simp_all)
    then show ?thesis using Suc as fits_mono [OF _ U(2)] by auto
  qed
qed simp

lemma placed_apart:
  "placed lim T os as T' \<Longrightarrow> i < j \<Longrightarrow> j < length os \<Longrightarrow> fst (os ! i) = auto_addr \<Longrightarrow> fst (os ! j) = auto_addr \<Longrightarrow>
   fits lim T' (snd (os ! i)) r \<Longrightarrow> fits lim T' (snd (os ! j)) r' \<Longrightarrow>
   \<exists>s t. as ! i = of_nat (s * granule) \<and> as ! j = of_nat (t * granule) \<and> fits lim {} (snd (os ! i)) s \<and>
     fits lim {s..<s + div_ceil (snd (os ! i)) granule} (snd (os ! j)) t"
proof (induction os arbitrary: T as i j)
  case (Cons o' os)
  obtain a as' where as: "as = a # as'" using placed_mono [OF Cons.prems(1)] by (cases as) auto
  obtain k where k: "j = Suc k" using Cons.prems(2) by (cases j) auto
  show ?case
  proof (cases i)
    case 0
    obtain s where s: "fits lim T (snd o') s" "a = of_nat (s * granule)" "placed lim (T \<union> {s..<s + div_ceil (snd o') granule}) os as' T'"
      by (rule placed_head [of lim T o' os a as' T' r]) (use Cons.prems(1,4,6) 0 as in simp_all)
    obtain t where t: "as' ! k = of_nat (t * granule)" "fits lim (T \<union> {s..<s + div_ceil (snd o') granule}) (snd (os ! k)) t"
      using placed_at [OF s(3), of k r'] Cons.prems(3,5,7) k by auto
    have "fits lim {} (snd o') s" "fits lim {s..<s + div_ceil (snd o') granule} (snd (os ! k)) t"
      by (rule fits_mono [OF s(1)], simp) (rule fits_mono [OF t(2)], simp)
    then show ?thesis using 0 k as s(2) t(1) by (intro exI [of _ s] exI [of _ t]) simp
  next
    case (Suc l)
    obtain U where U: "placed lim U os as' T'" using Cons.prems(1) unfolding as by (rule placed_tail)
    show ?thesis using Cons.IH [OF U, of l k] Cons.prems(2-7) Suc k as by simp
  qed
qed simp

text \<open>Two slots whose byte ranges do not meet.\<close>

definition apart :: "slot \<Rightarrow> slot \<Rightarrow> bool" where
  "apart o1 o2 \<longleftrightarrow> unat (fst o1) + snd o1 \<le> unat (fst o2) \<or> unat (fst o2) + snd o2 \<le> unat (fst o1)"

definition room :: "arena \<Rightarrow> nat \<Rightarrow> bool" where
  "room ar sz \<longleftrightarrow> (\<exists>s. fits (ar_len ar div granule) (taken (ar_used ar)) sz s)"

lemma le_div_ceil: "n \<le> div_ceil n granule * granule"
  by (auto simp: div_ceil_def granule_def)

lemma div_ceil_pos: "0 < n \<Longrightarrow> 0 < div_ceil n granule"
  by (auto simp: div_ceil_def granule_def)

lemma fits_bytes:
  assumes "fits (len div granule) T sz s"
  shows "s * granule + sz \<le> len"
proof -
  have "(s + div_ceil sz granule) * granule \<le> len div granule * granule" using assms by (intro mult_le_mono1) (simp add: fits_def)
  also have "\<dots> \<le> len" by simp
  finally show ?thesis using le_div_ceil [of sz] by (simp add: add_mult_distrib)
qed

lemma fits_unat:
  assumes "fits (len div granule) T sz s" and "len \<le> arena_size"
  shows "unat (of_nat (s * granule) :: u64) = s * granule"
  using fits_bytes [OF assms(1)] assms(2)
  by (simp add: arena_size_def unat_of_nat take_bit_nat_eq_self del: of_nat_mult)

lemma runs_apart: "{s..<s + m} \<inter> {t..<t + n} = {} \<Longrightarrow> 0 < m \<Longrightarrow> 0 < n \<Longrightarrow> s + m \<le> t \<or> t + n \<le> (s :: nat)"
  by (auto simp: disjoint_iff not_le)

lemma run_bytes: "s + div_ceil m granule \<le> t \<Longrightarrow> s * granule + m \<le> t * granule"
  using le_div_ceil [of m] mult_le_mono1 [of "s + div_ceil m granule" t granule] by (simp add: add_mult_distrib)

lemma auto_apart:
  assumes "fits (len div granule) {} m s" and "fits (len div granule) {s..<s + div_ceil m granule} n t"
    and "0 < m" and "0 < n" and "len \<le> arena_size"
  shows "apart (of_nat (s * granule), m) (of_nat (t * granule), n)"
proof -
  have "s + div_ceil m granule \<le> t \<or> t + div_ceil n granule \<le> s"
    using assms(2-4) div_ceil_pos by (intro runs_apart) (auto simp: fits_def)
  then show ?thesis unfolding apart_def fst_conv snd_conv fits_unat [OF assms(1,5)] fits_unat [OF assms(2,5)]
    using run_bytes by blast
qed

lemma fixed_apart:
  assumes "fits (len div granule) T m s" and "granules len f \<subseteq> T" and "unat (fst f) + snd f \<le> len"
    and "0 < m" and "0 < snd f" and "len \<le> arena_size"
  shows "apart (of_nat (s * granule), m) f"
proof -
  let ?a = "unat (fst f) div granule" and ?e = "div_ceil (unat (fst f) + snd f) granule"
  have lt: "?a < ?e" using assms(5) by (auto simp: div_ceil_def granule_def)
  have "{?a..<?e} \<subseteq> T" using assms(2,3) by (simp add: granules_def)
  moreover have "{s..<s + div_ceil m granule} \<inter> T = {}" using assms(1) by (simp only: fits_def)
  ultimately have "{s..<s + div_ceil m granule} \<inter> {?a..<?e} = {}" by blast
  moreover have "?a + (?e - ?a) = ?e" using lt by simp
  ultimately have "{s..<s + div_ceil m granule} \<inter> {?a..<?a + (?e - ?a)} = {}" by (simp only:)
  then have "s + div_ceil m granule \<le> ?a \<or> ?a + (?e - ?a) \<le> s" using lt div_ceil_pos [OF assms(4)] by (intro runs_apart) simp_all
  then show ?thesis
  proof
    assume "s + div_ceil m granule \<le> ?a"
    then have "s * granule + m \<le> ?a * granule" by (rule run_bytes)
    also have "\<dots> \<le> unat (fst f)" by simp
    finally show ?thesis by (simp only: apart_def fst_conv snd_conv fits_unat [OF assms(1,6)] simp_thms)
  next
    assume "?a + (?e - ?a) \<le> s"
    then have "?e * granule \<le> s * granule" using lt by (intro mult_le_mono1) simp
    then have "unat (fst f) + snd f \<le> s * granule" using le_div_ceil [of "unat (fst f) + snd f"] by (rule order_trans [rotated])
    then show ?thesis by (simp only: apart_def fst_conv snd_conv fits_unat [OF assms(1,6)] simp_thms)
  qed
qed

text \<open>What one allocation and one reservation do to the taken granules; \<open>kept\<close> are the fields neither touches.\<close>

definition kept :: "arena \<Rightarrow> arena \<Rightarrow> bool" where
  "kept a b \<longleftrightarrow> arena_wf b \<and> ar_len b = ar_len a \<and> ar_mem b = ar_mem a"

lemma kept_trans: "kept a b \<Longrightarrow> kept b c \<Longrightarrow> kept a c"
  by (simp add: kept_def)

lemma note_alloc_granules:
  assumes "arena_wf a" and "note_alloc off sz a = Some b"
  shows "kept a b \<and> taken (ar_used b) = taken (ar_used a) \<union> granules (ar_len a) (off, sz)"
proof (cases "in_range a off sz")
  case True
  then show ?thesis using note_alloc_spec [OF assms(1) True] assms in_range_iff [OF assms(1)]
    by (auto simp: kept_def granules_def arena_wf_def)
next
  case False
  then show ?thesis using assms in_range_iff [OF assms(1)] by (auto simp: kept_def granules_def note_alloc_def)
qed

lemma alloc_placed:
  assumes "arena_wf a" and "alloc sz a = Some (off, b)" and "0 < sz"
  shows "kept a b \<and> placed (ar_len a div granule) (taken (ar_used a)) [(auto_addr, sz)] [off] (taken (ar_used b))"
proof -
  have "max (div_ceil sz granule) 1 = div_ceil sz granule" using div_ceil_pos [OF assms(3)] by simp
  then consider (hit) s u where "off = of_nat (s * granule)" "b = a\<lparr>ar_used := u\<rparr>" "length u = length (ar_used a)"
      "fits (ar_len a div granule) (taken (ar_used a)) sz s" "\<forall>j < s. \<not> fits (ar_len a div granule) (taken (ar_used a)) sz j"
      "taken u = taken (ar_used a) \<union> {s..<s + div_ceil sz granule}"
    | (full) "off = 0" "b = a" "\<forall>s. \<not> fits (ar_len a div granule) (taken (ar_used a)) sz s"
    using alloc_spec [OF assms(1), of sz] assms(2) by (fastforce simp: fits_def free_run_def)
  then show ?thesis
  proof cases
    case hit
    then show ?thesis using assms(1) by (auto simp: kept_def arena_wf_def)
  qed (use assms(1) in \<open>auto simp: kept_def\<close>)
qed

lemma note_ok:
  "arena_reach (fst s) \<Longrightarrow> \<exists>t. note_arg w a s = Some t \<and> arena_reach (fst t) \<and> set (snd t) = set (snd s) \<union> object_addrs a"
  and note_list_ok:
  "arena_reach (fst s) \<Longrightarrow> \<exists>t. note_list w fs s = Some t \<and> arena_reach (fst t) \<and>
     set (snd t) = set (snd s) \<union> \<Union> (set (map object_addrs fs))"
proof (induction w a s and w fs s rule: note_arg_note_list.induct)
  case (1 w addr x ar addrs)
  have "arena_wf ar" using 1 arena_reach_wf by simp
  from wf_note_alloc [OF this] obtain b where b: "note_alloc addr (max (encoded_len x w) 1) ar = Some b" by blast
  then have "arena_reach b" using 1(2) arena_reach.intros(3) [of ar] by simp
  with 1(1) [OF b] obtain t where "note_arg w x (b, addrs @ [addr]) = Some t" "arena_reach (fst t)"
    "set (snd t) = set (addrs @ [addr]) \<union> object_addrs x" by auto
  with b show ?case by auto
next
  case (8 w f fs s)
  from 8(1) [OF 8(3)] obtain t where t: "note_arg w f s = Some t" "arena_reach (fst t)"
    "set (snd t) = set (snd s) \<union> object_addrs f" by blast
  from 8(2) [OF t(1) t(2)] obtain u where "note_list w fs t = Some u" "arena_reach (fst u)"
    "set (snd u) = set (snd t) \<union> \<Union> (set (map object_addrs fs))" by blast
  with t show ?case by auto
qed auto

lemma alloc_reach:
  assumes "arena_reach ar"
  obtains off b where "alloc sz ar = Some (off, b)" "arena_reach b" "off \<noteq> auto_addr"
proof -
  obtain off b where r: "alloc sz ar = Some (off, b)" "unat off < 2 ^ 24" using wf_alloc [OF arena_reach_wf [OF assms], of sz] by blast
  have "off \<noteq> auto_addr" using r(2) by (auto simp: auto_addr_def)
  with r(1) arena_reach.intros(4) [OF assms r(1)] that show ?thesis by blast
qed

lemma assign_ptr_ok:
  assumes "arena_reach ar"
  obtains off b more where
    "(if addr = auto_addr then do { (off, ar) \<leftarrow> alloc n ar; Some (off, ar, addrs @ [off]) } else Some (addr, ar, addrs)) = Some (off, b, more)"
    "arena_reach b" "off \<noteq> auto_addr" "set addrs \<subseteq> set more" "off = addr \<or> off \<in> set more" "addr \<noteq> auto_addr \<Longrightarrow> off = addr"
proof (cases "addr = auto_addr")
  case True
  obtain off b where "alloc n ar = Some (off, b)" "arena_reach b" "off \<noteq> auto_addr" by (rule alloc_reach [OF assms])
  with True that [of off b "addrs @ [off]"] show ?thesis by auto
qed (use that [of addr ar addrs] assms in simp)

lemma assign_ok:
  "arena_reach (fst s) \<Longrightarrow> \<exists>b t. assign w a s = Some (b, t) \<and> arena_reach (fst t) \<and> no_auto b \<and> set (snd s) \<subseteq> set (snd t) \<and>
     object_addrs b \<subseteq> object_addrs a \<union> set (snd t) \<and> (no_auto a \<longrightarrow> b = a)"
  and assign_list_ok:
  "arena_reach (fst s) \<Longrightarrow> \<exists>bs t. assign_list w fs s = Some (bs, t) \<and> arena_reach (fst t) \<and> list_all no_auto bs \<and>
     set (snd s) \<subseteq> set (snd t) \<and> \<Union> (set (map object_addrs bs)) \<subseteq> \<Union> (set (map object_addrs fs)) \<union> set (snd t) \<and>
     (list_all no_auto fs \<longrightarrow> bs = fs)"
proof (induction w a s and w fs s rule: assign_assign_list.induct)
  case (1 w addr x ar addrs)
  then have "arena_reach ar" by simp
  from assign_ptr_ok [OF this, where n = "max (encoded_len x w) 1" and addr = addr and addrs = addrs] obtain off b more
    where p: "(if addr = auto_addr then do { (off, ar) \<leftarrow> alloc (max (encoded_len x w) 1) ar; Some (off, ar, addrs @ [off]) } else Some (addr, ar, addrs)) = Some (off, b, more)"
      "arena_reach b" "off \<noteq> auto_addr" "set addrs \<subseteq> set more" "off = addr \<or> off \<in> set more" "addr \<noteq> auto_addr \<Longrightarrow> off = addr"
    by blast
  from 1(1) [OF p(1) refl refl] p(2) obtain y t where y: "assign w x (b, more) = Some (y, t)" "arena_reach (fst t)" "no_auto y"
    "set more \<subseteq> set (snd t)" "object_addrs y \<subseteq> object_addrs x \<union> set (snd t)" "no_auto x \<longrightarrow> y = x" by auto
  have "assign w (Ptr addr (Some x)) (ar, addrs) = Some (Ptr off (Some y), t)" using p(1) y(1) by simp
  then show ?case using p(3-6) y(2-6) by auto
next
  case (2 w addr ar addrs)
  show ?case
  proof (cases "addr = auto_addr")
    case True
    obtain off b where "alloc granule ar = Some (off, b)" "arena_reach b" "off \<noteq> auto_addr"
      by (rule alloc_reach [of ar]) (use 2 in simp)
    with True show ?thesis by auto
  qed (use 2 in auto)
next
  case (9 w f fs s)
  from 9(1) [OF 9(3)] obtain g t where g: "assign w f s = Some (g, t)" "arena_reach (fst t)" "no_auto g" "set (snd s) \<subseteq> set (snd t)"
    "object_addrs g \<subseteq> object_addrs f \<union> set (snd t)" "no_auto f \<longrightarrow> g = f" by blast
  from 9(2) [OF g(1) refl g(2)] obtain gs u where "assign_list w fs t = Some (gs, u)" "arena_reach (fst u)" "list_all no_auto gs"
    "set (snd t) \<subseteq> set (snd u)" "\<Union> (set (map object_addrs gs)) \<subseteq> \<Union> (set (map object_addrs fs)) \<union> set (snd u)"
    "list_all no_auto fs \<longrightarrow> gs = fs" by blast
  with g show ?case by auto
qed auto

definition prog_addrs :: "prog \<Rightarrow> u64 set" where
  "prog_addrs p = (\<Union>c\<in>set p. \<Union> (set (map object_addrs (c_args c))))"

lemma prog_addrs_simps: "prog_addrs [] = {}" "prog_addrs (c # p) = \<Union> (set (map object_addrs (c_args c))) \<union> prog_addrs p"
  by (simp_all add: prog_addrs_def)

lemma addrs_step: "X \<subseteq> Y \<union> T \<Longrightarrow> T \<subseteq> U \<Longrightarrow> Q \<subseteq> P \<union> U \<Longrightarrow> X \<union> Q \<subseteq> (Y \<union> P) \<union> U"
  by blast

lemma note_calls_ok:
  "arena_reach (fst s) \<Longrightarrow> \<exists>t. note_calls w p s = Some t \<and> arena_reach (fst t) \<and> set (snd t) = set (snd s) \<union> prog_addrs p"
proof (induction p arbitrary: s)
  case (Cons c p)
  from note_list_ok [OF Cons.prems, of w "c_args c"] obtain t where t: "note_list w (c_args c) s = Some t" "arena_reach (fst t)"
    "set (snd t) = set (snd s) \<union> \<Union> (set (map object_addrs (c_args c)))" by blast
  from Cons.IH [OF t(2)] obtain u where "note_calls w p t = Some u" "arena_reach (fst u)" "set (snd u) = set (snd t) \<union> prog_addrs p" by blast
  with t show ?case by (auto simp: prog_addrs_def)
qed (simp add: prog_addrs_def)

lemma assign_calls_ok:
  "arena_reach (fst s) \<Longrightarrow> \<exists>q t. assign_calls w p s = Some (q, t) \<and> arena_reach (fst t) \<and> list_all (\<lambda>c. list_all no_auto (c_args c)) q \<and>
     set (snd s) \<subseteq> set (snd t) \<and> prog_addrs q \<subseteq> prog_addrs p \<union> set (snd t) \<and> (list_all (\<lambda>c. list_all no_auto (c_args c)) p \<longrightarrow> q = p)"
proof (induction p arbitrary: s)
  case (Cons c p)
  from assign_list_ok [OF Cons.prems, of w "c_args c"] obtain bs t where t: "assign_list w (c_args c) s = Some (bs, t)" "arena_reach (fst t)"
    "list_all no_auto bs" "set (snd s) \<subseteq> set (snd t)" "\<Union> (set (map object_addrs bs)) \<subseteq> \<Union> (set (map object_addrs (c_args c))) \<union> set (snd t)"
    "list_all no_auto (c_args c) \<longrightarrow> bs = c_args c" by blast
  from Cons.IH [OF t(2)] obtain q u where u: "assign_calls w p t = Some (q, u)" "arena_reach (fst u)" "list_all (\<lambda>c. list_all no_auto (c_args c)) q"
    "set (snd t) \<subseteq> set (snd u)" "prog_addrs q \<subseteq> prog_addrs p \<union> set (snd u)" "list_all (\<lambda>c. list_all no_auto (c_args c)) p \<longrightarrow> q = p" by blast
  have "prog_addrs (c\<lparr>c_args := bs\<rparr> # q) \<subseteq> prog_addrs (c # p) \<union> set (snd u)"
    unfolding prog_addrs_simps using addrs_step [OF t(5) u(4,5)] by simp
  moreover have "assign_calls w (c # p) s = Some (c\<lparr>c_args := bs\<rparr> # q, u)" using t(1) u(1) by simp
  moreover have "set (snd s) \<subseteq> set (snd u)" using t(4) u(4) by (rule order_trans)
  moreover have "list_all (\<lambda>c. list_all no_auto (c_args c)) (c\<lparr>c_args := bs\<rparr> # q)" using t(3) u(3) by simp
  moreover have "list_all (\<lambda>c. list_all no_auto (c_args c)) (c # p) \<longrightarrow> c\<lparr>c_args := bs\<rparr> # q = c # p" using t(6) u(6) by simp
  ultimately show ?case using u(2) by (intro exI conjI)
qed (simp add: prog_addrs_def)

lemma covered_by_simps [simp]:
  "covered_by len [] = {}" "covered_by len (o' # os) = granules len o' \<union> covered_by len os"
  "covered_by len (os @ os') = covered_by len os \<union> covered_by len os'"
  by (auto simp: covered_by_def)

lemma note_taken:
  "note_arg w a s = Some t \<Longrightarrow> arena_wf (fst s) \<Longrightarrow>
     kept (fst s) (fst t) \<and> taken (ar_used (fst t)) = taken (ar_used (fst s)) \<union> covered_by (ar_len (fst s)) (pointees w a)"
  and note_list_taken:
  "note_list w fs s = Some t \<Longrightarrow> arena_wf (fst s) \<Longrightarrow>
     kept (fst s) (fst t) \<and> taken (ar_used (fst t)) = taken (ar_used (fst s)) \<union> covered_by (ar_len (fst s)) (concat (map (pointees w) fs))"
proof (induction w a s and w fs s arbitrary: t and t rule: note_arg_note_list.induct)
  case (1 w addr x ar addrs)
  then obtain b where b: "note_alloc addr (max (encoded_len x w) 1) ar = Some b" "note_arg w x (b, addrs @ [addr]) = Some t"
    by (auto simp: Option.bind_eq_Some_conv)
  have k: "kept ar b" "taken (ar_used b) = taken (ar_used ar) \<union> granules (ar_len ar) (addr, max (encoded_len x w) 1)"
    using note_alloc_granules [OF _ b(1)] 1 by auto
  then have "kept b (fst t) \<and> taken (ar_used (fst t)) = taken (ar_used b) \<union> covered_by (ar_len b) (pointees w x)"
    using 1(1) [OF b] by (simp add: kept_def)
  then show ?case using k kept_trans by (auto simp: kept_def)
next
  case (8 w f fs s)
  then obtain u where u: "note_arg w f s = Some u" "note_list w fs u = Some t" by (auto simp: Option.bind_eq_Some_conv)
  have k: "kept (fst s) (fst u)" "taken (ar_used (fst u)) = taken (ar_used (fst s)) \<union> covered_by (ar_len (fst s)) (pointees w f)"
    using 8(1) [OF u(1) 8(4)] by simp_all
  then have "kept (fst u) (fst t) \<and> taken (ar_used (fst t)) = taken (ar_used (fst u)) \<union> covered_by (ar_len (fst u)) (concat (map (pointees w) fs))"
    using 8(2) [OF u] by (simp add: kept_def)
  then show ?case using k kept_trans by (auto simp: kept_def)
qed (auto simp: kept_def)

lemma note_calls_taken:
  "note_calls w p s = Some t \<Longrightarrow> arena_wf (fst s) \<Longrightarrow>
     kept (fst s) (fst t) \<and> taken (ar_used (fst t)) = taken (ar_used (fst s)) \<union> covered_by (ar_len (fst s)) (prog_pointees w p)"
proof (induction p arbitrary: s)
  case (Cons c p)
  then obtain u where u: "note_list w (c_args c) s = Some u" "note_calls w p u = Some t" by (auto simp: Option.bind_eq_Some_conv)
  note k = note_list_taken [OF u(1) Cons.prems(2)]
  then show ?case using Cons.IH [OF u(2)] kept_trans by (auto simp: kept_def prog_pointees_def)
qed (auto simp: kept_def prog_pointees_def)

text \<open>\<open>assigned w s t os os'\<close>: between two states of the second pass the slots \<open>os\<close> were placed at the addresses of \<open>os'\<close>.\<close>

definition assigned :: "arena \<Rightarrow> arena \<Rightarrow> slot list \<Rightarrow> slot list \<Rightarrow> bool" where
  "assigned a b os os' \<longleftrightarrow>
     kept a b \<and> placed (ar_len a div granule) (taken (ar_used a)) os (map fst os') (taken (ar_used b))"

lemma assigned_Nil: "arena_wf a \<Longrightarrow> assigned a a [] []"
  by (simp add: assigned_def kept_def)

lemma assigned_append: "assigned a b os os' \<Longrightarrow> assigned b c ps ps' \<Longrightarrow> assigned a c (os @ ps) (os' @ ps')"
  using placed_append kept_trans by (auto simp: assigned_def kept_def)

lemma assigned_wf: "assigned a b os os' \<Longrightarrow> arena_wf b"
  by (simp add: assigned_def kept_def)

lemma assigned_fixed: "arena_wf a \<Longrightarrow> addr \<noteq> auto_addr \<Longrightarrow> assigned a a [(addr, n)] [(addr, m)]"
  by (simp add: assigned_def kept_def)

lemma assigned_alloc: "arena_wf a \<Longrightarrow> alloc sz a = Some (off, b) \<Longrightarrow> 0 < sz \<Longrightarrow> assigned a b [(auto_addr, sz)] [(off, m)]"
  using alloc_placed [of a sz off b] by (simp add: assigned_def del: placed.simps)

lemma assign_placed:
  "assign w a s = Some (b, t) \<Longrightarrow> arena_wf (fst s) \<Longrightarrow> assigned (fst s) (fst t) (slots w a) (slots w b) \<and> blank b = blank a"
  and assign_list_placed:
  "assign_list w fs s = Some (bs, t) \<Longrightarrow> arena_wf (fst s) \<Longrightarrow>
     assigned (fst s) (fst t) (concat (map (slots w) fs)) (concat (map (slots w) bs)) \<and> map blank bs = map blank fs"
proof (induction w a s and w fs s arbitrary: b t and bs t rule: assign_assign_list.induct)
  case (1 w addr x ar addrs)
  let ?n = "max (encoded_len x w) 1"
  from 1(2) obtain off ar' more y where p: "(if addr = auto_addr then do { (off, ar) \<leftarrow> alloc ?n ar; Some (off, ar, addrs @ [off]) }
      else Some (addr, ar, addrs)) = Some (off, ar', more)"
    and y: "assign w x (ar', more) = Some (y, t)" "b = Ptr off (Some y)"
    by (auto simp: Option.bind_eq_Some_conv simp del: split_paired_Ex split: prod.splits)
  have head: "assigned ar ar' [(addr, ?n)] [(off, max (encoded_len y w) 1)]"
    using p 1(3) assigned_fixed assigned_alloc by (auto simp: Option.bind_eq_Some_conv split: if_splits)
  then have "assigned ar' (fst t) (slots w x) (slots w y) \<and> blank y = blank x"
    using 1(1) [OF p refl refl y(1)] assigned_wf by simp
  then show ?case using assigned_append [OF head] y(2) by simp
next
  case (2 w addr ar addrs)
  have "0 < granule" by (simp add: granule_def)
  then show ?case using 2 assigned_fixed assigned_alloc
    by (auto simp: Option.bind_eq_Some_conv split: if_splits)
next
  case (9 w f fs s)
  then obtain g u gs where g: "assign w f s = Some (g, u)" "assign_list w fs u = Some (gs, t)" "bs = g # gs"
    by (auto simp: Option.bind_eq_Some_conv split: prod.splits)
  have h: "assigned (fst s) (fst u) (slots w f) (slots w g)" "blank g = blank f" using 9(1) [OF g(1) 9(4)] by simp_all
  have "assigned (fst u) (fst t) (concat (map (slots w) fs)) (concat (map (slots w) gs)) \<and> map blank gs = map blank fs"
    by (rule 9(2) [OF g(1) refl g(2) assigned_wf [OF h(1)]])
  then show ?case using assigned_append [OF h(1)] h(2) g(3) by simp
qed (auto simp: assigned_Nil)

lemma assign_calls_placed:
  "assign_calls w p s = Some (q, t) \<Longrightarrow> arena_wf (fst s) \<Longrightarrow>
     assigned (fst s) (fst t) (prog_slots w p) (prog_slots w q) \<and> map blank_call q = map blank_call p"
proof (induction p arbitrary: s q)
  case (Cons c p)
  then obtain as u q' where u: "assign_list w (c_args c) s = Some (as, u)" "assign_calls w p u = Some (q', t)" "q = c\<lparr>c_args := as\<rparr> # q'"
    by (auto simp: Option.bind_eq_Some_conv split: prod.splits)
  note h = assign_list_placed [OF u(1) Cons.prems(2)]
  then have "assigned (fst u) (fst t) (prog_slots w p) (prog_slots w q') \<and> map blank_call q' = map blank_call p"
    using Cons.IH [OF u(2)] assigned_wf by blast
  moreover have "blank_call (c\<lparr>c_args := as\<rparr>) = blank_call c" using h by (simp add: blank_call_def)
  ultimately show ?case using h u(3) assigned_append by (auto simp: prog_slots_def)
qed (simp add: assigned_Nil prog_slots_def)

lemma blank_len: "encoded_len (blank a) w = encoded_len a w"
  by (induction a rule: blank.induct) (auto intro!: arg_cong [where f = sum_list] simp: comp_def)

lemma blank_slots: "map snd (slots w (blank a)) = map snd (slots w a)"
  by (induction a rule: blank.induct) (auto simp: blank_len map_concat comp_def intro!: arg_cong [where f = concat])

lemma blank_sizes:
  assumes "map blank_call q = map blank_call p"
  shows "map snd (prog_slots w q) = map snd (prog_slots w p)"
proof -
  have "map snd (prog_slots w p) = concat (map (\<lambda>c. concat (map (\<lambda>a. map snd (slots w a)) (c_args (blank_call c)))) p)" for p
    by (induction p) (simp_all add: prog_slots_def map_concat comp_def blank_call_def blank_slots)
  also have "concat (map (\<lambda>c. concat (map (\<lambda>a. map snd (slots w a)) (c_args (blank_call c)))) p) =
      concat (map (\<lambda>c. concat (map (\<lambda>a. map snd (slots w a)) (c_args c))) (map blank_call p))" for p by (simp add: comp_def)
  finally show ?thesis by (simp only: assms)
qed

lemma slots_pos: "o' \<in> set (slots w a) \<Longrightarrow> 0 < snd o'"
  by (induction a rule: blank.induct) (auto simp: granule_def)

lemma pointees_pos: "o' \<in> set (pointees w a) \<Longrightarrow> 0 < snd o'"
  by (induction a rule: blank.induct) auto

lemma arena_len: "arena_reach ar \<Longrightarrow> ar_len ar \<le> arena_size"
  using arena_reach_wf by (simp add: arena_wf_def)

lemma placed_slots_apart:
  fixes p q w defines "P \<equiv> prog_slots w p" and "Q \<equiv> prog_slots w q"
  assumes pl: "placed (len div granule) (T \<union> covered_by len (prog_pointees w p)) P (map fst Q) (taken (ar_used b))"
    and bl: "map blank_call q = map blank_call p" and len: "len \<le> arena_size" "ar_len b = len"
  shows "\<forall>i < length P. fst (P ! i) = auto_addr \<and> room b (snd (P ! i)) \<longrightarrow>
      unat (fst (Q ! i)) + snd (Q ! i) \<le> len \<and>
      (\<forall>f \<in> set (prog_pointees w p). unat (fst f) + snd f \<le> len \<longrightarrow> apart (Q ! i) f) \<and>
      (\<forall>j < length P. i < j \<and> fst (P ! j) = auto_addr \<and> room b (snd (P ! j)) \<longrightarrow> apart (Q ! i) (Q ! j))"
proof (intro allI impI conjI ballI; (elim conjE)?)
  have sizes: "map snd Q = map snd P" unfolding P_def Q_def by (rule blank_sizes [OF bl])
  then have l: "length Q = length P" by (rule map_eq_imp_length_eq)
  have sz: "snd (Q ! i) = snd (P ! i)" if "i < length P" for i using sizes that l by (metis nth_map)
  have pos: "0 < snd (P ! i)" if lt: "i < length P" for i
  proof -
    obtain a where "P ! i \<in> set (slots w a)" using nth_mem [OF lt] unfolding P_def prog_slots_def by auto
    then show ?thesis by (rule slots_pos)
  qed
  fix i assume i: "i < length P" "fst (P ! i) = auto_addr" "room b (snd (P ! i))"
  then obtain r where r: "fits (len div granule) (taken (ar_used b)) (snd (P ! i)) r" using len(2) by (auto simp: room_def)
  obtain s where s: "map fst Q ! i = of_nat (s * granule)" "fits (len div granule) (T \<union> covered_by len (prog_pointees w p)) (snd (P ! i)) s"
    using placed_at [OF pl i(1,2) r] by blast
  have Qi: "Q ! i = (of_nat (s * granule), snd (P ! i))" using s(1) sz [OF i(1)] i(1) l by (simp add: prod_eq_iff)
  show "unat (fst (Q ! i)) + snd (Q ! i) \<le> len"
    unfolding Qi fst_conv snd_conv fits_unat [OF s(2) len(1)] by (rule fits_bytes [OF s(2)])
  show "apart (Q ! i) f" if f: "f \<in> set (prog_pointees w p)" "unat (fst f) + snd f \<le> len" for f
  proof -
    have "granules len f \<subseteq> T \<union> covered_by len (prog_pointees w p)" using f(1) by (auto simp: covered_by_def)
    moreover obtain a where "f \<in> set (pointees w a)" using f(1) by (auto simp: prog_pointees_def)
    then have "0 < snd f" by (rule pointees_pos)
    ultimately show ?thesis unfolding Qi using fixed_apart [OF s(2) _ f(2) pos [OF i(1)] _ len(1)] by blast
  qed
  fix j assume j: "j < length P" "i < j" "fst (P ! j) = auto_addr" "room b (snd (P ! j))"
  then obtain r' where r': "fits (len div granule) (taken (ar_used b)) (snd (P ! j)) r'" using len(2) by (auto simp: room_def)
  obtain s t where st: "map fst Q ! i = of_nat (s * granule)" "map fst Q ! j = of_nat (t * granule)" "fits (len div granule) {} (snd (P ! i)) s"
    "fits (len div granule) {s..<s + div_ceil (snd (P ! i)) granule} (snd (P ! j)) t"
    using placed_apart [OF pl j(2,1) i(2) j(3) r r'] by blast
  have "Q ! i = (of_nat (s * granule), snd (P ! i))" "Q ! j = (of_nat (t * granule), snd (P ! j))"
    using st(1,2) sz i(1) j(1) l by (simp_all add: prod_eq_iff)
  then show "apart (Q ! i) (Q ! j)" using auto_apart [OF st(3,4) pos [OF i(1)] pos [OF j(1)] len(1)] by simp
qed

section \<open>Properties\<close>

text \<open>C25. Laying out the arguments of a call: after \<open>prepare_args\<close> every object a pointer argument or a nested pointer
  denotes that fits the arena is in memory, byte for byte - its encoding with the checksum stored - as far as it is not cut off by the
  next fixed object and not overwritten by an object of the same call that is laid out later.\<close>

theorem prepare_args_layout:
  assumes "arena_reach ar" and "concat (map (objects w c) (take max_args (c_args cl))) = pre @ (addr, object_bytes w c x) # post"
    and "w \<le> 8" and "unat addr + encoded_len x w \<le> ar_len ar"
    and "unat addr \<le> i" and "i < unat addr + encoded_len x w" and "\<forall>f\<in>set (ar_fixed ar). addr < f \<longrightarrow> i < unat f"
    and "\<forall>(o', b)\<in>set post. i < unat o' \<or> unat o' + length b \<le> i"
  shows "ar_mem (snd (prepare_args w cl c ar)) i = fix_csums (encode x c w) x w ! (i - unat addr)"
proof -
  have len: "length (object_bytes w c x) = encoded_len x w" by (simp add: object_bytes_def encode_length [OF assms(3)])
  have "snd (prepare_args w cl c ar) = arena_store.wr_all (pre @ (addr, object_bytes w c x) # post) ar"
    by (simp only: prepare_args_def prepare_loop_arena assms(2))
  moreover have "ar_mem (arena_store.wr_all (pre @ (addr, object_bytes w c x) # post) ar) i = object_bytes w c x ! (i - unat addr)"
    using assms(4-7) by (intro wr_all_keeps [OF assms(1) _ _ _ _ assms(8)]) (auto simp: len)
  ultimately show ?thesis by (simp add: object_bytes_def)
qed

definition pipe_call :: call where
  "pipe_call = \<lparr>c_name = lit ''write'', c_base = lit ''write'', c_nr = Some 1,
     c_args = [Int_arg 1, Ptr 64 (Some (Struct [Data [0x45, 0], Csum, Ptr 0 (Some (Data [7]))]))], c_res = None, c_fail_nth = None, c_async = False\<rparr>"

theorem prepare_args_layout_witness: "ar_mem (snd (prepare_args 8 pipe_call ctx_new arena_map)) 64 = 0x45"
proof -
  let ?x = "Struct [Data [0x45, 0], Csum, Ptr 0 (Some (Data [7]))]"
  have objs: "concat (map (objects 8 ctx_new) (take max_args (c_args pipe_call))) = [(0, object_bytes 8 ctx_new (Data [7]))] @ (64, object_bytes 8 ctx_new ?x) # []"
    by (simp add: pipe_call_def max_args_def)
  have "fix_csums (encode ?x ctx_new 8) ?x 8 ! 0 = 0x45"
    by (simp add: fix_csums_def store_csum_def Let_def nth_append)
  moreover have "ar_len arena_map = 2 ^ 24" "ar_fixed arena_map = []" by (simp_all add: arena_map_def arena_size_def)
  ultimately show ?thesis
    using prepare_args_layout [OF arena_reach.intros(1) objs, of 64] by simp
qed

text \<open>C29. A checksum field makes its object verify: when the \<^verbatim>\<open>csum\<close> field of an argument lies at an even offset
  inside it, the internet checksum over the laid out bytes is 0.\<close>

theorem fix_csums_verifies:
  assumes "csum_offset a 0 w = Some off" and "even off" and "off + 2 \<le> encoded_len a w" and "w \<le> 8"
  shows "csum_inet (fix_csums (encode a c w) a w) = 0"
  using csum_store [OF assms(2), of "encode a c w"] assms(1,3) encode_length [OF assms(4), of a c] by (simp add: fix_csums_def)

theorem fix_csums_verifies_witness:
  "csum_inet (fix_csums (encode (Struct [Data [0x45, 1], Csum, Int_arg 0x1234]) ctx_new 8) (Struct [Data [0x45, 1], Csum, Int_arg 0x1234]) 8) = 0"
  by (rule fix_csums_verifies [of _ _ 2]) simp_all

text \<open>The copyout records of an object name its produced fields in order, and each of them lies inside the object.\<close>

theorem collect_copyouts_inside:
  assumes "flat_outs a" and "unat base + encoded_len a w < 2 ^ 64"
  shows "map co_slot (collect_copyouts a base w []) = out_slots a \<and>
    list_all (co_inside (unat base) (unat base + encoded_len a w)) (collect_copyouts a base w [])"
  using collect_slots [of a base w "[]"] collect_inside [OF assms, where out = "[]"] by (auto simp: list_all_iff)

theorem collect_copyouts_inside_witness:
  "list_all (co_inside 64 72) (collect_copyouts (Struct [Out 0 Nil_arg, Out 1 (Int_arg 0)]) 64 8 [])"
  using collect_copyouts_inside [of "Struct [Out 0 Nil_arg, Out 1 (Int_arg 0)]" 64 8] by (simp add: res_width_def)

text \<open>C26. Placing the objects of a program never panics and changes only \<^verbatim>\<open>AUTO\<close> addresses: the arena's bytes,
  the structure of the program and every address of the text stay as they are, and no \<^verbatim>\<open>AUTO\<close> is left. The
  \<^verbatim>\<open>AUTO\<close> slots are placed in order, each in the lowest run of free granules that holds it, where the granules of
  every textually addressed object are reserved first; so as long as the arena is not full they lie inside it, apart
  from each other and from every textually addressed object in it. Every object address of the result is among those at
  which writes are clipped.\<close>

theorem note_fixed_places:
  assumes "arena_reach ar"
  shows "\<exists>q b. note_fixed w p ar = Some (q, b) \<and> arena_reach b \<and> ar_mem b = ar_mem ar \<and> ar_len b = ar_len ar \<and>
    map blank_call q = map blank_call p \<and> list_all (\<lambda>c. list_all no_auto (c_args c)) q \<and>
    (list_all (\<lambda>c. list_all no_auto (c_args c)) p \<longrightarrow> q = p) \<and> prog_addrs q \<subseteq> set (ar_fixed b) \<and>
    placed (ar_len ar div granule) (taken (ar_used ar) \<union> covered_by (ar_len ar) (prog_pointees w p))
      (prog_slots w p) (map fst (prog_slots w q)) (taken (ar_used b)) \<and>
    (\<forall>i < length (prog_slots w p). fst (prog_slots w p ! i) = auto_addr \<and> room b (snd (prog_slots w p ! i)) \<longrightarrow>
      unat (fst (prog_slots w q ! i)) + snd (prog_slots w q ! i) \<le> ar_len ar \<and>
      (\<forall>f \<in> set (prog_pointees w p). unat (fst f) + snd f \<le> ar_len ar \<longrightarrow> apart (prog_slots w q ! i) f) \<and>
      (\<forall>j < length (prog_slots w p). i < j \<and> fst (prog_slots w p ! j) = auto_addr \<and> room b (snd (prog_slots w p ! j)) \<longrightarrow>
        apart (prog_slots w q ! i) (prog_slots w q ! j)))"
proof -
  from note_calls_ok [of "(ar, [])" w p] assms obtain s where s: "note_calls w p (ar, []) = Some s" "arena_reach (fst s)"
    "set (snd s) = prog_addrs p" by auto
  from assign_calls_ok [OF s(2), of w p] obtain q b addrs where q: "assign_calls w p s = Some (q, b, addrs)" "arena_reach b"
    "list_all (\<lambda>c. list_all no_auto (c_args c)) q" "set (snd s) \<subseteq> set addrs" "prog_addrs q \<subseteq> prog_addrs p \<union> set addrs"
    "list_all (\<lambda>c. list_all no_auto (c_args c)) p \<longrightarrow> q = p" by auto
  let ?b = "set_fixed addrs b"
  have nf: "note_fixed w p ar = Some (q, ?b)" using s(1) q(1) by (simp add: note_fixed_def)
  have re: "arena_reach ?b" by (rule arena_reach.intros(6) [OF q(2)])
  have fx: "prog_addrs q \<subseteq> set (ar_fixed ?b)" using q(4,5) s(3) by (auto simp: set_fixed_def)
  have "kept ar (fst s)" "taken (ar_used (fst s)) = taken (ar_used ar) \<union> covered_by (ar_len ar) (prog_pointees w p)"
    using note_calls_taken [OF s(1)] arena_reach_wf [OF assms] by simp_all
  moreover have "assigned (fst s) b (prog_slots w p) (prog_slots w q)" and bl: "map blank_call q = map blank_call p"
    using assign_calls_placed [OF q(1) arena_reach_wf [OF s(2)]] by simp_all
  ultimately have fields: "ar_mem ?b = ar_mem ar" "ar_len ?b = ar_len ar" and pl:
    "placed (ar_len ar div granule) (taken (ar_used ar) \<union> covered_by (ar_len ar) (prog_pointees w p))
      (prog_slots w p) (map fst (prog_slots w q)) (taken (ar_used ?b))"
    by (simp_all add: assigned_def kept_def set_fixed_def)
  show ?thesis
    by (intro exI conjI) (rule nf re fields bl q(3,6) fx pl placed_slots_apart [OF pl bl arena_len [OF assms] fields(2)])+
qed

lemma placed_one:
  assumes "placed lim T ((auto_addr, 1) # os) as T'" and "s < lim" and "s \<notin> T" and "\<forall>j < s. j \<in> T"
  shows "\<exists>as'. as = of_nat (s * granule) # as' \<and> placed lim (insert s T) os as' T'"
proof -
  have one: "div_ceil (Suc 0) granule = 1" by (simp add: div_ceil_def granule_def)
  then have fit: "fits lim T (Suc 0) r \<longleftrightarrow> r < lim \<and> r \<notin> T" for r by (auto simp: fits_def)
  obtain a as' where as: "as = a # as'" using placed_mono [OF assms(1)] by (cases as) auto
  obtain r where r: "r < lim" "r \<notin> T" "\<forall>j < r. \<not> (j < lim \<and> j \<notin> T)" "a = of_nat (r * granule)" "placed lim (T \<union> {r..<r + 1}) os as' T'"
    using assms(1-3) by (auto simp: as fit one simp del: of_nat_mult split: if_splits)
  have "r = s" using assms(2-4) r(1-3) by (metis less_trans nat_neq_iff)
  moreover have "T \<union> {r..<r + 1} = insert r T" by auto
  ultimately show ?thesis using r(4,5) as by auto
qed

lemma placed_example:
  assumes "placed (16777216 div granule) {1} [(auto_addr, 1), (64, 1), (auto_addr, 1)] as T'"
  shows "as = [of_nat (0 * granule), 64, of_nat (2 * granule)]"
proof -
  let ?lim = "16777216 div granule"
  obtain bs where b: "as = of_nat (0 * granule) # bs" "placed ?lim {0, 1} [(64, 1), (auto_addr, 1)] bs T'"
    using placed_one [OF assms, of 0] by (auto simp: granule_def)
  obtain x cs where c: "bs = x # cs" using placed_mono [OF b(2)] by (cases bs) auto
  have x: "x = 64" "placed ?lim {0, 1} [(auto_addr, 1)] cs T'" using b(2) by (simp_all add: c auto_addr_def del: placed.simps(2)) (simp_all add: auto_addr_def)
  have "\<forall>j < (2 :: nat). j \<in> {0, 1}" by auto
  then obtain ds where "cs = of_nat (2 * granule) # ds" "placed ?lim (insert 2 {0, 1}) [] ds T'"
    using placed_one [OF x(2), of 2] by (auto simp: granule_def)
  then show ?thesis using b(1) c x(1) placed_mono by fastforce
qed

definition auto_call :: call where
  "auto_call = pipe_call\<lparr>c_args := [Ptr auto_addr (Some (Data [1])), Ptr 64 (Some (Data [2])), Ptr auto_addr (Some (Data [3]))]\<rparr>"

theorem note_fixed_places_witness:
  "\<exists>q b. note_fixed 8 [auto_call] arena_map = Some (q, b) \<and> list_all (\<lambda>c. list_all no_auto (c_args c)) q \<and>
     map fst (prog_slots 8 q) = [0, 64, 128]"
proof -
  have sl: "prog_slots 8 [auto_call] = [(auto_addr, 1), (64, 1), (auto_addr, 1)]"
    "prog_pointees 8 [auto_call] = [(auto_addr, 1), (64, 1), (auto_addr, 1)]"
    by (simp_all add: prog_slots_def prog_pointees_def auto_call_def)
  have "taken (replicate n 0) = {}" for n by (auto simp: taken_def)
  then have ar: "ar_len arena_map = 16777216" "taken (ar_used arena_map) = {}"
    by (simp_all add: arena_map_def arena_size_def del: replicate_Suc)
  obtain q b where q: "note_fixed 8 [auto_call] arena_map = Some (q, b)" "list_all (\<lambda>c. list_all no_auto (c_args c)) q"
    "placed (ar_len arena_map div granule) (taken (ar_used arena_map) \<union> covered_by (ar_len arena_map) (prog_pointees 8 [auto_call]))
      (prog_slots 8 [auto_call]) (map fst (prog_slots 8 q)) (taken (ar_used b))"
    using note_fixed_places [OF arena_reach.intros(1), of 8 "[auto_call]"] by blast
  have cov: "covered_by 16777216 [(auto_addr, 1), (64, 1), (auto_addr, 1)] = {1}"
    by (auto simp: granules_def auto_addr_def div_ceil_def granule_def)
  have "placed (16777216 div granule) {1} [(auto_addr, 1), (64, 1), (auto_addr, 1)] (map fst (prog_slots 8 q)) (taken (ar_used b))"
    using q(3) by (simp only: ar sl cov Un_empty_left)
  then have "map fst (prog_slots 8 q) = [of_nat (0 * granule), 64, of_nat (2 * granule)]" by (rule placed_example)
  then have "map fst (prog_slots 8 q) = [0, 64, 128]" by (simp add: granule_def)
  then show ?thesis using q(1,2) by (intro exI [of _ q] exI [of _ b]) simp
qed

end
