(* ===== verification/Pt_Packet.thy ===== *)
theory Pt_Packet
  imports Prelude
begin

text \<open>
  The packet layer of the Intel PT decoder (\<^verbatim>\<open>mode/engine.rs\<close>): the opcodes, the length table
  \<open>scan_packet\<close> and the search for the synchronisation packet. A position in the trace is the suffix that starts
  there, so that the bounds tests of the source are the patterns of the definitions. The lemmas show that every defined
  packet has a positive length inside the trace, and that each packet of the manual is measured by its own length
  whatever follows it.
\<close>

unbundle bit_operations_syntax

section \<open>Opcodes\<close>

definition opc_pad :: u8 where
  "opc_pad = 0x00"

definition opc_ext :: u8 where
  "opc_ext = 0x02"

definition opc_mode :: u8 where
  "opc_mode = 0x99"

definition opc_tsc :: u8 where
  "opc_tsc = 0x19"

definition opc_mtc :: u8 where
  "opc_mtc = 0x59"

definition opm_ip :: u8 where
  "opm_ip = 0x1f"

definition opc_tip :: u8 where
  "opc_tip = 0x0d"

definition opc_tip_pge :: u8 where
  "opc_tip_pge = 0x11"

definition opc_tip_pgd :: u8 where
  "opc_tip_pgd = 0x01"

definition opc_fup :: u8 where
  "opc_fup = 0x1d"

definition opm_bip :: u8 where
  "opm_bip = 0x07"

definition opc_bip :: u8 where
  "opc_bip = 0x04"

definition opm_tnt8 :: u8 where
  "opm_tnt8 = 0x01"

definition opc_tnt8 :: u8 where
  "opc_tnt8 = 0x00"

definition opm_cyc :: u8 where
  "opm_cyc = 0x03"

definition opc_cyc :: u8 where
  "opc_cyc = 0x03"

definition cyc_exp0 :: u8 where
  "cyc_exp0 = 0x04"

definition cyc_expn :: u8 where
  "cyc_expn = 0x01"

definition ext_psb :: u8 where
  "ext_psb = 0x82"

definition ext_tnt64 :: u8 where
  "ext_tnt64 = 0xa3"

definition ext_pip :: u8 where
  "ext_pip = 0x43"

definition ext_ovf :: u8 where
  "ext_ovf = 0xf3"

definition ext_psbend :: u8 where
  "ext_psbend = 0x23"

definition ext_cbr :: u8 where
  "ext_cbr = 0x03"

definition ext_tma :: u8 where
  "ext_tma = 0x73"

definition ext_stop :: u8 where
  "ext_stop = 0x83"

definition ext_vmcs :: u8 where
  "ext_vmcs = 0xc8"

definition ext_ext2 :: u8 where
  "ext_ext2 = 0xc3"

definition ext_exstop :: u8 where
  "ext_exstop = 0x62"

definition ext_exstop_ip :: u8 where
  "ext_exstop_ip = 0xe2"

definition ext_mwait :: u8 where
  "ext_mwait = 0xc2"

definition ext_pwre :: u8 where
  "ext_pwre = 0x22"

definition ext_pwrx :: u8 where
  "ext_pwrx = 0xa2"

definition ext_bbp :: u8 where
  "ext_bbp = 0x63"

definition ext_bep :: u8 where
  "ext_bep = 0x33"

definition ext_bep_ip :: u8 where
  "ext_bep_ip = 0xb3"

definition ext_cfe :: u8 where
  "ext_cfe = 0x13"

definition ext_evd :: u8 where
  "ext_evd = 0x53"

definition ext_ptw :: u8 where
  "ext_ptw = 0x12"

definition ext2_mnt :: u8 where
  "ext2_mnt = 0x88"

lemmas opcodes =
    opc_pad_def opc_ext_def opc_mode_def opc_tsc_def opc_mtc_def opm_ip_def opc_tip_def opc_tip_pge_def
  opc_tip_pgd_def opc_fup_def opm_bip_def opc_bip_def opm_tnt8_def opc_tnt8_def opm_cyc_def opc_cyc_def
  cyc_exp0_def cyc_expn_def ext_psb_def ext_tnt64_def ext_pip_def ext_ovf_def ext_psbend_def ext_cbr_def
  ext_tma_def ext_stop_def ext_vmcs_def ext_ext2_def ext_exstop_def ext_exstop_ip_def ext_mwait_def
  ext_pwre_def ext_pwrx_def ext_bbp_def ext_bep_def ext_bep_ip_def ext_cfe_def ext_evd_def ext_ptw_def
  ext2_mnt_def


definition cyc_max_len :: nat where
  "cyc_max_len = 9"

definition psb :: bytes where
  "psb = [0x02, 0x82, 0x02, 0x82, 0x02, 0x82, 0x02, 0x82, 0x02, 0x82, 0x02, 0x82, 0x02, 0x82, 0x02, 0x82]"

section \<open>Packets\<close>

datatype pkt =
    Pad
  | Tnt8 u64
  | Tnt64 u64
  | Ip u8 u8
  | Psb
  | Ovf
  | Bbp bool
  | Bep
  | Skip
  | Bad
  | Truncated

record scan =
  pk_pkt :: pkt
  pk_len :: nat

definition scan_of :: "pkt \<Rightarrow> nat \<Rightarrow> scan" where
  "scan_of p n = \<lparr>pk_pkt = p, pk_len = n\<rparr>"

definition scan_bad :: scan where
  "scan_bad = \<lparr>pk_pkt = Bad, pk_len = 0\<rparr>"

definition scan_trunc :: scan where
  "scan_trunc = \<lparr>pk_pkt = Truncated, pk_len = 0\<rparr>"

definition ip_payload_len :: "u8 \<Rightarrow> nat option" where
  "ip_payload_len enc =
     (if enc = 0 then Some 0
      else if enc = 1 then Some 2
      else if enc = 2 then Some 4
      else if enc = 3 \<or> enc = 4 then Some 6
      else if enc = 6 then Some 8
      else None)"

text \<open>The packets behind the two-byte opcode: an early return (\<open>Inl\<close>), or the packet and its total length. The
  argument \<open>r\<close> is the trace behind the opcode.\<close>

definition ext_kind :: "u8 \<Rightarrow> bytes \<Rightarrow> scan + (pkt \<times> nat)" where
  "ext_kind e r =
     (if e = ext_psb then Inr (Psb, 16)
      else if e = ext_psbend then Inr (Skip, 2)
      else if e = ext_tnt64 then (if length r < 6 then Inl scan_trunc else Inr (Tnt64 (word_of_le (take 6 r)), 8))
      else if e = ext_pip then Inr (Skip, 8)
      else if e = ext_ovf then Inr (Ovf, 2)
      else if e = ext_cbr then Inr (Skip, 4)
      else if e = ext_tma then Inr (Skip, 7)
      else if e = ext_stop then Inr (Skip, 2)
      else if e = ext_vmcs then Inr (Skip, 7)
      else if e = ext_exstop \<or> e = ext_exstop_ip then Inr (Skip, 2)
      else if e = ext_mwait then Inr (Skip, 12)
      else if e = ext_pwre then Inr (Skip, 4)
      else if e = ext_pwrx then Inr (Skip, 7)
      else if e = ext_cfe then Inr (Skip, 4)
      else if e = ext_evd then Inr (Skip, 9)
      else if e = ext_bep \<or> e = ext_bep_ip then Inr (Bep, 2)
      else if e = ext_bbp then (case r of [] \<Rightarrow> Inl scan_trunc | x # _ \<Rightarrow> Inr (Bbp (x AND 0x80 \<noteq> 0), 3))
      else if e = ext_ext2 then (case r of [] \<Rightarrow> Inl scan_trunc | x # _ \<Rightarrow> if x = ext2_mnt then Inr (Skip, 11) else Inl scan_bad)
      else if e AND opm_ip = ext_ptw
      then (let plc = drop_bit 5 e AND 0x3
            in if plc = 0 then Inr (Skip, 6) else if plc = 1 then Inr (Skip, 10) else Inl scan_bad)
      else Inl scan_bad)"

definition ext_scan :: "bytes \<Rightarrow> scan" where
  "ext_scan r =
     (case r of
        [] \<Rightarrow> scan_trunc
      | e # r \<Rightarrow>
          (case ext_kind e r of
             Inl s \<Rightarrow> s
           | Inr (p, n) \<Rightarrow> if 2 + length r < n then scan_trunc else scan_of p n))"

definition fixed_scan :: "nat \<Rightarrow> bytes \<Rightarrow> scan" where
  "fixed_scan n r = (if 1 + length r < n then scan_trunc else scan_of Skip n)"

definition is_ip_opcode :: "u8 \<Rightarrow> bool" where
  "is_ip_opcode sh \<longleftrightarrow> sh = opc_tip \<or> sh = opc_fup \<or> sh = opc_tip_pge \<or> sh = opc_tip_pgd"

definition ip_scan :: "u8 \<Rightarrow> bytes \<Rightarrow> scan" where
  "ip_scan b r =
     (let enc = drop_bit 5 b AND 0x7
      in case ip_payload_len enc of
           None \<Rightarrow> scan_bad
         | Some n \<Rightarrow> if 1 + length r < 1 + n then scan_trunc else scan_of (Ip (b AND opm_ip) enc) (1 + n))"

fun cyc_loop :: "nat \<Rightarrow> bool \<Rightarrow> bytes \<Rightarrow> scan" where
  "cyc_loop n False r = scan_of Skip n"
| "cyc_loop n True [] = (if cyc_max_len \<le> n then scan_bad else scan_trunc)"
| "cyc_loop n True (x # xs) = (if cyc_max_len \<le> n then scan_bad else cyc_loop (n + 1) (x AND cyc_expn \<noteq> 0) xs)"

definition scan_suffix :: "nat option \<Rightarrow> u8 \<Rightarrow> bytes \<Rightarrow> scan" where
  "scan_suffix block b r =
     (if b = opc_pad then scan_of Pad 1
      else if b = opc_ext then ext_scan r
      else if b = opc_mode then fixed_scan 2 r
      else if b = opc_tsc then fixed_scan 8 r
      else if b = opc_mtc then fixed_scan 2 r
      else if is_ip_opcode (b AND opm_ip) then ip_scan b r
      else if block \<noteq> None \<and> b AND opm_bip = opc_bip then fixed_scan (1 + the block) r
      else if b AND opm_cyc = opc_cyc then cyc_loop 1 (b AND cyc_exp0 \<noteq> 0) r
      else if b AND opm_tnt8 = opc_tnt8 then scan_of (Tnt8 (ucast (drop_bit 1 b))) 1
      else scan_bad)"

definition scan_packet :: "bytes \<Rightarrow> nat \<Rightarrow> nat option \<Rightarrow> scan" where
  "scan_packet data pos block = (case drop pos data of [] \<Rightarrow> scan_trunc | b # r \<Rightarrow> scan_suffix block b r)"

definition find_psb :: "bytes \<Rightarrow> nat \<Rightarrow> nat option" where
  "find_psb data from =
     (if length data < length psb then None
      else let last = length data - length psb
           in find (\<lambda>i. take (length psb) (drop i data) = psb) [min from (last + 1)..<last + 1])"

section \<open>Lengths\<close>

text \<open>\<open>scan_ok s n\<close>: what every result over \<open>n\<close> available bytes satisfies.\<close>

definition scan_ok :: "scan \<Rightarrow> nat \<Rightarrow> bool" where
  "scan_ok s n \<longleftrightarrow> (if pk_pkt s = Bad \<or> pk_pkt s = Truncated then pk_len s = 0 else 1 \<le> pk_len s \<and> pk_len s \<le> n)"

lemma scan_simps [simp]:
  "pk_pkt (scan_of p n) = p" "pk_len (scan_of p n) = n" "pk_pkt scan_bad = Bad" "pk_len scan_bad = 0"
  "pk_pkt scan_trunc = Truncated" "pk_len scan_trunc = 0"
  by (simp_all add: scan_of_def scan_bad_def scan_trunc_def)

lemma scan_ok_fail [simp]: "scan_ok scan_bad n" "scan_ok scan_trunc n"
  by (simp_all add: scan_ok_def)

lemma scan_ok_of: "1 \<le> k \<Longrightarrow> k \<le> n \<Longrightarrow> p \<noteq> Bad \<Longrightarrow> p \<noteq> Truncated \<Longrightarrow> scan_ok (scan_of p k) n"
  by (simp add: scan_ok_def)

lemma ext_kind_ok: "case ext_kind e r of Inl s \<Rightarrow> s = scan_bad \<or> s = scan_trunc | Inr (p, n) \<Rightarrow> 2 \<le> n \<and> p \<noteq> Bad \<and> p \<noteq> Truncated"
  unfolding ext_kind_def Let_def by (simp split: list.split)

lemma ext_scan_ok: "scan_ok (ext_scan r) (Suc (length r))"
proof (cases r)
  case (Cons e q)
  then show ?thesis using ext_kind_ok [of e q] by (auto simp: ext_scan_def split: sum.splits intro!: scan_ok_of)
qed (simp add: ext_scan_def)

lemma fixed_scan_ok: "1 \<le> n \<Longrightarrow> scan_ok (fixed_scan n r) (Suc (length r))"
  by (simp add: fixed_scan_def scan_ok_of)

lemma ip_scan_ok: "scan_ok (ip_scan b r) (Suc (length r))"
  by (auto simp: ip_scan_def Let_def scan_ok_of split: option.split)

lemma cyc_loop_ok: "1 \<le> n \<Longrightarrow> scan_ok (cyc_loop n m r) (n + length r)"
proof (induction n m r rule: cyc_loop.induct)
  case (3 n x xs)
  then show ?case by (cases "cyc_max_len \<le> n") simp_all
qed (simp_all add: scan_ok_of)

lemma scan_suffix_ok: "scan_ok (scan_suffix block b r) (Suc (length r))"
  using cyc_loop_ok [of 1 "b AND cyc_exp0 \<noteq> 0" r]
  by (simp add: scan_suffix_def ext_scan_ok fixed_scan_ok ip_scan_ok scan_ok_of)

lemma find_psb_Some:
  assumes "find_psb data from = Some i"
  shows "from \<le> i" "i < length data" "take 16 (drop i data) = psb"
proof -
  have l: "length psb = 16" by (simp add: psb_def)
  let ?last = "length data - 16"
  have len: "16 \<le> length data" and f: "find (\<lambda>i. take 16 (drop i data) = psb) [min from (?last + 1)..<?last + 1] = Some i"
    using assms by (auto simp: find_psb_def l Let_def split: if_splits)
  then have "i \<in> set [min from (?last + 1)..<?last + 1]" "take 16 (drop i data) = psb"
    unfolding find_Some_iff by (auto simp: in_set_conv_nth simp del: upt_Suc)
  then show "from \<le> i" "i < length data" "take 16 (drop i data) = psb" using len by auto
qed

section \<open>Packets of the manual\<close>

text \<open>The well-formed packets with their payloads. The lengths of the packets behind the two-byte opcode that carry nothing
  for the decoder are those of the manual.\<close>

datatype raw =
    R_pad
  | R_tnt8 u8
  | R_tnt64 bytes
  | R_ip u8 u8 bytes
  | R_psb
  | R_ovf
  | R_mode u8
  | R_tsc bytes
  | R_mtc u8
  | R_ext u8 bytes
  | R_mnt bytes
  | R_cyc u8 bytes
  | R_bbp u8
  | R_bep u8
  | R_bip u8 bytes

definition ext_payload :: "(u8 \<times> nat) list" where
  "ext_payload =
     [(0x23, 0), (0x43, 6), (0x03, 2), (0x73, 5), (0x83, 0), (0xc8, 5), (0x62, 0), (0xe2, 0), (0xc2, 10), (0x22, 2),
      (0xa2, 5), (0x13, 2), (0x53, 7), (0x12, 4), (0x92, 4), (0x32, 8), (0xb2, 8)]"

fun enc_raw :: "raw \<Rightarrow> bytes" where
  "enc_raw R_pad = [0x00]"
| "enc_raw (R_tnt8 b) = [b]"
| "enc_raw (R_tnt64 p) = 0x02 # 0xa3 # p"
| "enc_raw (R_ip opc enc p) = (opc OR push_bit 5 enc) # p"
| "enc_raw R_psb = psb"
| "enc_raw R_ovf = [0x02, 0xf3]"
| "enc_raw (R_mode x) = [0x99, x]"
| "enc_raw (R_tsc p) = 0x19 # p"
| "enc_raw (R_mtc x) = [0x59, x]"
| "enc_raw (R_ext e p) = 0x02 # e # p"
| "enc_raw (R_mnt p) = 0x02 # 0xc3 # 0x88 # p"
| "enc_raw (R_cyc b p) = b # p"
| "enc_raw (R_bbp x) = [0x02, 0x63, x]"
| "enc_raw (R_bep e) = [0x02, e]"
| "enc_raw (R_bip b p) = b # p"

fun cyc_chain :: "bool \<Rightarrow> bytes \<Rightarrow> bool" where
  "cyc_chain m [] = (\<not> m)"
| "cyc_chain m (x # xs) = (m \<and> cyc_chain (x AND 1 \<noteq> 0) xs)"

fun raw_ok :: "nat option \<Rightarrow> raw \<Rightarrow> bool" where
  "raw_ok bl (R_tnt8 b) = (b AND 1 = 0 \<and> b \<noteq> 0 \<and> b \<noteq> 0x02 \<and> (bl = None \<or> b AND 0x07 \<noteq> 0x04))"
| "raw_ok bl (R_tnt64 p) = (length p = 6)"
| "raw_ok bl (R_ip opc enc p) = (opc \<in> {0x0d, 0x11, 0x01, 0x1d} \<and> ip_payload_len enc = Some (length p))"
| "raw_ok bl (R_tsc p) = (length p = 7)"
| "raw_ok bl (R_ext e p) = (map_of ext_payload e = Some (length p))"
| "raw_ok bl (R_mnt p) = (length p = 8)"
| "raw_ok bl (R_cyc b p) = (b AND 0x03 = 0x03 \<and> length p \<le> 8 \<and> cyc_chain (b AND 0x04 \<noteq> 0) p)"
| "raw_ok bl (R_bep e) = (e = 0x33 \<or> e = 0xb3)"
| "raw_ok bl (R_bip b p) = (b AND 0x07 = 0x04 \<and> bl = Some (length p))"
| "raw_ok bl r = True"

fun raw_pkt :: "raw \<Rightarrow> pkt" where
  "raw_pkt R_pad = Pad"
| "raw_pkt (R_tnt8 b) = Tnt8 (ucast (drop_bit 1 b))"
| "raw_pkt (R_tnt64 p) = Tnt64 (word_of_le p)"
| "raw_pkt (R_ip opc enc p) = Ip opc enc"
| "raw_pkt R_psb = Psb"
| "raw_pkt R_ovf = Ovf"
| "raw_pkt (R_bbp x) = Bbp (x AND 0x80 \<noteq> 0)"
| "raw_pkt (R_bep e) = Bep"
| "raw_pkt r = Skip"

lemma low_bits:
  fixes b :: u8
  shows "b AND 1 = 0 \<Longrightarrow> c AND 1 \<noteq> 0 \<Longrightarrow> b AND 0x1f \<noteq> c" "b AND 1 = 0 \<Longrightarrow> b AND 0x03 \<noteq> 0x03"
    "b AND 0x03 = 0x03 \<Longrightarrow> c AND 0x03 \<noteq> 0x03 \<Longrightarrow> b AND 0x1f \<noteq> c" "b AND 0x07 = 0x04 \<Longrightarrow> c AND 0x07 \<noteq> 0x04 \<Longrightarrow> b AND 0x1f \<noteq> c"
proof -
  have "(b AND 0x1f) AND 1 = b AND 1" "(b AND 0x03) AND 1 = b AND 1" "(b AND 0x1f) AND 0x03 = b AND 0x03" "(b AND 0x1f) AND 0x07 = b AND 0x07"
    by (simp_all add: and.assoc)
  then show "b AND 1 = 0 \<Longrightarrow> c AND 1 \<noteq> 0 \<Longrightarrow> b AND 0x1f \<noteq> c" "b AND 1 = 0 \<Longrightarrow> b AND 0x03 \<noteq> 0x03"
    "b AND 0x03 = 0x03 \<Longrightarrow> c AND 0x03 \<noteq> 0x03 \<Longrightarrow> b AND 0x1f \<noteq> c" "b AND 0x07 = 0x04 \<Longrightarrow> c AND 0x07 \<noteq> 0x04 \<Longrightarrow> b AND 0x1f \<noteq> c"
    by auto
qed

lemma scan_tnt8:
  assumes "raw_ok bl (R_tnt8 b)"
  shows "scan_suffix bl b r = scan_of (Tnt8 (ucast (drop_bit 1 b))) 1"
proof -
  have even: "b AND 1 = 0" using assms by simp
  then have "b \<noteq> 0x99" "b \<noteq> 0x19" "b \<noteq> 0x59" by auto
  moreover have "\<not> is_ip_opcode (b AND 0x1f)"
    using low_bits(1) [OF even] by (simp add: is_ip_opcode_def opcodes)
  moreover have "b AND 0x03 \<noteq> 0x03" by (rule low_bits(2) [OF even])
  ultimately show ?thesis using assms by (auto simp: scan_suffix_def opcodes)
qed

lemma cyc_loop_chain: "cyc_chain m p \<Longrightarrow> n + length p \<le> 9 \<Longrightarrow> cyc_loop n m (p @ r) = scan_of Skip (n + length p)"
proof (induction p arbitrary: n m)
  case (Cons x xs)
  then show ?case by (simp add: cyc_max_len_def opcodes)
qed simp

lemma scan_cyc:
  assumes "raw_ok bl (R_cyc b p)"
  shows "scan_suffix bl b (p @ r) = scan_of Skip (1 + length p)"
proof -
  have b: "b AND 0x03 = 0x03" using assms by simp
  then have "b \<notin> {0, 0x02, 0x99, 0x19, 0x59}" by auto
  moreover have "\<not> is_ip_opcode (b AND 0x1f)" using low_bits(3) [OF b] by (simp add: is_ip_opcode_def opcodes)
  moreover have "b AND 0x07 \<noteq> 0x04"
  proof
    assume "b AND 0x07 = 0x04"
    moreover have "(b AND 0x07) AND 0x03 = b AND 0x03" by (simp add: and.assoc)
    ultimately show False using b by simp
  qed
  ultimately show ?thesis using assms cyc_loop_chain [of "b AND 0x04 \<noteq> 0" p 1 r] by (simp add: scan_suffix_def opcodes)
qed

lemma scan_ip:
  assumes "raw_ok bl (R_ip opc enc p)"
  shows "scan_suffix bl (opc OR push_bit 5 enc) (p @ r) = scan_of (Ip opc enc) (1 + length p)"
proof -
  have opc: "opc \<in> {0x0d, 0x11, 0x01, 0x1d}" and n: "ip_payload_len enc = Some (length p)" using assms by simp_all
  have enc: "enc \<in> {0, 1, 2, 3, 4, 6}" using n by (auto simp: ip_payload_len_def split: if_splits)
  let ?b = "opc OR push_bit 5 enc"
  have "?b AND 0x1f = opc \<and> drop_bit 5 ?b AND 7 = enc \<and> ?b \<notin> {0, 0x02, 0x99, 0x19, 0x59}"
    using opc enc by auto
  moreover have "is_ip_opcode opc" using opc by (auto simp: is_ip_opcode_def opcodes)
  ultimately show ?thesis using n by (simp add: scan_suffix_def opcodes ip_scan_def)
qed

lemma scan_bip:
  assumes "raw_ok bl (R_bip b p)"
  shows "scan_suffix bl b (p @ r) = scan_of Skip (1 + length p)"
proof -
  have b: "b AND 0x07 = 0x04" and bl: "bl = Some (length p)" using assms by simp_all
  then have "b \<notin> {0, 0x02, 0x99, 0x19, 0x59}" by auto
  moreover have "\<not> is_ip_opcode (b AND 0x1f)" using low_bits(4) [OF b] by (simp add: is_ip_opcode_def opcodes)
  ultimately show ?thesis using b bl by (simp add: scan_suffix_def opcodes fixed_scan_def)
qed

lemma ext_payload_kind: "list_all (\<lambda>(e, n). \<forall>r. ext_kind e r = Inr (Skip, 2 + n)) ext_payload"
  by (simp add: ext_payload_def ext_kind_def opcodes)

lemma scan_ext:
  assumes "raw_ok bl (R_ext e p)"
  shows "ext_scan (e # p @ r) = scan_of Skip (2 + length p)"
proof -
  have "(e, length p) \<in> set ext_payload" using assms by (simp add: map_of_SomeD)
  then have "ext_kind e (p @ r) = Inr (Skip, 2 + length p)" using ext_payload_kind by (auto simp: list_all_iff)
  then show ?thesis by (simp add: ext_scan_def)
qed

lemma ext_opcode: "scan_suffix bl 0x02 r = ext_scan r"
  by (simp add: scan_suffix_def opcodes)

text \<open>\<open>scan_at bl xs\<close>: the scan of the packet at the head of the trace \<open>xs\<close>.\<close>

definition scan_at :: "nat option \<Rightarrow> bytes \<Rightarrow> scan" where
  "scan_at bl xs = (case xs of [] \<Rightarrow> scan_trunc | b # r \<Rightarrow> scan_suffix bl b r)"

lemma scan_packet_at: "scan_packet data pos bl = scan_at bl (drop pos data)"
  by (simp add: scan_packet_def scan_at_def)

lemma ext_kind_simps:
  "ext_kind 0x33 r = Inr (Bep, 2)" "ext_kind 0xb3 r = Inr (Bep, 2)" "ext_kind 0xf3 r = Inr (Ovf, 2)" "ext_kind 0x82 r = Inr (Psb, 16)"
  "ext_kind 0x63 (x # r) = Inr (Bbp (x AND 0x80 \<noteq> 0), 3)"
  by (simp_all add: ext_kind_def opcodes)

lemma scan_raw:
  assumes "raw_ok bl p"
  shows "scan_at bl (enc_raw p @ r) = scan_of (raw_pkt p) (length (enc_raw p))"
proof (cases p)
  case (R_tnt8 b)
  then show ?thesis using scan_tnt8 [of bl b r] assms by (simp add: scan_at_def)
next
  case (R_ip opc enc q)
  then show ?thesis using scan_ip [of bl opc enc q r] assms by (simp add: scan_at_def)
next
  case (R_ext e q)
  then show ?thesis using scan_ext [of bl e q r] assms by (simp add: scan_at_def ext_opcode)
next
  case (R_cyc b q)
  then show ?thesis using scan_cyc [of bl b q r] assms by (simp add: scan_at_def)
next
  case (R_bip b q)
  then show ?thesis using scan_bip [of bl b q r] assms by (simp add: scan_at_def)
next
  case (R_tnt64 q)
  then show ?thesis using assms by (simp add: scan_at_def ext_opcode ext_scan_def ext_kind_def opcodes)
next
  case (R_mnt q)
  then show ?thesis using assms by (simp add: scan_at_def ext_opcode ext_scan_def ext_kind_def opcodes)
next
  case (R_bep e)
  then have "e = 0x33 \<or> e = 0xb3" using assms by simp
  then show ?thesis using R_bep by (elim disjE) (simp_all add: scan_at_def ext_opcode ext_scan_def ext_kind_simps)
next
  case (R_tsc q)
  then show ?thesis using assms by (simp add: scan_at_def scan_suffix_def fixed_scan_def opcodes)
next
  case R_psb
  then show ?thesis by (simp add: scan_at_def ext_opcode ext_scan_def ext_kind_simps psb_def)
qed (simp_all add: scan_at_def ext_opcode ext_scan_def ext_kind_simps scan_suffix_def fixed_scan_def opcodes)

section \<open>Properties\<close>

text \<open>The length table is safe: whatever the trace, the position and the block state, a defined packet has a positive
  length and lies inside the trace, so the decoders always make progress and never read past the end; an undefined or
  cut off packet has length 0.\<close>

theorem scan_packet_bounds:
  "if pk_pkt (scan_packet data pos bl) = Bad \<or> pk_pkt (scan_packet data pos bl) = Truncated
   then pk_len (scan_packet data pos bl) = 0
   else 1 \<le> pk_len (scan_packet data pos bl) \<and> pos + pk_len (scan_packet data pos bl) \<le> length data"
proof (cases "drop pos data")
  case (Cons b r)
  then have "length data - pos = Suc (length r)" by (metis length_drop length_Cons)
  then show ?thesis using Cons scan_suffix_ok [of bl b r] by (auto simp: scan_packet_def scan_ok_def)
qed (simp add: scan_packet_def)

end
