(* ===== verification/Pt_Insn.thy ===== *)
theory Pt_Insn
  imports Prelude
begin

text \<open>
  The minimal x86-64 instruction decoder of the trace walker (\<^verbatim>\<open>decode_insn\<close> in
  \<^verbatim>\<open>mode/engine.rs\<close>). The walker passes the code slice together with its length, so the bounds tests
  of the source are tests on the bytes that remain. The lemmas show that a decoded length is never 0 and that the branch
  instructions the walker follows are decoded exactly, behind any legacy and REX prefixes.
\<close>

unbundle bit_operations_syntax

section \<open>Definitions\<close>

text \<open>Length, branch flag, condition flag and displacement.\<close>

type_synonym insn = "nat \<times> bool \<times> bool \<times> u64"

definition is_prefix :: "u8 \<Rightarrow> bool" where
  "is_prefix b \<longleftrightarrow> b = 0x66 \<or> b = 0x67 \<or> b = 0xf0 \<or> b = 0xf2 \<or> b = 0xf3 \<or> b = 0x2e \<or> b = 0x3e \<or> b = 0x26 \<or>
     b = 0x64 \<or> b = 0x65 \<or> b = 0x36 \<or> b AND 0xf0 = 0x40"

fun skip_prefixes :: "nat \<Rightarrow> bytes \<Rightarrow> nat \<times> bytes" where
  "skip_prefixes n [] = (n, [])"
| "skip_prefixes n (b # r) = (if n < 15 \<and> is_prefix b then skip_prefixes (n + 1) r else (n, b # r))"

definition rel8 :: "u8 \<Rightarrow> u64" where
  "rel8 b = scast b"

definition rel32 :: "bytes \<Rightarrow> u64" where
  "rel32 r = scast (word_of_le (take 4 r) :: u32)"

definition modrm_extra :: "u8 \<Rightarrow> nat" where
  "modrm_extra modrm =
     (let md = drop_bit 6 modrm AND 3; rm = modrm AND 7
      in if md = 0 \<and> rm = 5 then 4
         else if md = 0 \<and> rm = 4 then 1
         else if md = 1 then 1 + (if rm = 4 then 1 else 0)
         else if md = 2 then 4 + (if rm = 4 then 1 else 0)
         else 0)"

definition short_branch :: "bool \<Rightarrow> nat \<Rightarrow> bytes \<Rightarrow> insn" where
  "short_branch cond n r = (case r of d # _ \<Rightarrow> (n + 1, True, cond, rel8 d) | [] \<Rightarrow> (n, False, False, 0))"

definition near_branch :: "bool \<Rightarrow> nat \<Rightarrow> bytes \<Rightarrow> insn" where
  "near_branch cond n r = (if 4 \<le> length r then (n + 4, True, cond, rel32 r) else (n, False, False, 0))"

definition two_byte :: "nat \<Rightarrow> u8 \<Rightarrow> bytes \<Rightarrow> insn" where
  "two_byte n op2 r =
     (if 0x80 \<le> op2 \<and> op2 \<le> 0x8f then near_branch True n r
      else if op2 = 0x05 \<or> op2 = 0x07 then (n, True, False, 0)
      else case r of modrm # _ \<Rightarrow> (n + 1 + modrm_extra modrm, False, False, 0) | [] \<Rightarrow> (n, False, False, 0))"

definition has_modrm :: "u8 \<Rightarrow> bool" where
  "has_modrm opc \<longleftrightarrow> opc \<le> 0x3f \<or> (0x80 \<le> opc \<and> opc \<le> 0x8f) \<or> opc = 0x63 \<or> opc = 0x69 \<or> opc = 0x6b \<or> opc = 0xc0 \<or> opc = 0xc1 \<or>
     opc = 0xc6 \<or> opc = 0xc7 \<or> opc = 0xd0 \<or> opc = 0xd1 \<or> opc = 0xd2 \<or> opc = 0xd3 \<or> opc = 0xf6 \<or> opc = 0xf7 \<or> opc = 0xfe"

definition imm_len :: "u8 \<Rightarrow> nat" where
  "imm_len opc =
     (if opc = 0x80 \<or> opc = 0x82 \<or> opc = 0xc0 \<or> opc = 0xc6 then 1
      else if opc = 0x81 \<or> opc = 0xc1 \<or> opc = 0xc7 \<or> opc = 0x69 then 4
      else if opc = 0x83 \<or> opc = 0x6b then 1
      else 0)"

definition decode_op :: "nat \<Rightarrow> u8 \<Rightarrow> bytes \<Rightarrow> insn" where
  "decode_op n opc r =
     (if 0x70 \<le> opc \<and> opc \<le> 0x7f then short_branch True n r
      else if opc = 0xeb then short_branch False n r
      else if opc = 0xe8 then near_branch False n r
      else if opc = 0xe9 then near_branch False n r
      else if opc = 0xc3 \<or> opc = 0xcb then (n, True, False, 0)
      else if opc = 0x0f \<and> r \<noteq> [] then two_byte (n + 1) (hd r) (tl r)
      else if opc = 0xff \<and> r \<noteq> []
      then (let modrm = hd r; reg = drop_bit 3 modrm AND 7
            in (n + 1 + modrm_extra modrm, reg = 2 \<or> reg = 4, False, 0))
      else if r \<noteq> [] \<and> has_modrm opc then (n + 1 + modrm_extra (hd r) + imm_len opc, False, False, 0)
      else (n, False, False, 0))"

definition decode_insn :: "bytes \<Rightarrow> insn" where
  "decode_insn code =
     (if code = [] then (0, False, False, 0)
      else case skip_prefixes 0 code of
             (n, []) \<Rightarrow> (if n \<noteq> 0 then n else 1, False, False, 0)
           | (n, opc # r) \<Rightarrow> decode_op (n + 1) opc r)"

section \<open>Lengths\<close>

lemma decode_op_length: "1 \<le> n \<Longrightarrow> 1 \<le> fst (decode_op n opc r)"
  by (simp add: decode_op_def short_branch_def near_branch_def two_byte_def Let_def split: list.split)

lemma decode_insn_length: "code \<noteq> [] \<Longrightarrow> 1 \<le> fst (decode_insn code)"
  using decode_op_length by (auto simp: decode_insn_def split: prod.split list.split)

section \<open>Branches\<close>

datatype branch =
    Jcc8 u8 u8
  | Jcc32 u8 u32
  | Jmp8 u8
  | Jmp32 u32
  | Call32 u32
  | Ret
  | Far_ret
  | Syscall
  | Sysret

fun enc_branch :: "branch \<Rightarrow> bytes" where
  "enc_branch (Jcc8 cc d) = [0x70 + cc, d]"
| "enc_branch (Jcc32 cc d) = 0x0f # (0x80 + cc) # le_of_word 4 d"
| "enc_branch (Jmp8 d) = [0xeb, d]"
| "enc_branch (Jmp32 d) = 0xe9 # le_of_word 4 d"
| "enc_branch (Call32 d) = 0xe8 # le_of_word 4 d"
| "enc_branch Ret = [0xc3]"
| "enc_branch Far_ret = [0xcb]"
| "enc_branch Syscall = [0x0f, 0x05]"
| "enc_branch Sysret = [0x0f, 0x07]"

fun branch_ok :: "branch \<Rightarrow> bool" where
  "branch_ok (Jcc8 cc d) = (cc < 16)"
| "branch_ok (Jcc32 cc d) = (cc < 16)"
| "branch_ok b = True"

fun branch_cond :: "branch \<Rightarrow> bool" where
  "branch_cond (Jcc8 cc d) = True"
| "branch_cond (Jcc32 cc d) = True"
| "branch_cond b = False"

fun branch_disp :: "branch \<Rightarrow> u64" where
  "branch_disp (Jcc8 cc d) = scast d"
| "branch_disp (Jcc32 cc d) = scast d"
| "branch_disp (Jmp8 d) = scast d"
| "branch_disp (Jmp32 d) = scast d"
| "branch_disp (Call32 d) = scast d"
| "branch_disp b = 0"

lemma skip_prefixes_all:
  "list_all is_prefix ps \<Longrightarrow> \<not> is_prefix b \<Longrightarrow> n + length ps \<le> 15 \<Longrightarrow> skip_prefixes n (ps @ b # r) = (n + length ps, b # r)"
  by (induction ps arbitrary: n) auto

lemma rel32_le: "rel32 (le_of_word 4 d @ r) = scast (d :: u32)"
  by (simp add: rel32_def word_of_le_of_word)

lemma cc_ranges:
  assumes "cc < (16 :: u8)"
  shows "0x70 \<le> 0x70 + cc \<and> 0x70 + cc \<le> 0x7f" "0x80 \<le> 0x80 + cc \<and> 0x80 + cc \<le> 0x8f" "\<not> is_prefix (0x70 + cc)"
proof -
  have "cc \<in> {0, 1, 2, 3, 4, 5, 6, 7, 8, 9, 10, 11, 12, 13, 14, 15}"
  proof -
    have "unat cc < 16" using assms by (simp add: word_less_nat_alt)
    then have "unat cc \<in> set [0..<16]" by simp
    then have "of_nat (unat cc) \<in> (of_nat :: nat \<Rightarrow> u8) ` set [0..<16]" by (rule imageI)
    then show ?thesis by (simp add: upt_rec)
  qed
  then show "0x70 \<le> 0x70 + cc \<and> 0x70 + cc \<le> 0x7f" "0x80 \<le> 0x80 + cc \<and> 0x80 + cc \<le> 0x8f" "\<not> is_prefix (0x70 + cc)"
    by (auto simp: is_prefix_def)
qed

lemmas decode_defs = decode_op_def short_branch_def near_branch_def two_byte_def rel8_def rel32_le

lemma decode_op_jcc8:
  assumes "cc < 16"
  shows "decode_op n (0x70 + cc) (d # r) = (n + 1, True, True, scast d)"
  using cc_ranges(1) [OF assms] by (simp only: decode_op_def short_branch_def rel8_def simp_thms if_True list.case)

lemma decode_op_jcc32:
  assumes "cc < 16"
  shows "decode_op n 0x0f ((0x80 + cc) # le_of_word 4 d @ r) = (n + 5, True, True, scast (d :: u32))"
proof -
  have "two_byte (n + 1) (0x80 + cc) (le_of_word 4 d @ r) = near_branch True (n + 1) (le_of_word 4 d @ r)"
    using cc_ranges(2) [OF assms] by (simp only: two_byte_def simp_thms if_True)
  then show ?thesis by (simp add: decode_op_def near_branch_def rel32_le)
qed

lemma decode_op_branch:
  assumes "branch_ok br" and "enc_branch br = b # q"
  shows "\<not> is_prefix b \<and> decode_op (n + 1) b (q @ r) = (n + length (enc_branch br), True, branch_cond br, branch_disp br)"
proof (cases br)
  case (Jcc8 cc d)
  then show ?thesis using assms decode_op_jcc8 [of cc "n + 1" d r] cc_ranges(3) [of cc] by auto
next
  case (Jcc32 cc d)
  then show ?thesis using assms decode_op_jcc32 [of cc "n + 1" d r] by (auto simp: is_prefix_def)
qed (use assms in \<open>auto simp: is_prefix_def decode_defs\<close>)

section \<open>Properties\<close>

text \<open>C34. Every direct branch, return and system call instruction - behind up to 15 bytes of legacy and REX prefixes and
  whatever follows it - is decoded with its exact length, its condition flag and its sign-extended displacement.\<close>

theorem decode_insn_branch:
  assumes "branch_ok br" and "list_all is_prefix ps" and "length ps \<le> 15"
  shows "decode_insn (ps @ enc_branch br @ r) = (length ps + length (enc_branch br), True, branch_cond br, branch_disp br)"
proof -
  obtain b q where bq: "enc_branch br = b # q" by (cases br) auto
  have "skip_prefixes 0 (ps @ b # q @ r) = (0 + length ps, b # q @ r)"
    using decode_op_branch [OF assms(1) bq] assms(2,3) by (intro skip_prefixes_all) auto
  then show ?thesis using decode_op_branch [OF assms(1) bq, of "length ps" r] bq by (simp add: decode_insn_def)
qed

theorem decode_insn_branch_witness: "decode_insn [0x2e, 0x0f, 0x84, 0xfe, 0xff, 0xff, 0xff, 0x90] = (7, True, True, - 2)"
proof -
  have "enc_branch (Jcc32 4 (- 2)) = [0x0f, 0x84, 0xfe, 0xff, 0xff, 0xff]" by (simp add: le_of_word_def upt_rec)
  then show ?thesis using decode_insn_branch [of "Jcc32 4 (- 2)" "[0x2e]" "[0x90]"] by (simp add: is_prefix_def)
qed

end
