(* ===== verification/Pt_Decoder.thy ===== *)
theory Pt_Decoder
  imports Pt_Packet Pt_Insn Rust_Str
begin

text \<open>
  The two decoders of an Intel PT trace (\<^verbatim>\<open>mode/engine.rs\<close>): \<open>tip_only_decode\<close>, which follows the
  packets that carry an address, and \<^verbatim>\<open>PtDecoder\<close>, which also walks the kernel text along the
  taken/not-taken bits. The walk can loop forever, so it is a partial function whose \<open>None\<close> is not returning; the
  packet loop around it always advances. The counters reported on stderr are part of the state, the message is not.
\<close>

unbundle bit_operations_syntax

section \<open>Shared parts\<close>

record pt_stats =
  ps_bad :: u64
  ps_resyncs :: u64
  ps_overflows :: u64
  ps_truncated :: bool

definition stats_default :: pt_stats where
  "stats_default = \<lparr>ps_bad = 0, ps_resyncs = 0, ps_overflows = 0, ps_truncated = False\<rparr>"

text \<open>Last-IP compression: the new address from the old one, the \<^verbatim>\<open>IPBytes\<close> field and the payload. The
  code has this computation twice, once in each decoder.\<close>

definition ip_update :: "u8 \<Rightarrow> u64 \<Rightarrow> u64 \<Rightarrow> u64" where
  "ip_update enc old v =
     (if enc = 1 then (old AND NOT 0xffff) OR v
      else if enc = 2 then (old AND NOT 0xffffffff) OR v
      else if enc = 3 then (if v AND push_bit 47 1 \<noteq> 0 then v OR 0xffff000000000000 else v)
      else if enc = 4 then (old AND NOT 0xffffffffffff) OR v
      else if enc = 6 then v
      else old)"

definition pc_line :: "u64 \<Rightarrow> str" where
  "pc_line pc = lit ''0x'' @ show_hex (unat pc) @ [0x0a]"

definition is_kernel :: "u64 \<Rightarrow> bool" where
  "is_kernel ip \<longleftrightarrow> 0xffff000000000000 \<le> ip"

definition bip_width :: "bool \<Rightarrow> nat" where
  "bip_width wide = (if wide then 8 else 4)"

definition leading_zeros :: "u64 \<Rightarrow> nat" where
  "leading_zeros w = length (takeWhile (\<lambda>i. \<not> bit w i) (rev [0..<64]))"

lemma scan_progress:
  assumes "pk_pkt (scan_packet data pos bl) \<noteq> Bad" and "pk_pkt (scan_packet data pos bl) \<noteq> Truncated"
  shows "0 < pk_len (scan_packet data pos bl)"
proof (cases "drop pos data")
  case (Cons b r)
  then show ?thesis using assms scan_suffix_ok [of bl b r] by (simp add: scan_packet_def scan_ok_def)
qed (use assms in \<open>simp add: scan_packet_def\<close>)

section \<open>The address-only decoder\<close>

record tip_state =
  t_last_ip :: u64
  t_pos :: nat
  t_count :: u32
  t_block :: "nat option"
  t_stats :: pt_stats
  t_out :: str

definition tip_ip :: "bytes \<Rightarrow> u8 \<Rightarrow> tip_state \<Rightarrow> tip_state" where
  "tip_ip data enc s =
     (let n = (case ip_payload_len enc of Some n \<Rightarrow> n | None \<Rightarrow> 0)
      in if 0 < n
         then let ip = ip_update enc (t_last_ip s) (word_of_le (take n (drop (t_pos s + 1) data))); s = s\<lparr>t_last_ip := ip\<rparr>
              in if is_kernel ip then s\<lparr>t_out := t_out s @ pc_line ip, t_count := t_count s + 1\<rparr> else s
         else s)"

text \<open>One turn of the loop; the flag says whether the loop goes on.\<close>

definition tip_step :: "bytes \<Rightarrow> tip_state \<Rightarrow> tip_state \<times> bool" where
  "tip_step data s =
     (let sc = scan_packet data (t_pos s) (t_block s); st = t_stats s; pos' = t_pos s + pk_len sc
      in case pk_pkt sc of
           Ip _ enc \<Rightarrow> ((tip_ip data enc s)\<lparr>t_pos := pos'\<rparr>, True)
         | Ovf \<Rightarrow> (s\<lparr>t_last_ip := 0, t_stats := st\<lparr>ps_overflows := ps_overflows st + 1\<rparr>, t_pos := pos'\<rparr>, True)
         | Bbp wide \<Rightarrow> (s\<lparr>t_block := Some (bip_width wide), t_pos := pos'\<rparr>, True)
         | Bep \<Rightarrow> (s\<lparr>t_block := None, t_pos := pos'\<rparr>, True)
         | Truncated \<Rightarrow> (s\<lparr>t_stats := st\<lparr>ps_truncated := True\<rparr>\<rparr>, False)
         | Bad \<Rightarrow>
             (let st = st\<lparr>ps_bad := ps_bad st + 1\<rparr>; s = s\<lparr>t_last_ip := 0, t_block := None\<rparr>
              in case find_psb data (t_pos s + 1) of
                   Some next_pos \<Rightarrow> (s\<lparr>t_stats := st\<lparr>ps_resyncs := ps_resyncs st + 1\<rparr>, t_pos := next_pos\<rparr>, True)
                 | None \<Rightarrow> (s\<lparr>t_stats := st\<rparr>, False))
         | _ \<Rightarrow> (s\<lparr>t_pos := pos'\<rparr>, True))"

lemma tip_step_progress:
  assumes "tip_step data s = (s', True)"
  shows "t_pos s < t_pos s'"
proof -
  have "pk_pkt (scan_packet data (t_pos s) (t_block s)) \<noteq> Truncated" using assms by (auto simp: tip_step_def)
  then show ?thesis
    using assms scan_progress [of data "t_pos s" "t_block s"] find_psb_Some(1) [of data "t_pos s + 1"]
    by (cases "pk_pkt (scan_packet data (t_pos s) (t_block s))")
      (auto simp: tip_step_def Let_def tip_ip_def Suc_le_eq split: option.splits)
qed

function tip_loop :: "bytes \<Rightarrow> tip_state \<Rightarrow> tip_state" where
  "tip_loop data s =
     (if t_pos s < length data
      then case tip_step data s of (s', c) \<Rightarrow> if c then tip_loop data s' else s'
      else s)"
  by pat_completeness auto
termination
  by (relation "measure (\<lambda>(data, s). length data - t_pos s)") (auto intro!: diff_less_mono2 tip_step_progress [OF sym])

declare tip_loop.simps [simp del]

definition tip_init :: "str \<Rightarrow> tip_state" where
  "tip_init out = \<lparr>t_last_ip = 0, t_pos = 0, t_count = 0, t_block = None, t_stats = stats_default, t_out = out\<rparr>"

text \<open>The count returned and the text appended to \<open>out\<close>.\<close>

definition tip_only_decode :: "bytes \<Rightarrow> str \<Rightarrow> u32 \<times> str" where
  "tip_only_decode data out = (let s = tip_loop data (tip_init out) in (t_count s, t_out s))"

section \<open>The full decoder\<close>

text \<open>\<open>tnt_count\<close> is between 0 and 63 in the source (\<^verbatim>\<open>load_tnt\<close> sets it, the walk only decrements it while it is
  positive), so a natural number stands for the \<^verbatim>\<open>i32\<close>; \<^verbatim>\<open>trace_len\<close> is the length of \<open>pt_trace\<close>.\<close>

record pt =
  pt_text :: bytes
  text_vaddr :: u64
  text_size :: nat
  pt_trace :: bytes
  pt_pos :: nat
  pt_ip :: u64
  tnt_bits :: u64
  tnt_count :: nat
  pt_block :: "nat option"
  pt_stat :: pt_stats
  pt_out :: str
  pc_count :: u32

definition pt_new :: "bytes \<Rightarrow> u64 \<Rightarrow> nat \<Rightarrow> bytes \<Rightarrow> pt" where
  "pt_new text vaddr sz trace =
     \<lparr>pt_text = text, text_vaddr = vaddr, text_size = sz, pt_trace = trace, pt_pos = 0, pt_ip = 0, tnt_bits = 0, tnt_count = 0,
      pt_block = None, pt_stat = stats_default, pt_out = [], pc_count = 0\<rparr>"

definition emit_ip :: "u64 \<Rightarrow> pt \<Rightarrow> pt" where
  "emit_ip ip d = (if is_kernel ip then d\<lparr>pt_out := pt_out d @ pc_line ip, pc_count := pc_count d + 1\<rparr> else d)"

text \<open>\<open>None\<close> is the return value -1.\<close>

definition pt_read_ip :: "u8 \<Rightarrow> pt \<Rightarrow> pt option" where
  "pt_read_ip enc d =
     (if enc = 1 \<or> enc = 2 \<or> enc = 3 \<or> enc = 4 \<or> enc = 6
      then let n = (if enc = 1 then 2 else if enc = 2 then 4 else if enc = 6 then 8 else 6)
           in if length (pt_trace d) < pt_pos d + n then None
              else Some (d\<lparr>pt_ip := ip_update enc (pt_ip d) (word_of_le (take n (drop (pt_pos d) (pt_trace d)))),
                           pt_pos := pt_pos d + n\<rparr>)
      else Some d)"

definition in_text :: "pt \<Rightarrow> u64 \<Rightarrow> bool" where
  "in_text d ip \<longleftrightarrow> text_vaddr d \<le> ip \<and> ip < text_vaddr d + of_nat (text_size d)"

definition kaslr_fix :: "pt \<Rightarrow> pt" where
  "kaslr_fix d =
     (if is_kernel (pt_ip d) \<and> pt_ip d \<noteq> 0 \<and> pt_text d \<noteq> []
      then if \<not> in_text d (pt_ip d)
           then let offset = push_bit 21 (drop_bit 21 (pt_ip d - text_vaddr d))
                in if 0 < offset \<and> offset < 0x80000000 then d\<lparr>text_vaddr := text_vaddr d + offset\<rparr> else d
           else d
      else d)"

text \<open>One turn of the walk; \<open>None\<close> is leaving the loop. The slice of the text is in bounds when the text has its
  recorded size, which the loader guarantees.\<close>

definition walk_step :: "pt \<Rightarrow> pt option" where
  "walk_step d =
     (if 0 < tnt_count d \<and> in_text d (pt_ip d)
      then let ip = pt_ip d; off = unat (ip - text_vaddr d); remain = text_size d - off
           in if text_size d < off \<or> remain < 1 then None
              else let maxl = (if 15 < remain then 15 else remain);
                       (ilen, is_branch, is_cond, branch_rel) = decode_insn (take maxl (drop off (pt_text d)));
                       fall = ip + of_nat ilen
                   in if ilen = 0 then None
                      else if is_branch \<and> is_cond
                      then let taken = drop_bit (tnt_count d - 1) (tnt_bits d) AND 1;
                               ip' = (if taken \<noteq> 0 then fall + branch_rel else fall)
                           in Some (emit_ip ip' (d\<lparr>tnt_count := tnt_count d - 1, pt_ip := ip'\<rparr>))
                      else if is_branch
                      then if branch_rel \<noteq> 0 \<and> 1 < ilen
                           then let ip' = fall + branch_rel in Some (emit_ip ip' (d\<lparr>pt_ip := ip'\<rparr>))
                           else None
                      else Some (d\<lparr>pt_ip := fall\<rparr>)
      else None)"

partial_function (option) tnt_loop :: "pt \<Rightarrow> pt option" where
  "tnt_loop d = (case walk_step d of None \<Rightarrow> Some d | Some d' \<Rightarrow> tnt_loop d')"

definition walk_tnt :: "pt \<Rightarrow> pt option" where
  "walk_tnt d = tnt_loop (kaslr_fix d)"

definition drop_tnt :: "pt \<Rightarrow> pt" where
  "drop_tnt d = d\<lparr>tnt_bits := 0, tnt_count := 0\<rparr>"

definition load_tnt :: "u64 \<Rightarrow> pt \<Rightarrow> pt option" where
  "load_tnt payload d =
     (if payload = 0
      then Some (d\<lparr>pt_stat := (pt_stat d)\<lparr>ps_bad := ps_bad (pt_stat d) + 1\<rparr>, tnt_bits := 0, tnt_count := 0\<rparr>)
      else let stop = 63 - leading_zeros payload;
               d = d\<lparr>tnt_bits := payload AND (push_bit stop 1 - 1), tnt_count := stop\<rparr>
           in if pt_text d \<noteq> [] \<and> pt_ip d \<noteq> 0 \<and> 0 < tnt_count d then walk_tnt d else Some d)"

text \<open>The \<open>Ip\<close> arm: the flag is False when the payload is cut off.\<close>

definition run_ip :: "u8 \<Rightarrow> nat \<Rightarrow> pt \<Rightarrow> (pt \<times> bool) option" where
  "run_ip enc n d =
     (if enc = 0 then Some (d\<lparr>pt_pos := pt_pos d + n\<rparr>, True)
      else case pt_read_ip enc (d\<lparr>pt_pos := pt_pos d + 1\<rparr>) of
             None \<Rightarrow> Some (d\<lparr>pt_pos := pt_pos d + 1, pt_stat := (pt_stat d)\<lparr>ps_truncated := True\<rparr>\<rparr>, False)
           | Some d \<Rightarrow>
               (let d = emit_ip (pt_ip d) d
                in map_option (\<lambda>d. (d, True)) (if pt_text d \<noteq> [] \<and> 0 < tnt_count d then walk_tnt d else Some d)))"

definition run_bad :: "pt \<Rightarrow> pt \<times> bool" where
  "run_bad d =
     (let st = (pt_stat d)\<lparr>ps_bad := ps_bad (pt_stat d) + 1\<rparr>; d = (drop_tnt d)\<lparr>pt_ip := 0, pt_block := None\<rparr>
      in case find_psb (pt_trace d) (pt_pos d + 1) of
           Some next_pos \<Rightarrow> (d\<lparr>pt_stat := st\<lparr>ps_resyncs := ps_resyncs st + 1\<rparr>, pt_pos := next_pos\<rparr>, True)
         | None \<Rightarrow> (d\<lparr>pt_stat := st\<rparr>, False))"

text \<open>One turn of the packet loop: \<open>None\<close> when the walk does not return, the flag False when the loop is left.\<close>

definition run_step :: "pt \<Rightarrow> (pt \<times> bool) option" where
  "run_step d =
     (let sc = scan_packet (pt_trace d) (pt_pos d) (pt_block d); d' = d\<lparr>pt_pos := pt_pos d + pk_len sc\<rparr>; st = pt_stat d
      in case pk_pkt sc of
           Pad \<Rightarrow> Some (d', True)
         | Skip \<Rightarrow> Some (d', True)
         | Tnt8 payload \<Rightarrow> map_option (\<lambda>d. (d, True)) (load_tnt payload d')
         | Tnt64 payload \<Rightarrow> map_option (\<lambda>d. (d, True)) (load_tnt payload d')
         | Ip _ enc \<Rightarrow> run_ip enc (pk_len sc) d
         | Psb \<Rightarrow> Some (drop_tnt d', True)
         | Ovf \<Rightarrow> Some ((drop_tnt d')\<lparr>pt_ip := 0, pt_stat := st\<lparr>ps_overflows := ps_overflows st + 1\<rparr>\<rparr>, True)
         | Bbp wide \<Rightarrow> Some (d'\<lparr>pt_block := Some (bip_width wide)\<rparr>, True)
         | Bep \<Rightarrow> Some (d'\<lparr>pt_block := None\<rparr>, True)
         | Truncated \<Rightarrow> Some (d\<lparr>pt_stat := st\<lparr>ps_truncated := True\<rparr>\<rparr>, False)
         | Bad \<Rightarrow> Some (run_bad d))"

text \<open>The walk writes only the address, the count of pending outcomes and the output.\<close>

definition walk_frame :: "pt \<Rightarrow> pt \<Rightarrow> bool" where
  "walk_frame d d' \<longleftrightarrow> d' = d\<lparr>pt_ip := pt_ip d', tnt_count := tnt_count d', pt_out := pt_out d', pc_count := pc_count d'\<rparr>"

lemma walk_frame_refl: "walk_frame d d"
  by (simp add: walk_frame_def)

lemma walk_frame_trans: "walk_frame d e \<Longrightarrow> walk_frame e f \<Longrightarrow> walk_frame d f"
  unfolding walk_frame_def by (cases d; cases e; cases f) simp

lemma emit_ip_frame: "walk_frame d e \<Longrightarrow> walk_frame d (emit_ip ip e)"
  unfolding walk_frame_def emit_ip_def by (cases d; cases e) simp

lemma walk_step_frame: "walk_step d = Some d' \<Longrightarrow> walk_frame d d'"
  unfolding walk_step_def Let_def
  by (auto split: if_splits prod.splits intro!: emit_ip_frame) (simp_all add: walk_frame_def)

lemma tnt_loop_frame:
  assumes "tnt_loop d = Some d'"
  shows "walk_frame d d'"
proof (rule tnt_loop.raw_induct [OF _ assms])
  fix f d d'
  assume IH: "\<And>e e'. f e = Some e' \<Longrightarrow> walk_frame e e'"
    and d: "(case walk_step d of None \<Rightarrow> Some d | Some e \<Rightarrow> f e) = Some d'"
  show "walk_frame d d'"
  proof (cases "walk_step d")
    case None
    then show ?thesis using d by (simp add: walk_frame_refl)
  next
    case (Some e)
    then have "walk_frame e d'" using d IH by simp
    then show ?thesis using walk_frame_trans walk_step_frame [OF Some] by blast
  qed
qed

lemma walk_frame_pos: "walk_frame d d' \<Longrightarrow> pt_pos d' = pt_pos d \<and> pt_trace d' = pt_trace d"
  unfolding walk_frame_def by (cases d; cases d') simp

lemma walk_tnt_pos: "walk_tnt d = Some d' \<Longrightarrow> pt_pos d' = pt_pos d \<and> pt_trace d' = pt_trace d"
  using walk_frame_pos [OF tnt_loop_frame] by (fastforce simp: walk_tnt_def kaslr_fix_def Let_def split: if_splits)

lemma load_tnt_pos: "load_tnt payload d = Some d' \<Longrightarrow> pt_pos d' = pt_pos d \<and> pt_trace d' = pt_trace d"
  by (auto simp: load_tnt_def Let_def dest: walk_tnt_pos split: if_splits)

lemma run_ip_pos:
  assumes "run_ip enc n d = Some (d', True)" and "0 < n"
  shows "pt_pos d < pt_pos d' \<and> pt_trace d' = pt_trace d"
proof (cases "enc = 0")
  case False
  then obtain e where e: "pt_read_ip enc (d\<lparr>pt_pos := pt_pos d + 1\<rparr>) = Some e"
    using assms by (auto simp: run_ip_def split: option.splits)
  let ?f = "emit_ip (pt_ip e) e"
  have f: "pt_pos d < pt_pos ?f \<and> pt_trace ?f = pt_trace d"
    using e by (auto simp: pt_read_ip_def emit_ip_def Let_def split: if_splits)
  show ?thesis
  proof (cases "pt_text ?f \<noteq> [] \<and> 0 < tnt_count ?f")
    case True
    then have "walk_tnt ?f = Some d'" using assms False e by (auto simp: run_ip_def Let_def split: if_splits)
    then show ?thesis using walk_tnt_pos f by fastforce
  next
    case no: False
    then have "d' = ?f" using assms False e by (auto simp: run_ip_def Let_def split: if_splits)
    then show ?thesis using f by simp
  qed
qed (use assms in \<open>auto simp: run_ip_def\<close>)

lemma run_step_progress:
  assumes "run_step d = Some (d', True)"
  shows "pt_pos d < pt_pos d' \<and> pt_trace d' = pt_trace d"
proof -
  let ?sc = "scan_packet (pt_trace d) (pt_pos d) (pt_block d)"
  have t: "pk_pkt ?sc \<noteq> Truncated" using assms by (auto simp: run_step_def)
  show ?thesis
  proof (cases "pk_pkt ?sc = Bad")
    case True
    then show ?thesis using assms find_psb_Some(1) [of "pt_trace d" "pt_pos d + 1"]
      by (auto simp: run_step_def run_bad_def drop_tnt_def Let_def Suc_le_eq split: option.splits)
  next
    case False
    then have "0 < pk_len ?sc" using t by (rule scan_progress)
    then show ?thesis using assms False t
      by (cases "pk_pkt ?sc") (auto simp: run_step_def drop_tnt_def Let_def dest: load_tnt_pos run_ip_pos)
  qed
qed

function run_loop :: "pt \<Rightarrow> pt option" where
  "run_loop d =
     (if pt_pos d < length (pt_trace d)
      then case run_step d of
             None \<Rightarrow> None
           | Some (d', c) \<Rightarrow> if c then run_loop d' else Some d'
      else Some d)"
  by pat_completeness auto
termination
proof (relation "measure (\<lambda>d. length (pt_trace d) - pt_pos d)", goal_cases)
  case (2 d x d' c)
  then show ?case using run_step_progress [of d d'] by (simp add: diff_less_mono2)
qed simp

declare run_loop.simps [simp del]

definition pt_run :: "pt \<Rightarrow> pt option" where
  "pt_run d = run_loop ((drop_tnt d)\<lparr>pt_pos := 0, pt_ip := 0, pc_count := 0, pt_block := None, pt_stat := stats_default\<rparr>)"

end
