(* ===== verification/Pt_Spec.thy ===== *)
theory Pt_Spec
  imports Pt_Decoder
begin

text \<open>
  What the Intel PT decoders compute from the packets alone. Over a trace that is a sequence of packets the address-only
  decoder emits the addresses of the packets; without kernel text the full decoder does the same on every byte sequence.
\<close>

unbundle bit_operations_syntax

section \<open>The address-only decoder on a packet sequence\<close>

fun raw_block :: "nat option \<Rightarrow> raw \<Rightarrow> nat option" where
  "raw_block bl (R_bbp x) = Some (bip_width (x AND 0x80 \<noteq> 0))"
| "raw_block bl (R_bep e) = None"
| "raw_block bl p = bl"

fun stream_ok :: "nat option \<Rightarrow> raw list \<Rightarrow> bool" where
  "stream_ok bl [] = True"
| "stream_ok bl (p # ps) = (raw_ok bl p \<and> stream_ok (raw_block bl p) ps)"

fun raw_ips :: "u64 \<Rightarrow> raw list \<Rightarrow> u64 list" where
  "raw_ips ip [] = []"
| "raw_ips ip (R_ip opc enc p # ps) =
     (if p = [] then raw_ips ip ps else let ip' = ip_update enc ip (word_of_le p) in ip' # raw_ips ip' ps)"
| "raw_ips ip (R_ovf # ps) = raw_ips 0 ps"
| "raw_ips ip (p # ps) = raw_ips ip ps"

definition pc_log :: "u64 list \<Rightarrow> str" where
  "pc_log ips = concat (map pc_line (filter is_kernel ips))"

lemma pc_log_simps [simp]: "pc_log [] = []" "pc_log (ip # ips) = (if is_kernel ip then pc_line ip else []) @ pc_log ips"
  by (simp_all add: pc_log_def)

text \<open>The address after one packet, and the address it reports, if it reports one.\<close>

fun raw_ip :: "u64 \<Rightarrow> raw \<Rightarrow> u64" where
  "raw_ip ip (R_ip opc enc p) = (if p = [] then ip else ip_update enc ip (word_of_le p))"
| "raw_ip ip R_ovf = 0"
| "raw_ip ip p = ip"

fun raw_report :: "u64 \<Rightarrow> raw \<Rightarrow> u64 list" where
  "raw_report ip (R_ip opc enc p) = (if p = [] then [] else [ip_update enc ip (word_of_le p)])"
| "raw_report ip p = []"

fun raw_stat :: "pt_stats \<Rightarrow> raw \<Rightarrow> pt_stats" where
  "raw_stat st R_ovf = st\<lparr>ps_overflows := ps_overflows st + 1\<rparr>"
| "raw_stat st p = st"

lemma raw_ips_Cons: "raw_ips ip (p # ps) = raw_report ip p @ raw_ips (raw_ip ip p) ps"
  by (cases p) (simp_all add: Let_def)

definition tip_after :: "tip_state \<Rightarrow> raw \<Rightarrow> tip_state" where
  "tip_after s p =
     s\<lparr>t_last_ip := raw_ip (t_last_ip s) p, t_pos := t_pos s + length (enc_raw p), t_block := raw_block (t_block s) p,
       t_out := t_out s @ pc_log (raw_report (t_last_ip s) p),
       t_count := t_count s + of_nat (length (filter is_kernel (raw_report (t_last_ip s) p))), t_stats := raw_stat (t_stats s) p\<rparr>"

lemma tip_step_raw:
  assumes "raw_ok (t_block s) p" and "drop (t_pos s) data = enc_raw p @ r"
  shows "tip_step data s = (tip_after s p, True)"
proof -
  have sc: "scan_packet data (t_pos s) (t_block s) = scan_of (raw_pkt p) (length (enc_raw p))"
    using scan_raw [OF assms(1), of r] assms(2) by (simp add: scan_packet_at)
  show ?thesis
  proof (cases p)
    case (R_ip opc enc q)
    have "drop (t_pos s + 1) data = q @ r" using assms(2) R_ip by (simp flip: drop_drop tl_drop drop_Suc add: drop_Suc)
    then have "tip_ip data enc s = (tip_after s p)\<lparr>t_pos := t_pos s\<rparr>"
      using R_ip assms(1) by (cases s) (simp add: tip_ip_def tip_after_def Let_def)
    then show ?thesis using sc R_ip by (cases s) (simp add: tip_step_def tip_after_def Let_def)
  qed (use sc in \<open>cases s; simp add: tip_step_def tip_after_def Let_def\<close>)+
qed

lemma tip_loop_raw:
  "stream_ok (t_block s) ps \<Longrightarrow> drop (t_pos s) data = concat (map enc_raw ps) \<Longrightarrow> tip_loop data s = foldl tip_after s ps"
proof (induction ps arbitrary: s)
  case (Cons p ps)
  have "enc_raw p \<noteq> []" by (cases p) (simp_all add: psb_def)
  then have "t_pos s < length data" using Cons.prems(2) by (cases "t_pos s < length data") auto
  moreover have "tip_step data s = (tip_after s p, True)" using Cons.prems by (intro tip_step_raw) auto
  moreover have "drop (length (enc_raw p)) (drop (t_pos s) data) = concat (map enc_raw ps)"
    using Cons.prems(2) by simp
  then have "tip_loop data (tip_after s p) = foldl tip_after (tip_after s p) ps"
    using Cons.prems(1) by (intro Cons.IH) (simp_all add: tip_after_def add.commute)
  ultimately show ?case by (simp add: tip_loop.simps [of data s])
qed (simp add: tip_loop.simps)

lemma tip_after_fold:
  "t_out (foldl tip_after s ps) = t_out s @ pc_log (raw_ips (t_last_ip s) ps) \<and>
   t_count (foldl tip_after s ps) = t_count s + of_nat (length (filter is_kernel (raw_ips (t_last_ip s) ps)))"
proof (induction ps arbitrary: s)
  case (Cons p ps)
  show ?case using Cons.IH [of "tip_after s p"] by (simp add: raw_ips_Cons tip_after_def pc_log_def)
qed simp

section \<open>The full decoder without kernel text\<close>

definition same_view :: "bytes \<Rightarrow> pt \<Rightarrow> tip_state \<Rightarrow> bool" where
  "same_view data d s \<longleftrightarrow> pt_text d = [] \<and> pt_trace d = data \<and> pt_pos d = t_pos s \<and> pt_ip d = t_last_ip s \<and>
     pt_block d = t_block s \<and> pt_out d = t_out s \<and> pc_count d = t_count s"

lemma load_tnt_no_text:
  "pt_text d = [] \<Longrightarrow> \<exists>st b n. load_tnt payload d = Some (d\<lparr>pt_stat := st, tnt_bits := b, tnt_count := n\<rparr>)"
  by (cases d) (auto simp: load_tnt_def Let_def)

lemma same_view_tnt: "same_view data (d\<lparr>pt_stat := st, tnt_bits := b, tnt_count := n\<rparr>) s = same_view data d s"
  by (simp add: same_view_def)

lemma run_ip_no_text:
  assumes "same_view data d s" and "ip_payload_len enc = Some n" and "t_pos s + (1 + n) \<le> length data"
  shows "\<exists>d'. run_ip enc (1 + n) d = Some (d', True) \<and> same_view data d' ((tip_ip data enc s)\<lparr>t_pos := t_pos s + (1 + n)\<rparr>)"
proof (cases "enc = 0")
  case True
  then show ?thesis using assms by (auto simp: run_ip_def tip_ip_def same_view_def ip_payload_len_def)
next
  case False
  then have enc: "(enc = 1 \<or> enc = 2 \<or> enc = 3 \<or> enc = 4 \<or> enc = 6) \<and> 0 < n \<and> n = (if enc = 1 then 2 else if enc = 2 then 4 else if enc = 6 then 8 else 6)"
    using assms(2) by (auto simp: ip_payload_len_def split: if_splits)
  let ?ip = "ip_update enc (pt_ip d) (word_of_le (take n (drop (pt_pos d + 1) (pt_trace d))))"
  have "pt_read_ip enc (d\<lparr>pt_pos := pt_pos d + 1\<rparr>) = Some (d\<lparr>pt_ip := ?ip, pt_pos := pt_pos d + (1 + n)\<rparr>)"
    using enc assms(1,3) by (cases d) (simp add: pt_read_ip_def Let_def same_view_def)
  then show ?thesis using False enc assms
    by (auto simp: run_ip_def tip_ip_def emit_ip_def same_view_def Let_def)
qed

lemma cyc_loop_not_ip: "pk_pkt (cyc_loop n m r) \<noteq> Ip opc enc"
  by (induction n m r rule: cyc_loop.induct) auto

lemma ext_scan_not_ip: "pk_pkt (ext_scan r) \<noteq> Ip opc enc"
proof (cases r)
  case (Cons e q)
  have "case ext_kind e q of Inl s \<Rightarrow> pk_pkt s \<noteq> Ip opc enc | Inr (p, n) \<Rightarrow> p \<noteq> Ip opc enc"
    unfolding ext_kind_def Let_def by (simp split: list.split)
  then show ?thesis using Cons by (auto simp: ext_scan_def split: sum.splits)
qed (simp add: ext_scan_def)

lemma fixed_scan_not_ip: "pk_pkt (fixed_scan n r) \<noteq> Ip opc enc"
  by (simp add: fixed_scan_def)

lemma ip_scan_len: "pk_pkt (ip_scan b r) = Ip opc enc \<Longrightarrow> \<exists>n. ip_payload_len enc = Some n \<and> pk_len (ip_scan b r) = 1 + n"
  by (auto simp: ip_scan_def Let_def split: option.splits if_splits)

lemma scan_suffix_ip:
  assumes "pk_pkt (scan_suffix bl b r) = Ip opc enc"
  shows "scan_suffix bl b r = ip_scan b r"
  using assms ext_scan_not_ip fixed_scan_not_ip cyc_loop_not_ip unfolding scan_suffix_def
  by (simp split: if_splits option.splits)

lemma scan_packet_ip:
  assumes "pk_pkt (scan_packet data pos bl) = Ip opc enc"
  shows "\<exists>n. ip_payload_len enc = Some n \<and> pk_len (scan_packet data pos bl) = 1 + n \<and> pos + (1 + n) \<le> length data"
proof (cases "drop pos data")
  case (Cons b r)
  then have sc: "scan_packet data pos bl = scan_suffix bl b r" by (simp add: scan_packet_def)
  then have "\<exists>n. ip_payload_len enc = Some n \<and> pk_len (scan_packet data pos bl) = 1 + n"
    using ip_scan_len [of b r opc enc] scan_suffix_ip [of bl b r opc enc] assms by simp
  moreover have "length data - pos = Suc (length r)" using Cons by (metis length_drop length_Cons)
  moreover have "pk_len (scan_suffix bl b r) \<le> Suc (length r)"
    using scan_suffix_ok [of bl b r] assms sc by (simp add: scan_ok_def)
  ultimately show ?thesis using sc by auto
qed (use assms in \<open>simp add: scan_packet_def\<close>)

lemma run_step_no_text:
  assumes v: "same_view data d s"
  shows "\<exists>d'. run_step d = Some (d', snd (tip_step data s)) \<and> same_view data d' (fst (tip_step data s))"
proof -
  let ?sc = "scan_packet data (t_pos s) (t_block s)"
  have sc: "scan_packet (pt_trace d) (pt_pos d) (pt_block d) = ?sc" using v by (simp add: same_view_def)
  let ?d = "d\<lparr>pt_pos := pt_pos d + pk_len ?sc\<rparr>" and ?s = "s\<lparr>t_pos := t_pos s + pk_len ?sc\<rparr>"
  have v': "same_view data ?d ?s" using v by (simp add: same_view_def)
  have tnt: "\<exists>d'. map_option (\<lambda>d. (d, True)) (load_tnt payload ?d) = Some (d', True) \<and> same_view data d' ?s" for payload
  proof -
    obtain st b n where "load_tnt payload ?d = Some (?d\<lparr>pt_stat := st, tnt_bits := b, tnt_count := n\<rparr>)"
      using load_tnt_no_text [of ?d payload] v' by (auto simp: same_view_def)
    then show ?thesis using v' by (simp add: same_view_tnt del: pt.update_convs)
  qed
  show ?thesis
  proof (cases "pk_pkt ?sc")
    case (Ip opc enc)
    obtain n where n: "ip_payload_len enc = Some n" "pk_len ?sc = 1 + n" "t_pos s + (1 + n) \<le> length data"
      using scan_packet_ip [OF Ip] by blast
    show ?thesis using run_ip_no_text [OF v n(1,3)] Ip n(2) sc by (simp add: run_step_def tip_step_def)
  next
    case (Tnt8 payload)
    then show ?thesis using tnt [of payload] sc by (simp add: run_step_def tip_step_def)
  next
    case (Tnt64 payload)
    then show ?thesis using tnt [of payload] sc by (simp add: run_step_def tip_step_def)
  next
    case Bad
    then show ?thesis using v sc
      by (cases "find_psb data (t_pos s + 1)") (simp_all add: run_step_def tip_step_def run_bad_def drop_tnt_def same_view_def Let_def)
  qed (use v sc in \<open>simp_all add: run_step_def tip_step_def drop_tnt_def same_view_def Let_def\<close>)
qed

lemma run_loop_no_text:
  "same_view data d s \<Longrightarrow> \<exists>d'. run_loop d = Some d' \<and> same_view data d' (tip_loop data s)"
proof (induction data s arbitrary: d rule: tip_loop.induct)
  case (1 data s)
  show ?case
  proof (cases "t_pos s < length data")
    case False
    then show ?thesis using "1.prems" by (simp add: run_loop.simps [of d] tip_loop.simps [of data s] same_view_def)
  next
    case True
    obtain s' c where step: "tip_step data s = (s', c)" by fastforce
    obtain d' where d': "run_step d = Some (d', c)" "same_view data d' s'"
      using run_step_no_text [OF "1.prems"] step by auto
    have pos: "pt_pos d < length (pt_trace d)" using "1.prems" True by (simp add: same_view_def)
    show ?thesis
    proof (cases c)
      case True
      then show ?thesis using "1.IH" [OF \<open>t_pos s < length data\<close> step [symmetric] True d'(2)] d'(1) step pos \<open>t_pos s < length data\<close>
        by (simp add: run_loop.simps [of d] tip_loop.simps [of data s])
    next
      case False
      then show ?thesis using d' step pos True by (simp add: run_loop.simps [of d] tip_loop.simps [of data s])
    qed
  qed
qed

section \<open>Properties\<close>

text \<open>C32. A trace that is a sequence of well-formed packets (with BIP packets only inside a block of their width) is
  decoded packet by packet: the address-only decoder appends exactly the kernel addresses of the packets that carry one,
  decompressed against the last address, which an overflow resets, and returns their number.\<close>

theorem tip_only_decode_stream:
  assumes "stream_ok None ps"
  shows "tip_only_decode (concat (map enc_raw ps)) out =
    (of_nat (length (filter is_kernel (raw_ips 0 ps))), out @ pc_log (raw_ips 0 ps))"
proof -
  have "tip_loop (concat (map enc_raw ps)) (tip_init out) = foldl tip_after (tip_init out) ps"
    by (rule tip_loop_raw) (simp_all add: tip_init_def assms)
  then show ?thesis using tip_after_fold [of "tip_init out" ps] by (simp add: tip_only_decode_def Let_def tip_init_def)
qed

theorem tip_only_decode_stream_witness:
  "tip_only_decode (psb @ [0x6d, 0x10, 0x00, 0x00, 0x81, 0xff, 0xff, 0x00]) [] = (1, pc_line 0xffffffff81000010)"
proof -
  let ?ps = "[R_psb, R_ip 0x0d 3 [0x10, 0x00, 0x00, 0x81, 0xff, 0xff], R_pad]"
  have "raw_ips 0 ?ps = [0xffffffff81000010]" by (simp add: ip_update_def)
  moreover have "stream_ok None ?ps" by (simp add: ip_payload_len_def)
  ultimately show ?thesis using tip_only_decode_stream [of ?ps "[]"] by (simp add: is_kernel_def)
qed

text \<open>C31. Without kernel text the full decoder returns on every byte sequence, well-formed or not, and its count and
  output are those of the address-only decoder: the two packet loops agree on resynchronisation, block state,
  suppressed addresses and the place where they stop.\<close>

theorem pt_run_no_text:
  "\<exists>d. pt_run (pt_new [] vaddr sz trace) = Some d \<and> tip_only_decode trace [] = (pc_count d, pt_out d)"
proof -
  let ?d = "(drop_tnt (pt_new [] vaddr sz trace))\<lparr>pt_pos := 0, pt_ip := 0, pc_count := 0, pt_block := None, pt_stat := stats_default\<rparr>"
  have "same_view trace ?d (tip_init [])" by (simp add: same_view_def drop_tnt_def pt_new_def tip_init_def)
  from run_loop_no_text [OF this] show ?thesis
    by (auto simp: pt_run_def tip_only_decode_def same_view_def Let_def)
qed

end
