(* ===== verification/Pt_Walk.thy ===== *)
theory Pt_Walk
  imports Pt_Spec
begin

text \<open>
  The walk of the full Intel PT decoder along the kernel text. It is the big-step relation \<open>walks\<close>, which reads the
  taken/not-taken outcomes as a list and the text as a partial function from addresses to instructions; a walk returns
  exactly when that relation has a derivation.
\<close>

unbundle bit_operations_syntax

section \<open>The walk\<close>

text \<open>The outcomes still pending, oldest first, and the instruction at an address of the text.\<close>

definition pending :: "u64 \<Rightarrow> nat \<Rightarrow> bool list" where
  "pending bits n = map (bit bits) (rev [0..<n])"

definition insn_at :: "pt \<Rightarrow> u64 \<Rightarrow> insn option" where
  "insn_at d ip =
     (let off = unat (ip - text_vaddr d)
      in if in_text d ip \<and> off < text_size d then Some (decode_insn (take (min 15 (text_size d - off)) (drop off (pt_text d))))
         else None)"

text \<open>\<open>walks code ip bs pcs ip' bs'\<close>: from \<open>ip\<close> with the outcomes \<open>bs\<close> the walk passes the branch targets \<open>pcs\<close> and
  stops at \<open>ip'\<close> with \<open>bs'\<close> left - out of outcomes, outside the code, or before a branch that needs an address packet.\<close>

inductive walks :: "(u64 \<Rightarrow> insn option) \<Rightarrow> u64 \<Rightarrow> bool list \<Rightarrow> u64 list \<Rightarrow> u64 \<Rightarrow> bool list \<Rightarrow> bool" for code where
  walks_done: "walks code ip [] [] ip []"
| walks_out: "code ip = None \<Longrightarrow> walks code ip bs [] ip bs"
| walks_indirect: "code ip = Some (n, True, False, rel) \<Longrightarrow> rel = 0 \<or> n \<le> 1 \<Longrightarrow> walks code ip bs [] ip bs"
| walks_taken: "code ip = Some (n, True, True, rel) \<Longrightarrow> walks code (ip + of_nat n + rel) bs pcs ip' bs' \<Longrightarrow>
    walks code ip (True # bs) ((ip + of_nat n + rel) # pcs) ip' bs'"
| walks_not_taken: "code ip = Some (n, True, True, rel) \<Longrightarrow> walks code (ip + of_nat n) bs pcs ip' bs' \<Longrightarrow>
    walks code ip (False # bs) ((ip + of_nat n) # pcs) ip' bs'"
| walks_jump: "code ip = Some (n, True, False, rel) \<Longrightarrow> rel \<noteq> 0 \<Longrightarrow> 1 < n \<Longrightarrow> bs \<noteq> [] \<Longrightarrow>
    walks code (ip + of_nat n + rel) bs pcs ip' bs' \<Longrightarrow> walks code ip bs ((ip + of_nat n + rel) # pcs) ip' bs'"
| walks_next: "code ip = Some (n, False, c, rel) \<Longrightarrow> bs \<noteq> [] \<Longrightarrow> walks code (ip + of_nat n) bs pcs ip' bs' \<Longrightarrow>
    walks code ip bs pcs ip' bs'"

text \<open>What a walk that passed \<open>pcs\<close> leaves behind.\<close>

definition walked :: "pt \<Rightarrow> u64 list \<Rightarrow> u64 \<Rightarrow> bool list \<Rightarrow> pt" where
  "walked d pcs ip' bs' =
     d\<lparr>pt_ip := ip', tnt_count := length bs', pt_out := pt_out d @ pc_log pcs,
       pc_count := pc_count d + of_nat (length (filter is_kernel pcs))\<rparr>"

definition text_ok :: "pt \<Rightarrow> bool" where
  "text_ok d \<longleftrightarrow> length (pt_text d) = text_size d"

abbreviation outcomes :: "pt \<Rightarrow> bool list" where
  "outcomes d \<equiv> pending (tnt_bits d) (tnt_count d)"

lemma pending_simps [simp]: "pending b 0 = []" "pending b (Suc n) = bit b n # pending b n" "length (pending b n) = n"
  by (simp_all add: pending_def)

lemma pending_eq_Nil [simp]: "pending b n = [] \<longleftrightarrow> n = 0"
  by (simp add: pending_def)

lemma taken_bit: "drop_bit n w AND 1 \<noteq> 0 \<longleftrightarrow> bit (w :: u64) n"
  by (simp add: and_one_eq mod_2_eq_odd bit_iff_odd_drop_bit)

lemma insn_at_pos:
  assumes "text_ok d" and "insn_at d ip = Some i"
  shows "0 < fst i"
proof -
  let ?off = "unat (ip - text_vaddr d)"
  let ?code = "take (min 15 (text_size d - ?off)) (drop ?off (pt_text d))"
  have i: "?off < text_size d" "i = decode_insn ?code" using assms(2) by (simp_all add: insn_at_def Let_def split: if_splits)
  then have "?code \<noteq> []" using assms(1) by (simp add: text_ok_def)
  then have "1 \<le> fst (decode_insn ?code)" by (rule decode_insn_length)
  then show ?thesis unfolding i(2) by linarith
qed

text \<open>One turn of the loop over the instruction it decodes.\<close>

lemma walk_step_insn:
  assumes "text_ok d"
  shows "walk_step d =
    (if tnt_count d = 0 then None
     else case insn_at d (pt_ip d) of
            None \<Rightarrow> None
          | Some (n, br, c, rel) \<Rightarrow>
              if br \<and> c
              then let ip' = pt_ip d + of_nat n + (if bit (tnt_bits d) (tnt_count d - 1) then rel else 0)
                   in Some (emit_ip ip' (d\<lparr>tnt_count := tnt_count d - 1, pt_ip := ip'\<rparr>))
              else if br
              then if rel \<noteq> 0 \<and> 1 < n then let ip' = pt_ip d + of_nat n + rel in Some (emit_ip ip' (d\<lparr>pt_ip := ip'\<rparr>)) else None
              else Some (d\<lparr>pt_ip := pt_ip d + of_nat n\<rparr>))"
proof -
  obtain off where off: "unat (pt_ip d - text_vaddr d) = off" by blast
  have at: "insn_at d (pt_ip d) = (if in_text d (pt_ip d) \<and> off < text_size d
    then Some (decode_insn (take (min 15 (text_size d - off)) (drop off (pt_text d)))) else None)"
    by (simp only: insn_at_def Let_def off)
  show ?thesis
  proof (cases "in_text d (pt_ip d) \<and> off < text_size d")
    case False
    then have "walk_step d = None" unfolding walk_step_def Let_def off
      by (cases "in_text d (pt_ip d)") (simp_all add: not_less)
    moreover have "insn_at d (pt_ip d) = None" by (simp only: at if_not_P [OF False])
    ultimately show ?thesis by simp
  next
    case True
    obtain n br c rel where i: "decode_insn (take (min 15 (text_size d - off)) (drop off (pt_text d))) = (n, br, c, rel)"
      by (metis surj_pair)
    then have some: "insn_at d (pt_ip d) = Some (n, br, c, rel)" using at True by simp
    then have n: "n \<noteq> 0" using insn_at_pos [OF assms some] by simp
    have maxl: "(if 15 < text_size d - off then 15 else text_size d - off) = min 15 (text_size d - off)" by simp
    have g: "\<not> (text_size d < off \<or> text_size d - off < 1)" using True by simp
    have "walk_step d =
      (if tnt_count d = 0 then None
       else if br \<and> c
       then let ip' = pt_ip d + of_nat n + (if bit (tnt_bits d) (tnt_count d - 1) then rel else 0)
            in Some (emit_ip ip' (d\<lparr>tnt_count := tnt_count d - 1, pt_ip := ip'\<rparr>))
       else if br
       then if rel \<noteq> 0 \<and> 1 < n then let ip' = pt_ip d + of_nat n + rel in Some (emit_ip ip' (d\<lparr>pt_ip := ip'\<rparr>)) else None
       else Some (d\<lparr>pt_ip := pt_ip d + of_nat n\<rparr>))"
      unfolding walk_step_def Let_def off maxl i prod.case taken_bit using True g n by simp
    then show ?thesis by (simp only: some option.case prod.case)
  qed
qed

lemma walked_cong:
  "walked (d\<lparr>pt_ip := ip\<rparr>) pcs ip' bs' = walked d pcs ip' bs'" "walked (d\<lparr>tnt_count := n\<rparr>) pcs ip' bs' = walked d pcs ip' bs'"
  by (cases d; simp add: walked_def)+

lemma walked_emit: "walked (emit_ip ip d) pcs ip' bs' = walked d (ip # pcs) ip' bs'"
  by (cases d) (simp add: walked_def emit_ip_def)

lemma walked_self: "walked d [] (pt_ip d) (outcomes d) = d"
  by (cases d) (simp add: walked_def)

lemma emit_ip_same [simp]:
  "pt_ip (emit_ip ip d) = pt_ip d" "tnt_bits (emit_ip ip d) = tnt_bits d" "tnt_count (emit_ip ip d) = tnt_count d"
  "insn_at (emit_ip ip d) = insn_at d" "text_ok (emit_ip ip d) = text_ok d"
  by (simp_all add: emit_ip_def insn_at_def in_text_def text_ok_def fun_eq_iff Let_def)

lemma insn_at_same [simp]:
  "insn_at (d\<lparr>pt_ip := ip\<rparr>) = insn_at d" "insn_at (d\<lparr>tnt_count := n\<rparr>) = insn_at d" "text_ok (d\<lparr>pt_ip := ip\<rparr>) = text_ok d"
  "text_ok (d\<lparr>tnt_count := n\<rparr>) = text_ok d" "insn_at (d\<lparr>tnt_bits := b\<rparr>) = insn_at d" "text_ok (d\<lparr>tnt_bits := b\<rparr>) = text_ok d"
  by (simp_all add: insn_at_def in_text_def text_ok_def fun_eq_iff Let_def)

lemma tnt_loop_None: "walk_step d = None \<Longrightarrow> tnt_loop d = Some d"
  by (simp add: tnt_loop.simps)

lemma tnt_loop_Some: "walk_step d = Some d' \<Longrightarrow> tnt_loop d = tnt_loop d'"
  by (simp add: tnt_loop.simps [of d])

lemma tnt_loop_complete:
  assumes "walks (insn_at d) (pt_ip d) (outcomes d) pcs ip' bs'" and "text_ok d"
  shows "tnt_loop d = Some (walked d pcs ip' bs')"
proof -
  have "walks code ip bs pcs ip' bs' \<Longrightarrow> insn_at d = code \<Longrightarrow> pt_ip d = ip \<Longrightarrow> outcomes d = bs \<Longrightarrow> text_ok d \<Longrightarrow>
    tnt_loop d = Some (walked d pcs ip' bs')" for code ip bs
  proof (induction arbitrary: d rule: walks.induct)
    case (walks_done ip)
    then show ?case using walked_self [of d] by (simp add: tnt_loop_None walk_step_insn)
  next
    case (walks_out ip bs)
    then show ?case using walked_self [of d] by (simp add: tnt_loop_None walk_step_insn)
  next
    case (walks_indirect ip n rel bs)
    then show ?case using walked_self [of d] by (auto simp: tnt_loop_None walk_step_insn)
  next
    case (walks_taken ip n rel bs pcs ip' bs')
    then obtain m where m: "tnt_count d = Suc m" "bit (tnt_bits d) m" "pending (tnt_bits d) m = bs" by (cases "tnt_count d") auto
    let ?ip = "pt_ip d + of_nat n + rel"
    have "walk_step d = Some (emit_ip ?ip (d\<lparr>tnt_count := m, pt_ip := ?ip\<rparr>))"
      using walks_taken m by (simp add: walk_step_insn Let_def)
    then show ?case using walks_taken m walks_taken.IH [of "emit_ip ?ip (d\<lparr>tnt_count := m, pt_ip := ?ip\<rparr>)"]
      by (simp add: tnt_loop_Some walked_emit walked_cong)
  next
    case (walks_not_taken ip n rel bs pcs ip' bs')
    then obtain m where m: "tnt_count d = Suc m" "\<not> bit (tnt_bits d) m" "pending (tnt_bits d) m = bs" by (cases "tnt_count d") auto
    let ?ip = "pt_ip d + of_nat n"
    have "walk_step d = Some (emit_ip ?ip (d\<lparr>tnt_count := m, pt_ip := ?ip\<rparr>))"
      using walks_not_taken m by (simp add: walk_step_insn Let_def)
    then show ?case using walks_not_taken m walks_not_taken.IH [of "emit_ip ?ip (d\<lparr>tnt_count := m, pt_ip := ?ip\<rparr>)"]
      by (simp add: tnt_loop_Some walked_emit walked_cong)
  next
    case (walks_jump ip n rel bs pcs ip' bs')
    let ?ip = "pt_ip d + of_nat n + rel"
    have "walk_step d = Some (emit_ip ?ip (d\<lparr>pt_ip := ?ip\<rparr>))" using walks_jump by (auto simp: walk_step_insn Let_def)
    then show ?case using walks_jump walks_jump.IH [of "emit_ip ?ip (d\<lparr>pt_ip := ?ip\<rparr>)"]
      by (simp add: tnt_loop_Some walked_emit walked_cong)
  next
    case (walks_next ip n c rel bs pcs ip' bs')
    have "walk_step d = Some (d\<lparr>pt_ip := pt_ip d + of_nat n\<rparr>)" using walks_next by (auto simp: walk_step_insn)
    then show ?case using walks_next walks_next.IH [of "d\<lparr>pt_ip := pt_ip d + of_nat n\<rparr>"]
      by (simp add: tnt_loop_Some walked_cong)
  qed
  then show ?thesis using assms by blast
qed

text \<open>The converse: one turn of the loop is one rule, and a loop that returns is a derivation.\<close>

lemma walk_step_None_walks:
  assumes "text_ok d" and "walk_step d = None"
  shows "walks (insn_at d) (pt_ip d) (outcomes d) [] (pt_ip d) (outcomes d)"
  using assms by (auto simp: walk_step_insn Let_def split: if_splits option.splits intro: walks.intros(1-3))

lemma walk_step_Some_walks:
  assumes "text_ok d" and "walk_step d = Some e" and "walks (insn_at e) (pt_ip e) (outcomes e) pcs ip' bs'"
  shows "text_ok e \<and> (\<exists>qs. walks (insn_at d) (pt_ip d) (outcomes d) qs ip' bs' \<and> walked e pcs ip' bs' = walked d qs ip' bs')"
proof -
  obtain m where m: "tnt_count d = Suc m" using assms(1,2) by (cases "tnt_count d") (auto simp: walk_step_insn)
  obtain n br c rel where i: "insn_at d (pt_ip d) = Some (n, br, c, rel)"
    using assms(1,2) m by (auto simp: walk_step_insn split: option.splits)
  show ?thesis
  proof (cases br)
    case no: False
    then have e: "e = d\<lparr>pt_ip := pt_ip d + of_nat n\<rparr>" using assms(1,2) m i by (simp add: walk_step_insn)
    then show ?thesis using walks_next [of "insn_at d" "pt_ip d" n c rel "outcomes d" pcs ip' bs'] i no assms(1,3) m
      by (auto simp: walked_cong intro!: exI [of _ pcs])
  next
    case br: True
    show ?thesis
    proof (cases c)
      case True
      let ?ip = "pt_ip d + of_nat n + (if bit (tnt_bits d) m then rel else 0)"
      have e: "e = emit_ip ?ip (d\<lparr>tnt_count := m, pt_ip := ?ip\<rparr>)"
        using assms(1,2) m i br True by (simp add: walk_step_insn Let_def)
      have "walks (insn_at d) (pt_ip d) (outcomes d) (?ip # pcs) ip' bs'"
        using assms(3) i br True m e by (auto intro: walks_taken walks_not_taken)
      then show ?thesis using e assms(1) by (auto simp: walked_emit walked_cong)
    next
      case False
      let ?ip = "pt_ip d + of_nat n + rel"
      have e: "e = emit_ip ?ip (d\<lparr>pt_ip := ?ip\<rparr>)" "rel \<noteq> 0" "1 < n"
        using assms(1,2) m i br False by (simp_all add: walk_step_insn Let_def split: if_splits)
      have "walks (insn_at d) (pt_ip d) (outcomes d) (?ip # pcs) ip' bs'"
        using assms(3) i br False m e by (auto intro: walks_jump)
      then show ?thesis using e assms(1) by (auto simp: walked_emit walked_cong)
    qed
  qed
qed

lemma walk_step_text_ok: "walk_step d = Some e \<Longrightarrow> text_ok d \<Longrightarrow> text_ok e"
  by (drule walk_step_frame, cases d, cases e) (simp add: walk_frame_def text_ok_def)

lemma tnt_loop_sound:
  assumes "tnt_loop d = Some d'"
  shows "text_ok d \<longrightarrow> (\<exists>pcs ip' bs'. walks (insn_at d) (pt_ip d) (outcomes d) pcs ip' bs' \<and> d' = walked d pcs ip' bs')"
proof (rule tnt_loop.raw_induct [OF _ assms], rule impI)
  fix f d d'
  assume IH: "\<And>e e'. f e = Some e' \<Longrightarrow> text_ok e \<longrightarrow> (\<exists>pcs ip' bs'. walks (insn_at e) (pt_ip e) (outcomes e) pcs ip' bs' \<and> e' = walked e pcs ip' bs')"
    and d: "(case walk_step d of None \<Rightarrow> Some d | Some e \<Rightarrow> f e) = Some d'" and t: "text_ok d"
  show "\<exists>pcs ip' bs'. walks (insn_at d) (pt_ip d) (outcomes d) pcs ip' bs' \<and> d' = walked d pcs ip' bs'"
  proof (cases "walk_step d")
    case None
    then have "d' = walked d [] (pt_ip d) (outcomes d)" using d by (simp add: walked_self)
    then show ?thesis using walk_step_None_walks [OF t None] by blast
  next
    case (Some e)
    then obtain pcs ip' bs' where w: "walks (insn_at e) (pt_ip e) (outcomes e) pcs ip' bs'" "d' = walked e pcs ip' bs'"
      using IH [of e d'] d walk_step_text_ok [OF Some t] by auto
    show ?thesis using walk_step_Some_walks [OF t Some w(1)] w(2) by blast
  qed
qed

section \<open>The outcomes of a TNT packet\<close>

fun bits_value :: "bool list \<Rightarrow> u64" where
  "bits_value [] = 0"
| "bits_value (b # bs) = (if b then push_bit (length bs) 1 else 0) OR bits_value bs"

text \<open>The payload of outcomes: the stop bit above them, oldest first.\<close>

definition tnt_payload :: "bool list \<Rightarrow> u64" where
  "tnt_payload bs = push_bit (length bs) 1 OR bits_value bs"

lemma bit_single: "n < 64 \<Longrightarrow> bit (push_bit n 1 :: u64) i \<longleftrightarrow> i = n"
  by (auto simp: bit_push_bit_iff bit_1_iff simp del: push_bit_of_1)

lemma bit_bits_value:
  "length bs \<le> 64 \<Longrightarrow> bit (bits_value bs) i \<longleftrightarrow> i < length bs \<and> bs ! (length bs - 1 - i)"
proof (induction bs)
  case (Cons b bs)
  consider "i < length bs" | "i = length bs" | "length bs < i" by linarith
  then show ?case
  proof cases
    case 1
    then have "length bs - i = Suc (length bs - 1 - i)" by simp
    then show ?thesis using Cons 1 by (simp add: bit_or_iff bit_single del: push_bit_of_1)
  qed (use Cons in \<open>simp_all add: bit_or_iff bit_single del: push_bit_of_1\<close>)
qed simp

lemma bit_tnt_payload:
  assumes "length bs < 64"
  shows "bit (tnt_payload bs) i \<longleftrightarrow> i = length bs \<or> i < length bs \<and> bs ! (length bs - 1 - i)"
  using assms bit_bits_value [of bs i] by (simp add: tnt_payload_def bit_or_iff bit_single del: push_bit_of_1)

lemma rev_upt_split: "k < n \<Longrightarrow> rev [0..<n] = rev [Suc k..<n] @ k # rev [0..<k]"
  using upt_add_eq_append [of 0 k "n - k"] upt_conv_Cons [of k n] by simp

lemma leading_zeros_payload:
  assumes "length bs < 64"
  shows "leading_zeros (tnt_payload bs) = 63 - length bs"
proof -
  let ?k = "length bs"
  have "takeWhile (\<lambda>i. \<not> bit (tnt_payload bs) i) (rev [Suc ?k..<64] @ ?k # rev [0..<?k]) = rev [Suc ?k..<64]"
    using assms by (subst takeWhile_append2) (auto simp: bit_tnt_payload)
  then show ?thesis using assms unfolding leading_zeros_def rev_upt_split [OF assms] by simp
qed

lemma pending_payload:
  assumes "length bs < 64"
  shows "pending (tnt_payload bs AND (push_bit (length bs) 1 - 1)) (length bs) = bs"
proof (rule nth_equalityI)
  fix i
  assume "i < length (pending (tnt_payload bs AND (push_bit (length bs) 1 - 1)) (length bs))"
  then have i: "i < length bs" by simp
  have "push_bit (length bs) 1 - 1 = (mask (length bs) :: u64)" by (simp add: mask_eq_exp_minus_1 push_bit_eq_mult)
  then show "pending (tnt_payload bs AND (push_bit (length bs) 1 - 1)) (length bs) ! i = bs ! i"
    using i assms by (auto simp: pending_def rev_map [symmetric] rev_nth bit_and_iff bit_mask_iff bit_tnt_payload)
qed simp

section \<open>Walks that return\<close>

lemma walks_exists:
  fixes rank :: "u64 \<Rightarrow> nat"
  assumes "\<And>ip n br c rel. code ip = Some (n, br, c, rel) \<Longrightarrow> \<not> (br \<and> c) \<Longrightarrow> br \<longrightarrow> rel \<noteq> 0 \<and> 1 < n \<Longrightarrow>
    rank (ip + of_nat n + (if br then rel else 0)) < rank ip"
  shows "\<exists>pcs ip' bs'. walks code ip bs pcs ip' bs'"
proof (induction bs arbitrary: ip)
  case Nil
  show ?case using walks_done by blast
next
  case (Cons b bs)
  show ?case
  proof (induction "rank ip" arbitrary: ip rule: less_induct)
    case less
    consider "code ip = None" | n br c rel where "code ip = Some (n, br, c, rel)" by (cases "code ip") auto
    then show ?case
    proof cases
      case 1
      then show ?thesis using walks_out by blast
    next
      case at: (2 n br c rel)
      consider "br" "c" | "br" "\<not> c" "rel = 0 \<or> n \<le> 1" | "br" "\<not> c" "rel \<noteq> 0" "1 < n" | "\<not> br" by linarith
      then show ?thesis
      proof cases
        case 1
        then show ?thesis using at Cons.IH [of "ip + of_nat n + rel"] Cons.IH [of "ip + of_nat n"]
          by (cases b) (auto intro: walks_taken walks_not_taken)
      next
        case 2
        then show ?thesis using at walks_indirect [of code ip n rel "b # bs"] by auto
      next
        case 3
        then have "rank (ip + of_nat n + rel) < rank ip" using assms [OF at] by auto
        then show ?thesis using less at 3 walks_jump [of code ip n rel "b # bs"] by auto blast
      next
        case 4
        then have "rank (ip + of_nat n) < rank ip" using assms [OF at] by auto
        then show ?thesis using less at 4 walks_next [of code ip n c rel "b # bs"] by auto blast
      qed
    qed
  qed
qed

lemma walks_stuck:
  assumes "walks code ip bs pcs ip' bs'" and "code ip = Some (n, True, False, rel)" and "rel \<noteq> 0" and "1 < n"
    and "of_nat n + rel = 0"
  shows "bs = []"
  using assms by (induction rule: walks.induct) (auto simp: add.assoc)

lemma load_tnt_payload:
  assumes "length bs < 64" and "bs \<noteq> []" and "pt_text d \<noteq> []" and "pt_ip d \<noteq> 0"
  shows "load_tnt (tnt_payload bs) d =
    walk_tnt (d\<lparr>tnt_bits := tnt_payload bs AND (push_bit (length bs) 1 - 1), tnt_count := length bs\<rparr>)"
proof -
  have "bit (tnt_payload bs) (length bs)" using bit_tnt_payload [OF assms(1)] by blast
  then have "tnt_payload bs \<noteq> 0" by auto
  then show ?thesis using assms by (simp add: load_tnt_def leading_zeros_payload Let_def)
qed

lemma kaslr_fix_tnt: "kaslr_fix (d\<lparr>tnt_bits := b, tnt_count := n\<rparr>) = (kaslr_fix d)\<lparr>tnt_bits := b, tnt_count := n\<rparr>"
  by (cases d) (simp add: kaslr_fix_def in_text_def Let_def)

lemma kaslr_fix_same [simp]: "pt_ip (kaslr_fix d) = pt_ip d" "text_ok (kaslr_fix d) = text_ok d"
  by (simp_all add: kaslr_fix_def text_ok_def Let_def)

section \<open>Properties\<close>

text \<open>C30. A TNT packet is executed against the kernel text: the payload built from a list of up to 63 outcomes (the stop bit
  above them) makes the decoder, after the one-shot address randomisation correction, follow exactly the big-step walk of
  that list - it returns if and only if the walk has an end, and then it has appended the kernel addresses among the
  branch targets passed, in order, and keeps the outcomes not used.\<close>

theorem load_tnt_walks:
  assumes "length bs < 64" and "bs \<noteq> []" and "pt_text d \<noteq> []" and "pt_ip d \<noteq> 0" and "text_ok d"
  shows "load_tnt (tnt_payload bs) d = Some d' \<longleftrightarrow>
    (\<exists>pcs ip' bs'. walks (insn_at (kaslr_fix d)) (pt_ip d) bs pcs ip' bs' \<and>
       d' = walked ((kaslr_fix d)\<lparr>tnt_bits := tnt_payload bs AND (push_bit (length bs) 1 - 1)\<rparr>) pcs ip' bs')"
proof -
  let ?e = "(kaslr_fix d)\<lparr>tnt_bits := tnt_payload bs AND (push_bit (length bs) 1 - 1), tnt_count := length bs\<rparr>"
  have load: "load_tnt (tnt_payload bs) d = tnt_loop ?e"
    using load_tnt_payload [OF assms(1-4)] by (simp add: walk_tnt_def kaslr_fix_tnt)
  have e: "text_ok ?e" "insn_at ?e = insn_at (kaslr_fix d)" "outcomes ?e = bs" "pt_ip ?e = pt_ip d"
    using assms(5) pending_payload [OF assms(1)] by simp_all
  have w: "walked ?e = walked ((kaslr_fix d)\<lparr>tnt_bits := tnt_payload bs AND (push_bit (length bs) 1 - 1)\<rparr>)"
    by (simp add: walked_cong fun_eq_iff)
  show ?thesis unfolding load using tnt_loop_sound [of ?e d'] tnt_loop_complete [of ?e _ _ _] e w by metis
qed

abbreviation walk_sample :: "bytes \<Rightarrow> pt" where
  "walk_sample code \<equiv> (pt_new code 0xffffffff81000000 (length code) [])\<lparr>pt_ip := 0xffffffff81000000\<rparr>"

lemma walk_sample_insn:
  "insn_at (kaslr_fix (walk_sample [0x74, 0x02, 0x90, 0x90, 0xc3])) 0xffffffff81000000 = Some (2, True, True, 2)"
  by (simp add: insn_at_def kaslr_fix_def in_text_def pt_new_def is_kernel_def decode_insn_def is_prefix_def decode_op_def
      short_branch_def rel8_def)

theorem load_tnt_walks_witness:
  "map_option (\<lambda>d. (pt_ip d, tnt_count d, pc_count d)) (load_tnt (tnt_payload [True]) (walk_sample [0x74, 0x02, 0x90, 0x90, 0xc3])) =
   Some (0xffffffff81000004, 0, 1)"
proof -
  let ?d = "walk_sample [0x74, 0x02, 0x90, 0x90, 0xc3]"
  have "walks (insn_at (kaslr_fix ?d)) 0xffffffff81000000 [True] [0xffffffff81000004] 0xffffffff81000004 []"
    using walks_taken [of "insn_at (kaslr_fix ?d)" "0xffffffff81000000" 2 2] walk_sample_insn walks_done by simp
  then have "load_tnt (tnt_payload [True]) ?d =
    Some (walked ((kaslr_fix ?d)\<lparr>tnt_bits := tnt_payload [True] AND (push_bit (length [True]) 1 - 1)\<rparr>) [0xffffffff81000004] 0xffffffff81000004 [])"
    by (subst load_tnt_walks) (auto simp: pt_new_def text_ok_def)
  then show ?thesis by (simp add: walked_def is_kernel_def kaslr_fix_def in_text_def pt_new_def)
qed

text \<open>C36. The walk need not return: at a jump to itself (an unconditional direct branch whose displacement undoes its
  length, such as \<^verbatim>\<open>eb fe\<close>) with an outcome pending it never leaves the loop.\<close>

theorem walk_self_jump_diverges:
  assumes "text_ok d" and "0 < tnt_count d" and "insn_at d (pt_ip d) = Some (n, True, False, rel)" and "1 < n" and "rel \<noteq> 0"
    and "of_nat n + rel = 0"
  shows "tnt_loop d = None"
proof (cases "tnt_loop d")
  case (Some d')
  then obtain pcs ip' bs' where "walks (insn_at d) (pt_ip d) (outcomes d) pcs ip' bs'"
    using tnt_loop_sound [OF Some] assms(1) by blast
  then have "outcomes d = []" using assms(3-6) walks_stuck by blast
  then show ?thesis using assms(2) by simp
qed

theorem walk_self_jump_diverges_witness:
  "tnt_loop ((walk_sample [0xeb, 0xfe])\<lparr>tnt_count := 1\<rparr>) = None"
proof (rule walk_self_jump_diverges [where n = 2 and rel = "- 2"])
  show "insn_at ((walk_sample [0xeb, 0xfe])\<lparr>tnt_count := 1\<rparr>) (pt_ip ((walk_sample [0xeb, 0xfe])\<lparr>tnt_count := 1\<rparr>)) = Some (2, True, False, - 2)"
    by (simp add: insn_at_def in_text_def pt_new_def decode_insn_def is_prefix_def decode_op_def short_branch_def rel8_def)
qed (simp_all add: text_ok_def pt_new_def)

text \<open>C35. A walk returns whenever the text has no cycle free of conditional branches: if some rank falls along every
  instruction that is not a branch and every direct jump or call, then the loop ends for every number of pending
  outcomes.\<close>

theorem tnt_loop_returns:
  fixes rank :: "u64 \<Rightarrow> nat"
  assumes "text_ok d"
    and "\<And>ip n br c rel. insn_at d ip = Some (n, br, c, rel) \<Longrightarrow> \<not> (br \<and> c) \<Longrightarrow> br \<longrightarrow> rel \<noteq> 0 \<and> 1 < n \<Longrightarrow>
      rank (ip + of_nat n + (if br then rel else 0)) < rank ip"
  shows "\<exists>d'. tnt_loop d = Some d'"
proof -
  have "\<exists>pcs ip' bs'. walks (insn_at d) (pt_ip d) (outcomes d) pcs ip' bs'"
    by (rule walks_exists [of "insn_at d" rank]) (rule assms(2))
  then show ?thesis using tnt_loop_complete [OF _ assms(1)] by blast
qed

theorem tnt_loop_returns_witness: "\<exists>d'. tnt_loop ((walk_sample [0x90])\<lparr>tnt_count := 1\<rparr>) = Some d'"
proof (rule tnt_loop_returns [where rank = "\<lambda>ip. if ip = 0xffffffff81000000 then 1 else 0"])
  fix ip n br c rel
  let ?d = "(walk_sample [0x90])\<lparr>tnt_count := 1\<rparr>"
  assume i: "insn_at ?d ip = Some (n, br, c, rel)"
  then have "unat (ip - 0xffffffff81000000) = 0" by (simp add: insn_at_def pt_new_def Let_def split: if_splits)
  then have ip: "ip = 0xffffffff81000000" by (simp add: unat_eq_zero)
  have "insn_at ?d 0xffffffff81000000 = Some (1, False, False, 0)"
    by (simp add: insn_at_def in_text_def pt_new_def decode_insn_def is_prefix_def decode_op_def)
  then have "n = 1" "\<not> br" using i unfolding ip by simp_all
  then show "(if ip + of_nat n + (if br then rel else 0) = 0xffffffff81000000 then 1 else 0) < (if ip = 0xffffffff81000000 then 1 else (0 :: nat))"
    using ip by simp
qed (simp add: text_ok_def pt_new_def)

end
