(* ===== verification/Hw_Engine.thy ===== *)
theory Hw_Engine
  imports Pt_Walk
begin

text \<open>
  What the hardware engine (\<^verbatim>\<open>mode/engine.rs\<close>) does around the packet decoders: reading the \<^verbatim>\<open>.text\<close>
  section out of \<^verbatim>\<open>vmlinux\<close>, choosing the decoder for an Intel PT trace, and draining and merging the sample rings of
  AMD branch records. Offsets that are computed from file contents are 64-bit words, so their sums wrap as in the source;
  an index out of range is a panic, \<open>None\<close>. The mappings of the perf rings are byte lists, and a read past their end is
  \<open>None\<close> as well.
\<close>

unbundle bit_operations_syntax

section \<open>The kernel image\<close>

text \<open>\<open>k\<close> bytes from the offset \<open>p\<close>, indexed one by one.\<close>

definition rd :: "bytes \<Rightarrow> nat \<Rightarrow> u64 \<Rightarrow> bytes option" where
  "rd m k p = those (map (\<lambda>i. nth_opt m (unat (p + of_nat i))) [0..<k])"

definition rd_word :: "bytes \<Rightarrow> nat \<Rightarrow> u64 \<Rightarrow> u64 option" where
  "rd_word m k p = map_option word_of_le (rd m k p)"

definition section_name_is :: "bytes \<Rightarrow> u64 \<Rightarrow> bytes \<Rightarrow> bool option" where
  "section_name_is m p want =
     (let e = p + of_nat (length want)
      in if length m \<le> unat e then Some False
         else map_option (\<lambda>s. s = want \<and> m ! unat e = 0) (slice_get m (unat p) (unat e)))"

record elf_head =
  e_shoff :: u64
  e_shentsize :: u64
  e_shnum :: nat
  shstr_off :: u64

definition shdr :: "elf_head \<Rightarrow> nat \<Rightarrow> u64" where
  "shdr h i = e_shoff h + of_nat i * e_shentsize h"

type_synonym ktext = "bytes \<times> u64 \<times> nat"

text \<open>The section taken once its name matches.\<close>

definition take_section :: "bytes \<Rightarrow> u64 \<Rightarrow> ktext option option" where
  "take_section m b =
     do { sh_addr \<leftarrow> rd_word m 8 (b + 0x10);
          sh_offset \<leftarrow> rd_word m 8 (b + 0x18);
          sh_size \<leftarrow> rd_word m 8 (b + 0x20);
          if of_nat (length m) < sh_offset + sh_size then Some None
          else do { t \<leftarrow> slice_get m (unat sh_offset) (unat (sh_offset + sh_size));
                    Some (Some (t, sh_addr, unat sh_size)) } }"

fun text_loop :: "bytes \<Rightarrow> elf_head \<Rightarrow> nat list \<Rightarrow> ktext option option" where
  "text_loop m h [] = Some None"
| "text_loop m h (i # is) =
     (let b = shdr h i
      in if of_nat (length m) < b + 0x28 then Some None
         else do { sh_name \<leftarrow> rd_word m 4 b;
                   hit \<leftarrow> section_name_is m (shstr_off h + sh_name) (lit ''.text'');
                   if hit then take_section m b else text_loop m h is })"

text \<open>\<open>None\<close> is a panic, \<open>Some None\<close> the failure the caller handles.\<close>

definition load_vmlinux_text :: "bytes option \<Rightarrow> ktext option option" where
  "load_vmlinux_text file =
     (case file of
        None \<Rightarrow> Some None
      | Some m \<Rightarrow>
          if length m < 64 then Some None
          else do { shoff \<leftarrow> rd_word m 8 0x28;
                    shentsize \<leftarrow> rd_word m 2 0x3a;
                    shnum \<leftarrow> rd_word m 2 0x3c;
                    shstrndx \<leftarrow> rd_word m 2 0x3e;
                    if shentsize = 0 \<or> shoff = 0 then Some None
                    else if shnum \<le> shstrndx then Some None
                    else do { so \<leftarrow> rd_word m 8 (shoff + shstrndx * shentsize + 0x18);
                              text_loop m \<lparr>e_shoff = shoff, e_shentsize = shentsize, e_shnum = unat shnum, shstr_off = so\<rparr>
                                [0..<unat shnum] } })"

section \<open>Decoding an Intel PT buffer\<close>

text \<open>\<open>aux\<close> is the AUX mapping (\<open>None\<close> when it failed), \<open>aux_head\<close> the kernel's write position, \<open>vmlinux\<close> the option with
  what reading the file returned. The result is the log and the count; \<open>Some None\<close> when nothing is written.\<close>

definition intel_pt_decode :: "bytes option \<Rightarrow> u64 \<Rightarrow> bytes option option \<Rightarrow> (str \<times> u32) option option" where
  "intel_pt_decode aux aux_head vmlinux =
     (case aux of
        None \<Rightarrow> Some None
      | Some buf \<Rightarrow>
          (let len = (if length buf < unat aux_head then length buf else unat aux_head)
           in if len = 0 then Some None
              else let data = take len buf; tip = (let (n, out) = tip_only_decode data [] in Some (Some (out, n)))
                   in case vmlinux of
                        None \<Rightarrow> tip
                      | Some file \<Rightarrow>
                          (case load_vmlinux_text file of
                             None \<Rightarrow> None
                           | Some None \<Rightarrow> tip
                           | Some (Some (text, vaddr, sz)) \<Rightarrow>
                               map_option (\<lambda>d. Some (pt_out d, pc_count d)) (pt_run (pt_new text vaddr sz data)))))"

section \<open>AMD branch samples\<close>

definition rec_sample :: u64 where
  "rec_sample = 9"

type_synonym sample = "u64 \<times> u64 list"

text \<open>A little-endian read of the data area of a ring, \<open>None\<close> past the end of the mapping.\<close>

definition ring_rd :: "bytes \<Rightarrow> nat \<Rightarrow> nat \<Rightarrow> u64 option" where
  "ring_rd ring k p = map_option word_of_le (slice_get ring p (p + k))"

definition kernel_half :: "u64 \<Rightarrow> bool" where
  "kernel_half pc \<longleftrightarrow> 0xffff800000000000 \<le> pc"

fun read_branches :: "bytes \<Rightarrow> nat \<Rightarrow> nat \<Rightarrow> (u64 \<times> u64) list option" where
  "read_branches ring p 0 = Some []"
| "read_branches ring p (Suc n) =
     do { src \<leftarrow> ring_rd ring 8 p;
          dst \<leftarrow> ring_rd ring 8 (p + 8);
          bs \<leftarrow> read_branches ring (p + 24) n;
          Some ((src, dst) # bs) }"

definition branch_pcs :: "(u64 \<times> u64) list \<Rightarrow> u64 list" where
  "branch_pcs bs = concat (map (\<lambda>(src, dst). filter kernel_half [src, dst]) (rev bs))"

definition read_sample :: "bytes \<Rightarrow> nat \<Rightarrow> u64 \<Rightarrow> sample option" where
  "read_sample ring p ev_size =
     do { ip \<leftarrow> ring_rd ring 8 (p + 8);
          time \<leftarrow> ring_rd ring 8 (p + 16);
          pcs \<leftarrow> (if 32 < ev_size
                  then do { nr \<leftarrow> ring_rd ring 8 (p + 24);
                            bs \<leftarrow> read_branches ring (p + 32) (unat (min nr 32));
                            Some (branch_pcs bs) }
                  else Some []);
          Some (time, pcs @ filter kernel_half [ip]) }"

text \<open>The record at the tail: its size and the sample it adds, if any.\<close>

definition read_record :: "bytes \<Rightarrow> nat \<Rightarrow> (u64 \<times> sample list) option" where
  "read_record ring p =
     do { ev_type \<leftarrow> ring_rd ring 4 p;
          ev_size \<leftarrow> ring_rd ring 2 (p + 6);
          if ev_type = rec_sample \<and> 24 \<le> ev_size
          then do { s \<leftarrow> read_sample ring p ev_size;
                    Some (ev_size, if snd s \<noteq> [] then [s] else []) }
          else Some (ev_size, []) }"

text \<open>The loop: \<open>None\<close> when it does not end, \<open>Some None\<close> on a read past the mapping.\<close>

partial_function (option) drain_loop :: "bytes \<Rightarrow> u64 \<Rightarrow> u64 \<Rightarrow> sample list \<Rightarrow> sample list option option" where
  "drain_loop ring head tail samples =
     (if tail < head
      then case read_record ring (unat (tail mod of_nat (length ring))) of
             None \<Rightarrow> Some None
           | Some (ev_size, s) \<Rightarrow> drain_loop ring head (tail + ev_size) (samples @ s)
      else Some (Some samples))"

record perf_ring =
  data_head :: u64
  data_tail :: u64
  ring_data :: bytes

definition drain_sample_ring :: "perf_ring \<Rightarrow> sample list \<Rightarrow> (perf_ring \<times> sample list) option option" where
  "drain_sample_ring r samples =
     map_option (map_option (\<lambda>s. (r\<lparr>data_tail := data_head r\<rparr>, s))) (drain_loop (ring_data r) (data_head r) (data_tail r) samples)"

text \<open>The log of the two rings; \<open>ibs\<close> is \<open>None\<close> when that event could not be opened.\<close>

definition samples_log :: "sample list \<Rightarrow> str \<times> u32" where
  "samples_log samples =
     (let pcs = concat (map snd (sort_key fst samples)) in (concat (map pc_line pcs), of_nat (length pcs)))"

definition amd_lbr_decode :: "perf_ring \<Rightarrow> perf_ring option \<Rightarrow> (str \<times> u32) option option" where
  "amd_lbr_decode main ibs =
     (case drain_sample_ring main [] of
        None \<Rightarrow> None
      | Some None \<Rightarrow> Some None
      | Some (Some (_, s)) \<Rightarrow>
          (case ibs of
             None \<Rightarrow> Some (Some (samples_log s))
           | Some r \<Rightarrow> map_option (map_option (\<lambda>(_, s). samples_log s)) (drain_sample_ring r s)))"

section \<open>Loading the text\<close>

lemma take_section_Some:
  assumes "take_section m b = Some (Some (t, a, n))"
  obtains off where "rd_word m 8 (b + 0x10) = Some a" and "rd_word m 8 (b + 0x18) = Some off"
    and "rd_word m 8 (b + 0x20) = Some (of_nat n)" and "length t = n" and "t = take n (drop (unat off) m)"
proof -
  obtain off sz where r: "rd_word m 8 (b + 0x10) = Some a" "rd_word m 8 (b + 0x18) = Some off" "rd_word m 8 (b + 0x20) = Some sz"
    and t: "slice_get m (unat off) (unat (off + sz)) = Some t" and n: "n = unat sz"
    using assms by (auto simp: take_section_def Option.bind_eq_Some_conv split: if_splits)
  have le: "unat off \<le> unat (off + sz)" using t by simp
  then have "off \<le> off + sz" by (simp only: word_le_nat_alt)
  then have "unat (off + sz) = unat off + unat sz" by (simp only: unat_plus_simple)
  then show thesis using t r n that by (auto simp: slice_get_def split: if_splits)
qed

lemma text_loop_Some: "text_loop m h is = Some (Some r) \<Longrightarrow> \<exists>i. take_section m (shdr h i) = Some (Some r)"
  by (induction "is") (auto simp: Let_def Option.bind_eq_Some_conv split: if_splits)

text \<open>Whatever the file, the size reported is the number of bytes returned, as the trace walker relies on.\<close>

lemma load_vmlinux_text_ok:
  assumes "load_vmlinux_text (Some m) = Some (Some (t, a, n))"
  shows "text_ok (pt_new t a n trace)"
proof -
  obtain b where "take_section m b = Some (Some (t, a, n))"
    using assms text_loop_Some by (fastforce simp: load_vmlinux_text_def Option.bind_eq_Some_conv split: if_splits)
  then show ?thesis by (rule take_section_Some) (simp add: text_ok_def pt_new_def)
qed

text \<open>The ELF64 format: \<open>holds m p bs\<close> says that the bytes \<open>bs\<close> stand at \<open>p\<close>, \<open>es_enc\<close> is the start of an
  \<^verbatim>\<open>Elf64_Shdr\<close> and \<open>elf64\<close> an image whose section table lists \<open>secs\<close>.\<close>

definition holds :: "bytes \<Rightarrow> nat \<Rightarrow> bytes \<Rightarrow> bool" where
  "holds m p bs \<longleftrightarrow> p + length bs \<le> length m \<and> take (length bs) (drop p m) = bs"

record elf_sec =
  es_name :: u32
  es_type :: u32
  es_flags :: u64
  es_addr :: u64
  es_offset :: u64
  es_size :: u64

definition es_enc :: "elf_sec \<Rightarrow> bytes" where
  "es_enc s = le_of_word 4 (es_name s) @ le_of_word 4 (es_type s) @ le_of_word 8 (es_flags s) @
     le_of_word 8 (es_addr s) @ le_of_word 8 (es_offset s) @ le_of_word 8 (es_size s)"

definition elf64 :: "bytes \<Rightarrow> u64 \<Rightarrow> u16 \<Rightarrow> u16 \<Rightarrow> elf_sec list \<Rightarrow> bool" where
  "elf64 m shoff ent ndx secs \<longleftrightarrow>
     length m < 2 ^ 63 \<and> 64 \<le> length m \<and> holds m 0x28 (le_of_word 8 shoff) \<and> holds m 0x3a (le_of_word 2 ent) \<and>
     holds m 0x3c (le_of_word 2 (of_nat (length secs) :: u16)) \<and> holds m 0x3e (le_of_word 2 ndx) \<and>
     shoff \<noteq> 0 \<and> ent \<noteq> 0 \<and> length secs < 2 ^ 16 \<and> unat ndx < length secs \<and>
     (\<forall>i < length secs. holds m (unat shoff + i * unat ent) (es_enc (secs ! i))) \<and>
     unat (es_offset (secs ! unat ndx)) \<le> length m \<and> (\<forall>s \<in> set secs. unat (es_offset s) + unat (es_size s) < 2 ^ 64)"

text \<open>The name of a section: a NUL-terminated string in the section the header names as string table.\<close>

definition sec_named :: "bytes \<Rightarrow> u16 \<Rightarrow> elf_sec list \<Rightarrow> bytes \<Rightarrow> elf_sec \<Rightarrow> bool" where
  "sec_named m ndx secs nm s = holds m (unat (es_offset (secs ! unat ndx)) + unat (es_name s)) (nm @ [0])"

lemma those_nth_opt:
  assumes "p + k \<le> length (m :: bytes)"
  shows "those (map (\<lambda>i. nth_opt m (p + i)) [0..<k]) = Some (take k (drop p m))"
proof -
  have "map (\<lambda>i. nth_opt m (p + i)) [0..<k] = map Some (take k (drop p m))"
    using assms by (intro nth_equalityI) (simp_all add: nth_opt_def)
  moreover have "those (map Some ys) = Some ys" for ys :: bytes by (induction ys) simp_all
  ultimately show ?thesis by simp
qed

lemma rd_word_take:
  assumes "unat p + k \<le> length m" and "length m < 2 ^ 63"
  shows "rd_word m k p = Some (word_of_le (take k (drop (unat p) m)))"
proof -
  have "map (\<lambda>i. nth_opt m (unat (p + of_nat i))) [0..<k] = map (\<lambda>i. nth_opt m (unat p + i)) [0..<k]"
  proof (intro map_cong refl)
    fix i assume "i \<in> set [0..<k]"
    then have "unat p + i < 2 ^ 64" using assms by simp
    then have "unat (p + of_nat i) = unat p + i" by (simp add: unat_word_ariths unat_of_nat)
    then show "nth_opt m (unat (p + of_nat i)) = nth_opt m (unat p + i)" by simp
  qed
  then show ?thesis unfolding rd_word_def rd_def by (simp only: those_nth_opt [OF assms(1)] option.map)
qed

lemma word_of_le_ucast:
  fixes w :: "'a::len word"
  assumes "LENGTH('a) \<le> 8 * n"
  shows "word_of_le (le_of_word n w) = (ucast w :: 'b::len word)"
proof (rule bit_word_eqI)
  fix k
  assume k: "k < LENGTH('b)"
  show "bit (word_of_le (le_of_word n w) :: 'b word) k = bit (ucast w :: 'b word) k"
  proof (cases "k div 8 < n")
    case True
    then show ?thesis using k by (simp add: bit_word_of_le le_of_word_def bit_simps)
  next
    case False
    then have "LENGTH('a) \<le> k" using assms by (simp add: div_less_iff_less_mult)
    then show ?thesis using False by (auto simp: bit_word_of_le bit_simps dest: bit_imp_le_length)
  qed
qed

lemma holds_part:
  assumes "holds m p (xs @ ys @ zs)"
  shows "holds m (p + length xs) ys"
proof -
  have "ys = take (length ys) (drop (length xs) (take (length (xs @ ys @ zs)) (drop p m)))" using assms by (simp add: holds_def)
  then have "take (length ys) (drop (p + length xs) m) = ys" by (simp add: drop_take min_def add.commute)
  then show ?thesis using assms by (simp add: holds_def)
qed

lemma rd_word_holds:
  assumes "holds m (unat p) (le_of_word n (w :: 'a::len word))" and "length m < 2 ^ 63" and "LENGTH('a) \<le> 8 * n"
  shows "rd_word m n p = Some (ucast w)"
  using assms rd_word_take [of p n m] by (simp add: holds_def word_of_le_ucast)

lemma section_name_is_holds:
  assumes "unat p + 5 < 2 ^ 64" and "length want = 5"
  shows "section_name_is m p want = Some (holds m (unat p) (want @ [0]))"
proof -
  have e: "unat (p + 5) = unat p + 5" using assms(1) by (simp add: unat_word_ariths)
  have "take 6 (drop (unat p) m) = take 5 (drop (unat p) m) @ [m ! (unat p + 5)]" if "unat p + 5 < length m"
    using that take_Suc_conv_app_nth [of 5 "drop (unat p) m"] by simp
  then show ?thesis using assms(2) by (auto simp: section_name_is_def e slice_get_def holds_def Let_def)
qed

lemma es_enc_parts:
  assumes "holds m b (es_enc s)"
  shows "holds m b (le_of_word 4 (es_name s))" and "holds m (b + 0x10) (le_of_word 8 (es_addr s))"
    and "holds m (b + 0x18) (le_of_word 8 (es_offset s))" and "holds m (b + 0x20) (le_of_word 8 (es_size s))"
    and "b + 0x28 \<le> length m"
proof -
  let ?a = "le_of_word 4 (es_name s) @ le_of_word 4 (es_type s) @ le_of_word 8 (es_flags s)"
  show "holds m b (le_of_word 4 (es_name s))" using holds_part [of m b "[]"] assms by (simp add: es_enc_def)
  show "holds m (b + 0x10) (le_of_word 8 (es_addr s))" using holds_part [of m b ?a] assms by (simp add: es_enc_def)
  show "holds m (b + 0x18) (le_of_word 8 (es_offset s))"
    using holds_part [of m b "?a @ le_of_word 8 (es_addr s)"] assms by (simp add: es_enc_def)
  show "holds m (b + 0x20) (le_of_word 8 (es_size s))"
    using holds_part [of m b "?a @ le_of_word 8 (es_addr s) @ le_of_word 8 (es_offset s)" _ "[]"] assms by (simp add: es_enc_def)
  show "b + 0x28 \<le> length m" using assms by (simp add: es_enc_def holds_def)
qed

text \<open>The fields of a section header, read at the address the loader computes.\<close>

lemma rd_es_enc:
  assumes "holds m (unat b) (es_enc s)" and "length m < 2 ^ 63"
  shows "rd_word m 4 b = Some (ucast (es_name s))" and "rd_word m 8 (b + 0x10) = Some (es_addr s)"
    and "rd_word m 8 (b + 0x18) = Some (es_offset s)" and "rd_word m 8 (b + 0x20) = Some (es_size s)"
    and "\<not> of_nat (length m) < b + 0x28"
proof -
  note parts = es_enc_parts [OF assms(1)]
  have at: "unat (b + k) = unat b + unat k" if "unat k \<le> 0x28" for k :: u64
    using that parts(5) assms(2) by (simp add: unat_word_ariths)
  have u: "unat (b + 0x10) = unat b + 0x10" "unat (b + 0x18) = unat b + 0x18" "unat (b + 0x20) = unat b + 0x20"
    "unat (b + 0x28) = unat b + 0x28" by (simp_all add: at)
  show "rd_word m 4 b = Some (ucast (es_name s))" by (rule rd_word_holds) (use parts assms in simp_all)
  show "rd_word m 8 (b + 0x10) = Some (es_addr s)" using rd_word_holds [of m "b + 0x10" 8 "es_addr s"] parts assms(2) u by simp
  show "rd_word m 8 (b + 0x18) = Some (es_offset s)" using rd_word_holds [of m "b + 0x18" 8 "es_offset s"] parts assms(2) u by simp
  show "rd_word m 8 (b + 0x20) = Some (es_size s)" using rd_word_holds [of m "b + 0x20" 8 "es_size s"] parts assms(2) u by simp
  show "\<not> of_nat (length m) < b + 0x28" using parts(5) assms(2) u by (simp add: word_less_nat_alt unat_of_nat)
qed

text \<open>What the loader makes of the section it found.\<close>

definition sec_text :: "bytes \<Rightarrow> elf_sec \<Rightarrow> ktext option" where
  "sec_text m s = (if unat (es_offset s) + unat (es_size s) \<le> length m
     then Some (take (unat (es_size s)) (drop (unat (es_offset s)) m), es_addr s, unat (es_size s)) else None)"

lemma take_section_holds:
  assumes "holds m (unat b) (es_enc s)" and "length m < 2 ^ 63" and "unat (es_offset s) + unat (es_size s) < 2 ^ 64"
  shows "take_section m b = Some (sec_text m s)"
proof -
  have "unat (es_offset s + es_size s) = unat (es_offset s) + unat (es_size s)" using assms(3) by (simp add: unat_word_ariths)
  then show ?thesis using assms(2)
    by (auto simp: take_section_def rd_es_enc [OF assms(1,2)] sec_text_def slice_get_def word_less_nat_alt unat_of_nat)
qed

lemma unat_shdr:
  assumes "elf64 m shoff ent ndx secs" and "e_shoff h = shoff" and "e_shentsize h = ucast ent" and "i < length secs"
  shows "unat (shdr h i) = unat shoff + i * unat ent"
proof -
  have "holds m (unat shoff + i * unat ent) (es_enc (secs ! i))" and "length m < 2 ^ 63" using assms by (auto simp: elf64_def)
  then have lt: "unat shoff + i * unat ent < 2 ^ 64" using es_enc_parts(5) by fastforce
  have "shdr h i = of_nat (unat shoff + i * unat ent)" by (simp add: shdr_def assms(2,3))
  then show ?thesis using lt by (simp only: unat_of_nat) simp
qed

lemma text_loop_elf:
  assumes e: "elf64 m shoff ent ndx secs" and h: "e_shoff h = shoff" "e_shentsize h = ucast ent"
    "shstr_off h = es_offset (secs ! unat ndx)" and "k \<le> length secs"
  shows "text_loop m h [k..<length secs] =
    Some (Option.bind (find (sec_named m ndx secs (lit ''.text'')) (drop k secs)) (sec_text m))"
  using assms(5)
proof (induction k rule: inc_induct)
  case (step k)
  let ?s = "secs ! k"
  have m: "length m < 2 ^ 63" and o: "unat (shstr_off h) \<le> length m" using e h by (simp_all add: elf64_def)
  have b: "holds m (unat (shdr h k)) (es_enc ?s)" using e unat_shdr [OF e h(1,2) step(2)] step(2) by (simp add: elf64_def)
  have sz: "unat (es_offset ?s) + unat (es_size ?s) < 2 ^ 64" using e step(2) by (simp add: elf64_def)
  have "unat (es_name ?s) < 2 ^ 32" using unsigned_less [where 'a = nat and 'b = 32] by simp
  then have p: "unat (shstr_off h + ucast (es_name ?s)) = unat (shstr_off h) + unat (es_name ?s)"
    and "unat (shstr_off h + ucast (es_name ?s)) + 5 < 2 ^ 64"
    using o m by (simp_all add: unat_word_ariths unat_ucast_up)
  then have "section_name_is m (shstr_off h + ucast (es_name ?s)) (lit ''.text'') = Some (sec_named m ndx secs (lit ''.text'') ?s)"
    using section_name_is_holds by (simp add: sec_named_def h lit_def)
  then show ?case using step rd_es_enc [OF b m] take_section_holds [OF b m sz]
    by (simp add: upt_conv_Cons Cons_nth_drop_Suc [symmetric] Let_def)
qed simp

section \<open>The log\<close>

text \<open>\<open>kernel_log out n\<close>: the text is one line per kernel address, and \<open>n\<close> counts them.\<close>

definition kernel_log :: "str \<Rightarrow> u32 \<Rightarrow> bool" where
  "kernel_log out n \<longleftrightarrow> (\<exists>pcs. list_all is_kernel pcs \<and> out = concat (map pc_line pcs) \<and> n = of_nat (length pcs))"

abbreviation pt_log :: "pt \<Rightarrow> bool" where
  "pt_log d \<equiv> kernel_log (pt_out d) (pc_count d)"

lemma kernel_log_Nil: "kernel_log [] 0"
  unfolding kernel_log_def by (intro exI [of _ "[]"]) simp

lemma kernel_log_snoc:
  assumes "kernel_log out n" and "is_kernel ip"
  shows "kernel_log (out @ pc_line ip) (n + 1)"
proof -
  obtain pcs where "list_all is_kernel pcs" "out = concat (map pc_line pcs)" "n = of_nat (length pcs)"
    using assms(1) by (auto simp: kernel_log_def)
  then show ?thesis using assms(2) unfolding kernel_log_def by (intro exI [of _ "pcs @ [ip]"]) simp
qed

lemma emit_ip_log: "pt_log d \<Longrightarrow> pt_log (emit_ip ip d)"
  by (simp add: emit_ip_def kernel_log_snoc)

lemma walk_step_log:
  assumes "walk_step d = Some e" and "pt_log d"
  shows "pt_log e"
proof -
  have "\<exists>ip f. (e = f \<or> e = emit_ip ip f) \<and> pt_out f = pt_out d \<and> pc_count f = pc_count d"
    using assms(1) unfolding walk_step_def Let_def by (force split: if_splits prod.splits)
  then show ?thesis using assms(2) emit_ip_log by metis
qed

lemma tnt_loop_log:
  assumes "tnt_loop d = Some d'"
  shows "pt_log d \<longrightarrow> pt_log d'"
proof (rule tnt_loop.raw_induct [OF _ assms], rule impI)
  fix f d d'
  assume IH: "\<And>e e'. f e = Some e' \<Longrightarrow> pt_log e \<longrightarrow> pt_log e'"
    and d: "(case walk_step d of None \<Rightarrow> Some d | Some e \<Rightarrow> f e) = Some d'" and l: "pt_log d"
  show "pt_log d'"
  proof (cases "walk_step d")
    case None
    then show ?thesis using d l by simp
  next
    case (Some e)
    then show ?thesis using IH [of e d'] d walk_step_log [OF Some l] by simp
  qed
qed

lemma walk_tnt_log: "walk_tnt d = Some d' \<Longrightarrow> pt_log d \<Longrightarrow> pt_log d'"
  using tnt_loop_log [of "kaslr_fix d" d'] by (simp add: walk_tnt_def kaslr_fix_def Let_def split: if_splits)

lemma load_tnt_log: "load_tnt payload d = Some d' \<Longrightarrow> pt_log d \<Longrightarrow> pt_log d'"
  by (auto simp: load_tnt_def Let_def dest: walk_tnt_log split: if_splits)

lemma run_ip_log:
  assumes "run_ip enc n d = Some (d', c)" and "pt_log d"
  shows "pt_log d'"
proof (cases "enc = 0 \<or> pt_read_ip enc (d\<lparr>pt_pos := pt_pos d + 1\<rparr>) = None")
  case False
  then obtain e where e: "pt_read_ip enc (d\<lparr>pt_pos := pt_pos d + 1\<rparr>) = Some e" by auto
  then have "pt_log e" using assms(2) by (auto simp: pt_read_ip_def Let_def split: if_splits)
  then have f: "pt_log (emit_ip (pt_ip e) e)" by (rule emit_ip_log)
  show ?thesis
  proof (cases "pt_text (emit_ip (pt_ip e) e) \<noteq> [] \<and> 0 < tnt_count (emit_ip (pt_ip e) e)")
    case True
    then have "walk_tnt (emit_ip (pt_ip e) e) = Some d'" using assms(1) False e by (auto simp: run_ip_def Let_def)
    then show ?thesis using f by (rule walk_tnt_log)
  next
    case no: False
    then have "d' = emit_ip (pt_ip e) e" using assms(1) False e by (auto simp: run_ip_def Let_def split: if_splits)
    then show ?thesis using f by simp
  qed
qed (use assms in \<open>auto simp: run_ip_def split: if_splits\<close>)

lemma run_step_log: "run_step d = Some (d', c) \<Longrightarrow> pt_log d \<Longrightarrow> pt_log d'"
  by (cases "pk_pkt (scan_packet (pt_trace d) (pt_pos d) (pt_block d))")
    (auto simp: run_step_def run_bad_def drop_tnt_def Let_def dest: load_tnt_log run_ip_log split: option.splits)

lemma run_loop_log: "run_loop d = Some d' \<Longrightarrow> pt_log d \<Longrightarrow> pt_log d'"
proof (induction d rule: run_loop.induct)
  case (1 d)
  then show ?case
    by (auto simp: run_loop.simps [of d] dest: run_step_log split: if_splits option.splits prod.splits)
qed

text \<open>Whatever the trace and the kernel image, every log the Intel PT engine writes is well formed: one line per address,
  each a kernel address, and the count it reports is the number of lines.\<close>

lemma intel_pt_log:
  assumes "intel_pt_decode aux aux_head vmlinux = Some (Some (out, n))"
  shows "kernel_log out n"
proof -
  have run: "pt_log d'" if "pt_run (pt_new code vaddr sz data) = Some d'" for code vaddr sz data d'
    using that run_loop_log by (auto simp: pt_run_def drop_tnt_def pt_new_def kernel_log_Nil)
  have tip: "kernel_log out n" if "tip_only_decode data [] = (n, out)" for data
  proof -
    have "same_view data (pt_new [] 0 0 data) (tip_init [])" by (simp add: same_view_def pt_new_def tip_init_def)
    then obtain d' where "run_loop (pt_new [] 0 0 data) = Some d'" "same_view data d' (tip_loop data (tip_init []))"
      using run_loop_no_text by blast
    then show ?thesis using that run_loop_log [of "pt_new [] 0 0 data" d']
      by (auto simp: tip_only_decode_def same_view_def pt_new_def kernel_log_Nil Let_def)
  qed
  show ?thesis using assms run tip
    by (auto simp: intel_pt_decode_def Let_def split: option.splits if_splits prod.splits)
qed

section \<open>Sample records\<close>

datatype perf_rec =
    P_other u32 u16 bytes
  | P_ip u16 u64 u64
  | P_lbr u16 u64 u64 "(u64 \<times> u64 \<times> u64) list"

fun rec_type :: "perf_rec \<Rightarrow> u32" where
  "rec_type (P_other ty misc body) = ty"
| "rec_type r = 9"

fun rec_misc :: "perf_rec \<Rightarrow> u16" where
  "rec_misc (P_other ty misc body) = misc"
| "rec_misc (P_ip misc ip time) = misc"
| "rec_misc (P_lbr misc ip time bs) = misc"

definition enc_branch_entry :: "u64 \<times> u64 \<times> u64 \<Rightarrow> bytes" where
  "enc_branch_entry = (\<lambda>(src, dst, flags). le_of_word 8 src @ le_of_word 8 dst @ le_of_word 8 flags)"

fun rec_body :: "perf_rec \<Rightarrow> bytes" where
  "rec_body (P_other ty misc body) = body"
| "rec_body (P_ip misc ip time) = le_of_word 8 ip @ le_of_word 8 time"
| "rec_body (P_lbr misc ip time bs) =
     le_of_word 8 ip @ le_of_word 8 time @ le_of_word 8 (of_nat (length bs) :: u64) @ concat (map enc_branch_entry bs)"

definition rec_size :: "perf_rec \<Rightarrow> nat" where
  "rec_size r = 8 + length (rec_body r)"

definition enc_rec :: "perf_rec \<Rightarrow> bytes" where
  "enc_rec r = le_of_word 4 (rec_type r) @ le_of_word 2 (rec_misc r) @ le_of_word 2 (of_nat (rec_size r) :: u16) @ rec_body r"

definition rec_ok :: "perf_rec \<Rightarrow> bool" where
  "rec_ok r \<longleftrightarrow> rec_size r < 65536 \<and> (case r of P_other ty misc body \<Rightarrow> ty \<noteq> 9 | _ \<Rightarrow> True)"

text \<open>The sample a record stands for: the branches oldest first (of more than 32, the 32 newest), then the sampled address.\<close>

fun rec_pcs :: "perf_rec \<Rightarrow> u64 list" where
  "rec_pcs (P_other ty misc body) = []"
| "rec_pcs (P_ip misc ip time) = filter kernel_half [ip]"
| "rec_pcs (P_lbr misc ip time bs) =
     filter kernel_half (concat (map (\<lambda>(src, dst, _). [src, dst]) (rev (take 32 bs))) @ [ip])"

fun rec_samples :: "perf_rec \<Rightarrow> sample list" where
  "rec_samples (P_other ty misc body) = []"
| "rec_samples (P_ip misc ip time) = (if rec_pcs (P_ip misc ip time) = [] then [] else [(time, rec_pcs (P_ip misc ip time))])"
| "rec_samples (P_lbr misc ip time bs) = (if rec_pcs (P_lbr misc ip time bs) = [] then [] else [(time, rec_pcs (P_lbr misc ip time bs))])"

lemma drop_past: "drop p xs = a @ b \<Longrightarrow> n = length a \<Longrightarrow> drop (p + n) xs = b"
  by (metis add.commute append_eq_conv_conj drop_drop)

lemma ring_rd_le: "drop p ring = a @ le_of_word k (w :: 'a::len word) @ r \<Longrightarrow> LENGTH('a) \<le> 8 * k \<Longrightarrow> n = p + length a \<Longrightarrow> ring_rd ring k n = Some (ucast w)"
proof -
  assume d: "drop p ring = a @ le_of_word k w @ r" and k: "LENGTH('a) \<le> 8 * k" and n: "n = p + length a"
  have e: "drop n ring = le_of_word k w @ r" unfolding n by (rule drop_past [OF d]) simp
  then have "k \<le> length ring - n" by (metis length_append length_drop length_le_of_word le_add1)
  then have "n + k \<le> length ring \<or> k = 0" by linarith
  moreover have "0 < k" using k by (cases k) auto
  ultimately show ?thesis using e k by (simp add: ring_rd_def slice_get_def word_of_le_ucast)
qed

lemma read_branches_enc:
  "drop p ring = concat (map enc_branch_entry bs) @ r \<Longrightarrow> read_branches ring p (min n (length bs)) = Some (map (\<lambda>(src, dst, _). (src, dst)) (take n bs))"
proof (induction bs arbitrary: p n)
  case (Cons b bs)
  obtain src dst flags where b: "b = (src, dst, flags)" by (cases b)
  show ?case
  proof (cases n)
    case (Suc m)
    have d: "drop p ring = le_of_word 8 src @ le_of_word 8 dst @ le_of_word 8 flags @ concat (map enc_branch_entry bs) @ r"
      using Cons.prems b by (simp add: enc_branch_entry_def)
    then have "drop (p + 24) ring = concat (map enc_branch_entry bs) @ r"
      using drop_past [of p ring "le_of_word 8 src @ le_of_word 8 dst @ le_of_word 8 flags"] by simp
    then have "read_branches ring (p + 24) (min m (length bs)) = Some (map (\<lambda>(src, dst, _). (src, dst)) (take m bs))" by (rule Cons.IH)
    moreover have "ring_rd ring 8 p = Some src" using ring_rd_le [of p ring "[]" 8 src] d by simp
    moreover have "ring_rd ring 8 (p + 8) = Some dst" using ring_rd_le [of p ring "le_of_word 8 src" 8 dst] d by simp
    ultimately show ?thesis using Suc b by simp
  qed simp
qed simp

lemma rec_lengths [simp]: "length (concat (map enc_branch_entry bs)) = 24 * length bs" "length (enc_rec r) = rec_size r"
proof -
  show "length (concat (map enc_branch_entry bs)) = 24 * length bs" by (induction bs) (auto simp: enc_branch_entry_def)
  show "length (enc_rec r) = rec_size r" by (simp add: enc_rec_def rec_size_def)
qed

lemma branch_pcs_filter:
  "branch_pcs (map (\<lambda>(src, dst, _). (src, dst)) bs) = filter kernel_half (concat (map (\<lambda>(src, dst, _). [src, dst]) (rev bs)))"
  by (induction bs rule: rev_induct) (auto simp: branch_pcs_def)

lemma ucast_size: "n < 65536 \<Longrightarrow> (ucast (of_nat n :: u16) :: u64) = of_nat n"
  by (rule word_unat_eq_iff [THEN iffD2]) (simp add: unat_ucast_up unat_of_nat)

lemma read_sample_lbr:
  assumes d: "drop p ring = enc_rec (P_lbr misc ip time bs) @ r" and ok: "rec_size (P_lbr misc ip time bs) < 65536"
  shows "read_sample ring p (of_nat (rec_size (P_lbr misc ip time bs))) = Some (time, rec_pcs (P_lbr misc ip time bs))"
proof -
  let ?h = "le_of_word 4 (9 :: u32) @ le_of_word 2 misc @ le_of_word 2 (of_nat (rec_size (P_lbr misc ip time bs)) :: u16)"
  have d': "drop p ring = ?h @ le_of_word 8 ip @ le_of_word 8 time @ le_of_word 8 (of_nat (length bs) :: u64) @ concat (map enc_branch_entry bs) @ r"
    using d by (simp add: enc_rec_def)
  have r1: "ring_rd ring 8 (p + 8) = Some ip" using ring_rd_le [of p ring ?h 8 ip] d' by simp
  have r2: "ring_rd ring 8 (p + 16) = Some time" using ring_rd_le [of p ring "?h @ le_of_word 8 ip" 8 time] d' by simp
  have r3: "ring_rd ring 8 (p + 24) = Some (of_nat (length bs))"
    using ring_rd_le [of p ring "?h @ le_of_word 8 ip @ le_of_word 8 time" 8 "of_nat (length bs) :: u64"] d' by simp
  have "drop (p + 32) ring = concat (map enc_branch_entry bs) @ r"
    using drop_past [of p ring "?h @ le_of_word 8 ip @ le_of_word 8 time @ le_of_word 8 (of_nat (length bs) :: u64)"] d' by simp
  then have r4: "read_branches ring (p + 32) (min 32 (length bs)) = Some (map (\<lambda>(src, dst, _). (src, dst)) (take 32 bs))"
    by (rule read_branches_enc)
  have sz: "rec_size (P_lbr misc ip time bs) = 32 + 24 * length bs" by (simp add: rec_size_def)
  have len: "length bs < 65536" using ok sz by simp
  have nr: "unat (min (of_nat (length bs) :: u64) 32) = min 32 (length bs)"
    using len by (auto simp: min_def word_le_nat_alt unat_of_nat)
  have big: "(32 < (of_nat (32 + 24 * length bs) :: u64)) = (bs \<noteq> [])"
    using ok sz by (simp add: word_less_nat_alt unat_of_nat del: of_nat_add of_nat_mult)
  show ?thesis
    using r1 r2 r3 r4 nr big branch_pcs_filter [of "take 32 bs"] by (cases "bs = []") (simp_all add: read_sample_def sz del: of_nat_add of_nat_mult)
qed

lemma read_sample_ip:
  assumes d: "drop p ring = enc_rec (P_ip misc ip time) @ r"
  shows "read_sample ring p 24 = Some (time, rec_pcs (P_ip misc ip time))"
proof -
  let ?h = "le_of_word 4 (9 :: u32) @ le_of_word 2 misc @ le_of_word 2 (of_nat (rec_size (P_ip misc ip time)) :: u16)"
  have d': "drop p ring = ?h @ le_of_word 8 ip @ le_of_word 8 time @ r" using d by (simp add: enc_rec_def)
  have "ring_rd ring 8 (p + 8) = Some ip" using ring_rd_le [of p ring ?h 8 ip] d' by simp
  moreover have "ring_rd ring 8 (p + 16) = Some time" using ring_rd_le [of p ring "?h @ le_of_word 8 ip" 8 time] d' by simp
  ultimately show ?thesis by (simp add: read_sample_def)
qed

lemma read_record_enc:
  assumes d: "drop p ring = enc_rec x @ r" and ok: "rec_ok x"
  shows "read_record ring p = Some (of_nat (rec_size x), rec_samples x)"
proof -
  have "ring_rd ring 4 p = Some (ucast (rec_type x))"
    using ring_rd_le [of p ring "[]" 4 "rec_type x"] d by (simp add: enc_rec_def)
  moreover have "ring_rd ring 2 (p + 6) = Some (of_nat (rec_size x))"
    using ring_rd_le [of p ring "le_of_word 4 (rec_type x) @ le_of_word 2 (rec_misc x)" 2 "of_nat (rec_size x) :: u16"] d ok
    by (simp add: enc_rec_def rec_ok_def ucast_size)
  ultimately have rr: "read_record ring p =
    (if ucast (rec_type x) = rec_sample \<and> 24 \<le> (of_nat (rec_size x) :: u64)
     then do { s \<leftarrow> read_sample ring p (of_nat (rec_size x)); Some (of_nat (rec_size x), if snd s \<noteq> [] then [s] else []) }
     else Some (of_nat (rec_size x), []))"
    by (simp add: read_record_def)
  show ?thesis
  proof (cases x)
    case (P_other ty misc body)
    then have "unat (ucast ty :: u64) \<noteq> unat (9 :: u64)" using ok by (simp add: rec_ok_def unat_ucast_up word_unat_eq_iff)
    then have "(ucast ty :: u64) \<noteq> 9" by metis
    then show ?thesis using rr P_other by (simp add: rec_sample_def)
  next
    case (P_ip misc ip time)
    then show ?thesis using rr read_sample_ip [of p ring misc ip time r] d by (simp add: rec_sample_def rec_size_def)
  next
    case (P_lbr misc ip time bs)
    have "24 \<le> (of_nat (rec_size x) :: u64)"
      using ok P_lbr by (simp add: rec_ok_def word_le_nat_alt unat_of_nat rec_size_def del: of_nat_add of_nat_mult)
    then show ?thesis using rr read_sample_lbr [of p ring misc ip time bs r] d ok P_lbr by (simp add: rec_sample_def rec_ok_def)
  qed
qed

text \<open>\<open>laid ring tail rs\<close>: from the position \<open>tail\<close> on the ring holds the records, none of them across its end.\<close>

fun laid :: "bytes \<Rightarrow> u64 \<Rightarrow> perf_rec list \<Rightarrow> bool" where
  "laid ring tail [] = True"
| "laid ring tail (x # rs) =
     (rec_ok x \<and> take (rec_size x) (drop (unat (tail mod of_nat (length ring))) ring) = enc_rec x \<and>
      laid ring (tail + of_nat (rec_size x)) rs)"

lemma drain_loop_laid:
  "laid ring tail rs \<Longrightarrow> unat tail + sum_list (map rec_size rs) < 2 ^ 64 \<Longrightarrow>
   drain_loop ring (tail + of_nat (sum_list (map rec_size rs))) tail acc = Some (Some (acc @ concat (map rec_samples rs)))"
proof (induction rs arbitrary: tail acc)
  case Nil
  then show ?case by (simp add: drain_loop.simps)
next
  case (Cons x rs)
  let ?n = "rec_size x" and ?m = "sum_list (map rec_size rs)"
  let ?p = "unat (tail mod of_nat (length ring))"
  have "drop ?p ring = enc_rec x @ drop ?n (drop ?p ring)" using Cons.prems(1) by (metis append_take_drop_id laid.simps(2))
  then have rr: "read_record ring ?p = Some (of_nat ?n, rec_samples x)" using Cons.prems(1) by (intro read_record_enc) auto
  have sz: "0 < ?n" by (simp add: rec_size_def)
  have t: "unat (tail + of_nat ?n) = unat tail + ?n" and h: "unat (tail + of_nat (?n + ?m)) = unat tail + (?n + ?m)"
    using Cons.prems(2) by (simp_all add: unat_word_ariths unat_of_nat del: of_nat_add)
  then have lt: "tail < tail + of_nat (?n + ?m)" using sz by (simp add: word_less_nat_alt)
  have "drain_loop ring (tail + of_nat (?n + ?m)) tail acc = drain_loop ring (tail + of_nat (?n + ?m)) (tail + of_nat ?n) (acc @ rec_samples x)"
    using lt rr by (subst drain_loop.simps) simp
  also have "tail + of_nat (?n + ?m) = (tail + of_nat ?n) + of_nat ?m" by simp
  also have "drain_loop ring (tail + of_nat ?n + of_nat ?m) (tail + of_nat ?n) (acc @ rec_samples x) =
    Some (Some ((acc @ rec_samples x) @ concat (map rec_samples rs)))"
    using Cons.prems t by (intro Cons.IH) auto
  finally show ?case by (simp add: add.assoc)
qed

lemma drain_loop_zero:
  assumes "drain_loop ring head tail samples = Some r"
  shows "\<not> (tail < head \<and> (\<exists>s. read_record ring (unat (tail mod of_nat (length ring))) = Some (0, s)))"
proof (rule drain_loop.raw_induct [OF _ assms])
  fix f ring head tail samples r
  assume IH: "\<And>ring head tail samples r. f ring head tail samples = Some r \<Longrightarrow>
      \<not> (tail < head \<and> (\<exists>s. read_record ring (unat (tail mod of_nat (length ring))) = Some (0, s)))"
    and r: "(if tail < head
      then case read_record ring (unat (tail mod of_nat (length ring))) of
             None \<Rightarrow> Some None
           | Some (ev_size, s) \<Rightarrow> f ring head (tail + ev_size) (samples @ s)
      else Some (Some samples)) = Some r"
  show "\<not> (tail < head \<and> (\<exists>s. read_record ring (unat (tail mod of_nat (length ring))) = Some (0, s)))"
    using IH [of ring head tail] r by auto
qed

section \<open>Properties\<close>

text \<open>C37. Loading the kernel text of an ELF64 image: with the section table where the file header puts it and the names
  in the string table it selects, the result is the address, the size and exactly the bytes of the first section named
  \<^verbatim>\<open>.text\<close>; there is none when no section has that name or its bytes reach past the end of the file, and no
  case panics.\<close>

theorem load_vmlinux_text_elf:
  assumes "elf64 m shoff ent ndx secs"
  shows "load_vmlinux_text (Some m) =
    Some (case find (sec_named m ndx secs (lit ''.text'')) secs of
        None \<Rightarrow> None
      | Some s \<Rightarrow>
          if unat (es_offset s) + unat (es_size s) \<le> length m
          then Some (take (unat (es_size s)) (drop (unat (es_offset s)) m), es_addr s, unat (es_size s))
          else None)"
proof -
  let ?so = "es_offset (secs ! unat ndx)"
  let ?h = "\<lparr>e_shoff = shoff, e_shentsize = ucast ent, e_shnum = length secs, shstr_off = ?so\<rparr>"
  have m: "length m < 2 ^ 63" "64 \<le> length m" and n: "length secs < 2 ^ 16" "unat ndx < length secs"
    and nz: "shoff \<noteq> 0" "ent \<noteq> 0" using assms by (simp_all add: elf64_def)
  have ez: "ucast ent \<noteq> (0 :: u64)" using nz(2) unat_ucast_up [where 'b = 64, of ent] by (auto simp: unat_eq_zero)
  have hd: "rd_word m 8 0x28 = Some shoff" "rd_word m 2 0x3a = Some (ucast ent)" "rd_word m 2 0x3e = Some (ucast ndx)"
    "rd_word m 2 0x3c = Some (ucast (of_nat (length secs) :: u16))"
    using assms rd_word_holds [of m "0x28" 8 shoff] rd_word_holds [of m "0x3a" 2 ent] rd_word_holds [of m "0x3e" 2 ndx]
      rd_word_holds [of m "0x3c" 2 "of_nat (length secs) :: u16"] by (simp_all add: elf64_def)
  have num: "unat (ucast (of_nat (length secs) :: u16) :: u64) = length secs" using n by (simp add: unat_ucast_up unat_of_nat)
  have "holds m (unat (shdr ?h (unat ndx))) (es_enc (secs ! unat ndx))"
    using assms n unat_shdr [OF assms, of ?h "unat ndx"] by (simp add: elf64_def)
  then have "rd_word m 8 (shdr ?h (unat ndx) + 0x18) = Some ?so" using m(1) by (rule rd_es_enc(3))
  then have so: "rd_word m 8 (shoff + ucast ndx * ucast ent + 0x18) = Some ?so" by (simp add: shdr_def)
  have le: "\<not> ucast (of_nat (length secs) :: u16) \<le> (ucast ndx :: u64)"
    using n by (simp add: word_le_nat_alt num unat_ucast_up)
  have "load_vmlinux_text (Some m) = text_loop m ?h [0..<length secs]"
    using m nz ez le by (simp add: load_vmlinux_text_def hd so num)
  then show ?thesis using text_loop_elf [OF assms, of ?h 0] by (simp add: sec_text_def split: option.split)
qed

text \<open>An image with two sections: the string table, which also holds the name of the second, and the text.\<close>

definition elf_sample_secs :: "elf_sec list" where
  "elf_sample_secs =
     [\<lparr>es_name = 6, es_type = 3, es_flags = 0, es_addr = 0, es_offset = 144, es_size = 7\<rparr>,
      \<lparr>es_name = 0, es_type = 1, es_flags = 6, es_addr = 0xffffffff81000000, es_offset = 151, es_size = 2\<rparr>]"

definition elf_sample :: bytes where
  "elf_sample =
     replicate 0x28 0 @ le_of_word 8 (64 :: u64) @ replicate 10 0 @ [0x28, 0, 2, 0, 0, 0] @
     es_enc (elf_sample_secs ! 0) @ es_enc (elf_sample_secs ! 1) @ lit ''.text'' @ [0, 0, 0x90, 0xc3]"

theorem load_vmlinux_text_elf_witness:
  "elf64 elf_sample 64 0x28 0 elf_sample_secs \<and>
   load_vmlinux_text (Some elf_sample) = Some (Some ([0x90, 0xc3], 0xffffffff81000000, 2))"
proof -
  have e: "elf64 elf_sample 64 0x28 0 elf_sample_secs" by code_simp
  moreover have "find (sec_named elf_sample 0 elf_sample_secs (lit ''.text'')) elf_sample_secs = Some (elf_sample_secs ! 1)" by code_simp
  moreover have "take 2 (drop 151 elf_sample) = [0x90, 0xc3]" "length elf_sample = 153" by code_simp+
  ultimately show ?thesis using load_vmlinux_text_elf [OF e] by (simp add: elf_sample_secs_def)
qed

text \<open>C38. Two sample rings that hold whole records - plain samples, branch-stack samples, records of other types - up to
  their head are drained completely, and the log is the merge of their samples by time stamp: within a sample the
  kernel addresses of the branches oldest first and then the sampled address, samples of equal time in ring order.\<close>

theorem amd_lbr_decode_merges:
  assumes "laid (ring_data a) (data_tail a) ra" and "unat (data_tail a) + sum_list (map rec_size ra) < 2 ^ 64"
    and "data_head a = data_tail a + of_nat (sum_list (map rec_size ra))"
    and "laid (ring_data b) (data_tail b) rb" and "unat (data_tail b) + sum_list (map rec_size rb) < 2 ^ 64"
    and "data_head b = data_tail b + of_nat (sum_list (map rec_size rb))"
  shows "amd_lbr_decode a (Some b) =
    (let pcs = concat (map snd (sort_key fst (concat (map rec_samples (ra @ rb)))))
     in Some (Some (concat (map pc_line pcs), of_nat (length pcs))))"
  using drain_loop_laid [OF assms(1,2), of "[]"] drain_loop_laid [OF assms(4,5), of "concat (map rec_samples ra)"] assms(3,6)
  by (simp add: amd_lbr_decode_def drain_sample_ring_def samples_log_def Let_def)

theorem amd_lbr_decode_merges_witness:
  "amd_lbr_decode \<lparr>data_head = 24, data_tail = 0, ring_data = enc_rec (P_ip 0 0xffffffff81000010 7)\<rparr>
     (Some \<lparr>data_head = 24, data_tail = 0, ring_data = enc_rec (P_ip 0 0xffffffff81000020 5)\<rparr>) =
   Some (Some (pc_line 0xffffffff81000020 @ pc_line 0xffffffff81000010, 2))"
proof -
  let ?a = "P_ip 0 0xffffffff81000010 7" and ?b = "P_ip 0 0xffffffff81000020 5"
  have l: "laid (enc_rec x) 0 [x]" if "rec_ok x" for x using that by simp
  have "rec_ok ?a" "rec_ok ?b" by (simp_all add: rec_ok_def rec_size_def)
  then show ?thesis
    using amd_lbr_decode_merges [of "\<lparr>data_head = 24, data_tail = 0, ring_data = enc_rec ?a\<rparr>" "[?a]"
        "\<lparr>data_head = 24, data_tail = 0, ring_data = enc_rec ?b\<rparr>" "[?b]"] l
    by (simp add: rec_size_def kernel_half_def Let_def)
qed

text \<open>A record of size 0 before the head stops the drain from ever returning: the tail does not move.\<close>

theorem drain_zero_size_diverges:
  assumes "tail < head" and "read_record ring (unat (tail mod of_nat (length ring))) = Some (0, s)"
  shows "drain_loop ring head tail samples = None"
  using drain_loop_zero [of ring head tail samples] assms by (cases "drain_loop ring head tail samples") auto

theorem drain_zero_size_diverges_witness: "drain_loop [0, 0, 0, 0, 0, 0, 0, 0] 8 0 [] = None"
proof (rule drain_zero_size_diverges)
  show "read_record [0, 0, 0, 0, 0, 0, 0, 0] (unat ((0 :: u64) mod of_nat (length [0, 0, 0, 0, 0, 0, 0, 0 :: u8]))) = Some (0, [])"
    by (simp add: read_record_def ring_rd_def slice_get_def rec_sample_def)
qed simp

end
