(* ===== verification/Btf_Parse.thy ===== *)
theory Btf_Parse
  imports Rust_Str
begin

text \<open>
  The BTF parser of the fuzzer (\<^verbatim>\<open>fuzz/btf.rs\<close>): finding the \<^verbatim>\<open>.BTF\<close> section of an ELF image, the header, the
  type records of every kind and the lookups. Offsets taken from an ELF header are 64-bit words whose sums wrap; inside
  the BTF data they are sums of 32-bit fields, natural numbers here. A result \<open>None\<close> is a panic, \<open>Some None\<close> is the
  \<^verbatim>\<open>None\<close> of the source, where the two differ. \<open>resolve\<close> follows references and may not return, so it is a partial
  function.
\<close>

unbundle bit_operations_syntax

section \<open>Data\<close>

definition btf_kind_int :: u16 where "btf_kind_int = 1"
definition btf_kind_ptr :: u16 where "btf_kind_ptr = 2"
definition btf_kind_array :: u16 where "btf_kind_array = 3"
definition btf_kind_struct :: u16 where "btf_kind_struct = 4"
definition btf_kind_union :: u16 where "btf_kind_union = 5"
definition btf_kind_enum :: u16 where "btf_kind_enum = 6"
definition btf_kind_fwd :: u16 where "btf_kind_fwd = 7"
definition btf_kind_typedef :: u16 where "btf_kind_typedef = 8"
definition btf_kind_volatile :: u16 where "btf_kind_volatile = 9"
definition btf_kind_const :: u16 where "btf_kind_const = 10"
definition btf_kind_restrict :: u16 where "btf_kind_restrict = 11"
definition btf_kind_func :: u16 where "btf_kind_func = 12"
definition btf_kind_func_proto :: u16 where "btf_kind_func_proto = 13"
definition btf_kind_var :: u16 where "btf_kind_var = 14"
definition btf_kind_datasec :: u16 where "btf_kind_datasec = 15"
definition btf_kind_float :: u16 where "btf_kind_float = 16"
definition btf_kind_enum64 :: u16 where "btf_kind_enum64 = 19"

lemmas btf_kinds = btf_kind_int_def btf_kind_ptr_def btf_kind_array_def btf_kind_struct_def btf_kind_union_def btf_kind_enum_def
  btf_kind_fwd_def btf_kind_typedef_def btf_kind_volatile_def btf_kind_const_def btf_kind_restrict_def btf_kind_func_def
  btf_kind_func_proto_def btf_kind_var_def btf_kind_datasec_def btf_kind_float_def btf_kind_enum64_def

definition btf_magic :: u16 where "btf_magic = 0xeb9f"

record btf_member =
  bm_name :: str
  bm_type_id :: u32
  bm_offset_bits :: u32

record btf_enum_val =
  be_name :: str
  be_val :: u64

record btf_type =
  bt_id :: u32
  bt_kind :: u16
  bt_name :: str
  bt_size :: u32
  ref_type_id :: u32
  bt_members :: "btf_member list"
  bt_enums :: "btf_enum_val list"
  int_bits :: u8
  int_signed :: u8
  array_type_id :: u32
  array_nelems :: u32

definition btf_void :: btf_type where
  "btf_void = \<lparr>bt_id = 0, bt_kind = 0, bt_name = [], bt_size = 0, ref_type_id = 0, bt_members = [], bt_enums = [], int_bits = 0,
     int_signed = 0, array_type_id = 0, array_nelems = 0\<rparr>"

type_synonym btf = "btf_type list"

section \<open>Reading\<close>

definition rd_u16 :: "bytes \<Rightarrow> u64 \<Rightarrow> u16 option" where
  "rd_u16 b off = map_option word_of_le (slice_get b (unat off) (unat (off + 2)))"

definition rd_u64 :: "bytes \<Rightarrow> u64 \<Rightarrow> u64 option" where
  "rd_u64 b off = map_option word_of_le (slice_get b (unat off) (unat (off + 8)))"

definition rd_u32 :: "bytes \<Rightarrow> u64 \<Rightarrow> u32 option" where
  "rd_u32 b off = map_option word_of_le (slice_get b (unat off) (unat (off + 4)))"

text \<open>The same read at an offset that is known not to wrap.\<close>

definition rd32 :: "bytes \<Rightarrow> nat \<Rightarrow> u32 option" where
  "rd32 b off = map_option word_of_le (slice_get b off (off + 4))"

definition btf_str :: "bytes \<Rightarrow> u32 \<Rightarrow> str" where
  "btf_str strs off = (if length strs \<le> unat off then [] else utf8_lossy (takeWhile (\<lambda>c. c \<noteq> 0) (drop (unat off) strs)))"

definition elf_name :: "bytes \<Rightarrow> u64 \<Rightarrow> bytes option" where
  "elf_name raw name_ptr = map_option (takeWhile (\<lambda>c. c \<noteq> 0)) (slice_from raw (unat name_ptr))"

fun btf_section :: "bytes \<Rightarrow> u64 \<Rightarrow> u64 \<Rightarrow> u64 \<Rightarrow> nat list \<Rightarrow> (u64 \<times> u64) option option" where
  "btf_section raw e_shoff e_shentsize strtab_off [] = Some None"
| "btf_section raw e_shoff e_shentsize strtab_off (i # is) =
     (let b = e_shoff + of_nat i * e_shentsize
      in case do { sh_name \<leftarrow> rd_u32 raw b; sh_offset \<leftarrow> rd_u64 raw (b + 0x18); sh_size \<leftarrow> rd_u64 raw (b + 0x20);
                   Some (ucast sh_name :: u64, sh_offset, sh_size) } of
           None \<Rightarrow> Some None
         | Some (sh_name, sh_offset, sh_size) \<Rightarrow>
             do { nm \<leftarrow> elf_name raw (strtab_off + sh_name);
                  if nm = lit ''.BTF'' then Some (Some (sh_offset, sh_size))
                  else btf_section raw e_shoff e_shentsize strtab_off is })"

definition find_elf_btf :: "bytes \<Rightarrow> (u64 \<times> u64) option option" where
  "find_elf_btf raw =
     (case do { shoff \<leftarrow> rd_u64 raw 0x28; ent \<leftarrow> rd_u16 raw 0x3a; num \<leftarrow> rd_u16 raw 0x3c; ndx \<leftarrow> rd_u16 raw 0x3e;
                let e = (ucast ent :: u64); n = (ucast num :: u64)
                in if e < 64 \<or> of_nat (length raw) < shoff + n * e then None
                   else do { so \<leftarrow> rd_u64 raw (shoff + ucast ndx * e + 0x18); Some (shoff, e, so, unat num) } } of
        None \<Rightarrow> Some None
      | Some (shoff, e, so, n) \<Rightarrow> btf_section raw shoff e so [0..<n])"

definition parse_member :: "bytes \<Rightarrow> bytes \<Rightarrow> bool \<Rightarrow> nat \<Rightarrow> btf_member option" where
  "parse_member sec strs kflag mp =
     do { m_name \<leftarrow> rd32 sec mp; m_type \<leftarrow> rd32 sec (mp + 4); m_off \<leftarrow> rd32 sec (mp + 8);
          Some \<lparr>bm_name = btf_str strs m_name, bm_type_id = m_type, bm_offset_bits = if kflag then m_off AND 0xffffff else m_off\<rparr> }"

definition parse_enum :: "bytes \<Rightarrow> bytes \<Rightarrow> nat \<Rightarrow> btf_enum_val option" where
  "parse_enum sec strs ep =
     do { e_name \<leftarrow> rd32 sec ep; e_val \<leftarrow> rd32 sec (ep + 4);
          Some \<lparr>be_name = btf_str strs e_name, be_val = scast e_val\<rparr> }"

definition parse_enum64 :: "bytes \<Rightarrow> bytes \<Rightarrow> nat \<Rightarrow> btf_enum_val option" where
  "parse_enum64 sec strs ep =
     do { e_name \<leftarrow> rd32 sec ep; lo \<leftarrow> rd32 sec (ep + 4); hi \<leftarrow> rd32 sec (ep + 8);
          Some \<lparr>be_name = btf_str strs e_name, be_val = push_bit 32 (ucast hi) OR ucast lo\<rparr> }"

text \<open>The part of a type record after its 12 bytes, by kind, and where the next record starts.\<close>

definition parse_kind :: "bytes \<Rightarrow> bytes \<Rightarrow> u16 \<Rightarrow> nat \<Rightarrow> bool \<Rightarrow> u32 \<Rightarrow> nat \<Rightarrow> btf_type \<Rightarrow> (btf_type \<times> nat) option" where
  "parse_kind sec strs kind vlen kflag size_or_type p t =
     (if kind = btf_kind_int
      then do { enc \<leftarrow> rd32 sec p;
                Some (t\<lparr>bt_size := size_or_type, int_bits := ucast (enc AND 0xff), int_signed := ucast (drop_bit 24 enc AND 1)\<rparr>, p + 4) }
      else if kind = btf_kind_ptr \<or> kind = btf_kind_typedef \<or> kind = btf_kind_volatile \<or> kind = btf_kind_const \<or>
        kind = btf_kind_restrict \<or> kind = btf_kind_fwd
      then Some (t\<lparr>ref_type_id := size_or_type\<rparr>, p)
      else if kind = btf_kind_array
      then do { at \<leftarrow> rd32 sec p; an \<leftarrow> rd32 sec (p + 8); Some (t\<lparr>array_type_id := at, array_nelems := an\<rparr>, p + 12) }
      else if kind = btf_kind_struct \<or> kind = btf_kind_union
      then do { ms \<leftarrow> those (map (\<lambda>i. parse_member sec strs kflag (p + i * 12)) [0..<vlen]);
                Some (t\<lparr>bt_size := size_or_type, bt_members := ms\<rparr>, p + vlen * 12) }
      else if kind = btf_kind_enum
      then do { es \<leftarrow> those (map (\<lambda>i. parse_enum sec strs (p + i * 8)) [0..<vlen]);
                Some (t\<lparr>bt_size := size_or_type, bt_enums := es\<rparr>, p + vlen * 8) }
      else if kind = btf_kind_enum64
      then do { es \<leftarrow> those (map (\<lambda>i. parse_enum64 sec strs (p + i * 12)) [0..<vlen]);
                Some (t\<lparr>bt_size := size_or_type, bt_enums := es\<rparr>, p + vlen * 12) }
      else if kind = btf_kind_func_proto then Some (t\<lparr>ref_type_id := size_or_type\<rparr>, p + vlen * 8)
      else if kind = btf_kind_func then Some (t\<lparr>ref_type_id := size_or_type\<rparr>, p)
      else if kind = btf_kind_var then Some (t\<lparr>ref_type_id := size_or_type\<rparr>, p + 4)
      else if kind = btf_kind_datasec then Some (t\<lparr>bt_size := size_or_type\<rparr>, p + vlen * 12)
      else if kind = btf_kind_float then Some (t\<lparr>bt_size := size_or_type\<rparr>, p)
      else Some (t, p))"

definition parse_type :: "bytes \<Rightarrow> bytes \<Rightarrow> nat \<Rightarrow> u32 \<Rightarrow> (btf_type \<times> nat) option" where
  "parse_type sec strs p tid =
     do { name_off \<leftarrow> rd32 sec p; info \<leftarrow> rd32 sec (p + 4); size_or_type \<leftarrow> rd32 sec (p + 8);
          let kind = ucast (drop_bit 24 info AND 0x1f)
          in parse_kind sec strs kind (unat (info AND 0xffff)) (drop_bit 31 info \<noteq> 0) size_or_type (p + 12)
               (btf_void\<lparr>bt_id := tid, bt_kind := kind, bt_name := btf_str strs name_off\<rparr>) }"

lemma parse_kind_next: "parse_kind sec strs kind vlen kflag st p t = Some (u, q) \<Longrightarrow> p \<le> q"
  unfolding parse_kind_def by (simp split: if_splits add: Option.bind_eq_Some_conv) auto

lemma parse_type_next: "parse_type sec strs p tid = Some (t, q) \<Longrightarrow> p + 12 \<le> q"
  by (auto simp: parse_type_def Option.bind_eq_Some_conv Let_def dest: parse_kind_next)

function types_loop :: "bytes \<Rightarrow> bytes \<Rightarrow> nat \<Rightarrow> u32 \<Rightarrow> btf_type list \<Rightarrow> btf_type list option" where
  "types_loop sec strs p tid types =
     (if p + 12 \<le> length sec
      then (case parse_type sec strs p tid of
              None \<Rightarrow> None
            | Some (t, q) \<Rightarrow> types_loop sec strs q (tid + 1) (types @ [t]))
      else Some types)"
  by pat_completeness auto
termination
proof (relation "measure (\<lambda>(sec, strs, p, tid, types). length sec - p)", goal_cases)
  case (2 sec strs p tid types x t q)
  then show ?case using parse_type_next [of sec strs p tid t q] by simp
qed simp

declare types_loop.simps [simp del]

text \<open>The part of \<open>open\<close> after the data is located.\<close>

definition parse_btf :: "bytes \<Rightarrow> btf option" where
  "parse_btf data =
     (if length data < 24 then None
      else do { magic \<leftarrow> rd_u16 data 0;
                if magic \<noteq> btf_magic then None
                else do { hdr_len \<leftarrow> rd32 data 4; type_off \<leftarrow> rd32 data 8; type_len \<leftarrow> rd32 data 12; str_off \<leftarrow> rd32 data 16; str_len \<leftarrow> rd32 data 20;
                          let type_start = unat hdr_len + unat type_off; str_start = unat hdr_len + unat str_off
                          in do { strs \<leftarrow> slice_get data str_start (str_start + unat str_len);
                                  sec \<leftarrow> slice_get data type_start (type_start + unat type_len);
                                  types_loop sec strs 0 1 [btf_void] } } })"

definition is_elf :: "bytes \<Rightarrow> bool" where
  "is_elf raw \<longleftrightarrow> 64 < length raw \<and> take 4 raw = [0x7f, 0x45, 0x4c, 0x46]"

definition btf_open :: "bytes option \<Rightarrow> btf option option" where
  "btf_open file =
     (case file of
        None \<Rightarrow> Some None
      | Some raw \<Rightarrow>
          if length raw < 24 then Some None
          else if is_elf raw
          then (case find_elf_btf raw of
                  None \<Rightarrow> None
                | Some None \<Rightarrow> Some None
                | Some (Some (a, n)) \<Rightarrow>
                    (case slice_get raw (unat a) (unat (a + n)) of None \<Rightarrow> Some None | Some d \<Rightarrow> Some (parse_btf d)))
          else Some (parse_btf raw))"

section \<open>Lookups\<close>

definition type_by_id :: "btf \<Rightarrow> u32 \<Rightarrow> btf_type option" where
  "type_by_id btf tid = nth_opt btf (unat tid)"

definition is_struct :: "btf_type \<Rightarrow> bool" where
  "is_struct t \<longleftrightarrow> bt_kind t = btf_kind_struct \<or> bt_kind t = btf_kind_union"

definition find_struct :: "btf \<Rightarrow> str \<Rightarrow> btf_type option" where
  "find_struct btf nm = find (\<lambda>t. is_struct t \<and> bt_name t = nm) (drop 1 btf)"

definition is_qualifier :: "btf_type \<Rightarrow> bool" where
  "is_qualifier t \<longleftrightarrow> bt_kind t = btf_kind_const \<or> bt_kind t = btf_kind_volatile \<or> bt_kind t = btf_kind_typedef \<or> bt_kind t = btf_kind_restrict"

partial_function (option) btf_resolve :: "btf \<Rightarrow> btf_type \<Rightarrow> btf_type option" where
  "btf_resolve btf t =
     (if is_qualifier t
      then (case type_by_id btf (ref_type_id t) of None \<Rightarrow> Some t | Some n \<Rightarrow> btf_resolve btf n)
      else Some t)"

section \<open>Encoding a type section\<close>

text \<open>Type records as the BTF format defines them, one constructor per shape; names are offsets into the string section.\<close>

datatype btf_src =
    S_int u32 u32 u32
  | S_ref u16 u32 u32
  | S_array u32 u32 u32 u32
  | S_comp bool bool u32 u32 "(u32 \<times> u32 \<times> u32) list"
  | S_enum u32 u32 "(u32 \<times> u32) list"
  | S_enum64 u32 u32 "(u32 \<times> u64) list"
  | S_proto u32 u32 "(u32 \<times> u32) list"
  | S_var u32 u32 u32
  | S_datasec u32 u32 "(u32 \<times> u32 \<times> u32) list"
  | S_float u32 u32

abbreviation le32 :: "u32 \<Rightarrow> bytes" where
  "le32 w \<equiv> le_of_word 4 w"

definition le_pair :: "u32 \<times> u32 \<Rightarrow> bytes" where
  "le_pair = (\<lambda>(a, b). le32 a @ le32 b)"

definition le_triple :: "u32 \<times> u32 \<times> u32 \<Rightarrow> bytes" where
  "le_triple = (\<lambda>(a, b, c). le32 a @ le32 b @ le32 c)"

definition le_enum64 :: "u32 \<times> u64 \<Rightarrow> bytes" where
  "le_enum64 = (\<lambda>(a, v). le32 a @ le32 (ucast v) @ le32 (ucast (drop_bit 32 v)))"

definition enc_head :: "u32 \<Rightarrow> u16 \<Rightarrow> bool \<Rightarrow> nat \<Rightarrow> u32 \<Rightarrow> bytes" where
  "enc_head nm kind kflag vlen st =
     le32 nm @ le32 (push_bit 31 (of_bool kflag) OR push_bit 24 (ucast kind) OR of_nat vlen) @ le32 st"

fun enc_src :: "btf_src \<Rightarrow> bytes" where
  "enc_src (S_int nm sz enc) = enc_head nm 1 False 0 sz @ le32 enc"
| "enc_src (S_ref kind nm ty) = enc_head nm kind False 0 ty"
| "enc_src (S_array nm elem idx n) = enc_head nm 3 False 0 0 @ le32 elem @ le32 idx @ le32 n"
| "enc_src (S_comp un kflag nm sz ms) = enc_head nm (if un then 5 else 4) kflag (length ms) sz @ concat (map le_triple ms)"
| "enc_src (S_enum nm sz es) = enc_head nm 6 False (length es) sz @ concat (map le_pair es)"
| "enc_src (S_enum64 nm sz es) = enc_head nm 19 False (length es) sz @ concat (map le_enum64 es)"
| "enc_src (S_proto nm ty ps) = enc_head nm 13 False (length ps) ty @ concat (map le_pair ps)"
| "enc_src (S_var nm ty linkage) = enc_head nm 14 False 0 ty @ le32 linkage"
| "enc_src (S_datasec nm sz vs) = enc_head nm 15 False (length vs) sz @ concat (map le_triple vs)"
| "enc_src (S_float nm sz) = enc_head nm 16 False 0 sz"

fun src_ok :: "btf_src \<Rightarrow> bool" where
  "src_ok (S_ref kind nm ty) = (kind \<in> {2, 7, 8, 9, 10, 11, 12})"
| "src_ok (S_comp un kflag nm sz ms) = (length ms < 65536)"
| "src_ok (S_enum nm sz es) = (length es < 65536)"
| "src_ok (S_enum64 nm sz es) = (length es < 65536)"
| "src_ok (S_proto nm ty ps) = (length ps < 65536)"
| "src_ok (S_datasec nm sz vs) = (length vs < 65536)"
| "src_ok t = True"

text \<open>What the record declares.\<close>

definition base_type :: "bytes \<Rightarrow> u32 \<Rightarrow> u16 \<Rightarrow> u32 \<Rightarrow> btf_type" where
  "base_type strs tid kind nm = btf_void\<lparr>bt_id := tid, bt_kind := kind, bt_name := btf_str strs nm\<rparr>"

fun src_type :: "bytes \<Rightarrow> u32 \<Rightarrow> btf_src \<Rightarrow> btf_type" where
  "src_type strs tid (S_int nm sz enc) =
     (base_type strs tid 1 nm)\<lparr>bt_size := sz, int_bits := ucast (enc AND 0xff), int_signed := ucast (drop_bit 24 enc AND 1)\<rparr>"
| "src_type strs tid (S_ref kind nm ty) = (base_type strs tid kind nm)\<lparr>ref_type_id := ty\<rparr>"
| "src_type strs tid (S_array nm elem idx n) = (base_type strs tid 3 nm)\<lparr>array_type_id := elem, array_nelems := n\<rparr>"
| "src_type strs tid (S_comp un kflag nm sz ms) =
     (base_type strs tid (if un then 5 else 4) nm)\<lparr>bt_size := sz,
       bt_members := map (\<lambda>(n, ty, off). \<lparr>bm_name = btf_str strs n, bm_type_id = ty, bm_offset_bits = if kflag then off AND 0xffffff else off\<rparr>) ms\<rparr>"
| "src_type strs tid (S_enum nm sz es) =
     (base_type strs tid 6 nm)\<lparr>bt_size := sz, bt_enums := map (\<lambda>(n, v). \<lparr>be_name = btf_str strs n, be_val = scast v\<rparr>) es\<rparr>"
| "src_type strs tid (S_enum64 nm sz es) =
     (base_type strs tid 19 nm)\<lparr>bt_size := sz, bt_enums := map (\<lambda>(n, v). \<lparr>be_name = btf_str strs n, be_val = v\<rparr>) es\<rparr>"
| "src_type strs tid (S_proto nm ty ps) = (base_type strs tid 13 nm)\<lparr>ref_type_id := ty\<rparr>"
| "src_type strs tid (S_var nm ty linkage) = (base_type strs tid 14 nm)\<lparr>ref_type_id := ty\<rparr>"
| "src_type strs tid (S_datasec nm sz vs) = (base_type strs tid 15 nm)\<lparr>bt_size := sz\<rparr>"
| "src_type strs tid (S_float nm sz) = (base_type strs tid 16 nm)\<lparr>bt_size := sz\<rparr>"

lemma rd32_le: "drop p sec = a @ le32 w @ r \<Longrightarrow> n = p + length a \<Longrightarrow> rd32 sec n = Some w"
proof -
  assume d: "drop p sec = a @ le32 w @ r" and n: "n = p + length a"
  have e: "drop n sec = le32 w @ r" unfolding n using d by (metis add.commute append_eq_conv_conj drop_drop)
  then have "4 \<le> length sec - n" by (metis length_append length_drop length_le_of_word le_add1)
  then have "n + 4 \<le> length sec" by linarith
  then show ?thesis using e by (simp add: rd32_def slice_get_def word_of_le_of_word)
qed

lemma small_bits:
  fixes w :: "'a::len word"
  assumes "unat w < 2 ^ n" and "n \<le> i"
  shows "\<not> bit w i"
proof -
  have "unat (take_bit n w) = unat w" using assms(1) by (simp add: unsigned_take_bit_eq take_bit_nat_eq_self)
  then have "take_bit n w = w" by (simp only: word_unat_eq_iff)
  then show ?thesis using assms(2) by (metis bit_take_bit_iff leD)
qed

text \<open>The three fields of the info word.\<close>

lemma info_fields:
  fixes kind :: u16 and kflag :: bool
  assumes "unat kind < 32" and "vlen < 65536"
  defines "info \<equiv> push_bit 31 (of_bool kflag) OR push_bit 24 (ucast kind) OR (of_nat vlen :: u32)"
  shows "ucast (drop_bit 24 info AND 0x1f) = kind" "unat (info AND 0xffff) = vlen" "drop_bit 31 info \<noteq> 0 \<longleftrightarrow> kflag"
proof -
  have v: "\<not> bit (of_nat vlen :: u32) i" if "16 \<le> i" for i
    using that assms(2) by (intro small_bits [of _ 16]) (simp_all add: unat_of_nat)
  have k: "\<not> bit kind i" if "5 \<le> i" for i using that assms(1) by (intro small_bits [of _ 5]) simp_all
  have m5: "(0x1f :: u32) = mask 5" and m16: "(0xffff :: u32) = mask 16" by (simp_all add: mask_eq_exp_minus_1)
  have bi: "bit info i \<longleftrightarrow> i < 32 \<and> (i = 31 \<and> kflag \<or> 24 \<le> i \<and> bit kind (i - 24) \<or> bit (of_nat vlen :: u32) i)" for i
    unfolding info_def by (auto simp: bit_simps dest: bit_imp_le_length)
  show "ucast (drop_bit 24 info AND 0x1f) = kind"
  proof (rule bit_word_eqI)
    fix i
    assume "i < LENGTH(16)"
    then show "bit (ucast (drop_bit 24 info AND 0x1f) :: u16) i = bit kind i"
      using v [of "24 + i"] k [of i] by (cases "5 \<le> i") (auto simp: m5 bit_simps bi)
  qed
  have "info AND 0xffff = of_nat vlen"
  proof (rule bit_word_eqI)
    fix i
    assume "i < LENGTH(32)"
    then show "bit (info AND 0xffff) i = bit (of_nat vlen :: u32) i" using v [of i] by (cases "16 \<le> i") (auto simp: m16 bit_simps bi)
  qed
  then show "unat (info AND 0xffff) = vlen" using assms(2) by (simp add: unat_of_nat)
  have "drop_bit 31 info = of_bool kflag"
  proof (rule bit_word_eqI)
    fix i
    assume "i < LENGTH(32)"
    then show "bit (drop_bit 31 info) i = bit (of_bool kflag :: u32) i"
      using v [of "31 + i"] k [of "7 + i"] by (auto simp: bit_simps bi add.commute)
  qed
  then show "drop_bit 31 info \<noteq> 0 \<longleftrightarrow> kflag" by simp
qed

lemma parse_type_head:
  assumes "drop p sec = enc_head nm kind kflag vlen st @ r" and "unat kind < 32" and "vlen < 65536"
  shows "parse_type sec strs p tid = parse_kind sec strs kind vlen kflag st (p + 12) (base_type strs tid kind nm) \<and> drop (p + 12) sec = r"
proof -
  let ?i = "push_bit 31 (of_bool kflag) OR push_bit 24 (ucast kind) OR (of_nat vlen :: u32)"
  have d: "drop p sec = le32 nm @ le32 ?i @ le32 st @ r" using assms(1) by (simp add: enc_head_def)
  have "rd32 sec p = Some nm" using rd32_le [of p sec "[]" nm] d by simp
  moreover have "rd32 sec (p + 4) = Some ?i" using rd32_le [of p sec "le32 nm" ?i] d by simp
  moreover have "rd32 sec (p + 8) = Some st" using rd32_le [of p sec "le32 nm @ le32 ?i" st] d by simp
  moreover have "drop 12 (drop p sec) = r" using d by simp
  ultimately show ?thesis using info_fields [OF assms(2,3), of kflag] by (simp add: parse_type_def Let_def base_type_def add.commute)
qed

text \<open>A row of equal-sized entries.\<close>

lemma those_rows:
  assumes "\<And>q x r. drop q sec = enc x @ r \<Longrightarrow> f q = Some (g x)" and "\<And>x. length (enc x) = k"
    and "drop p sec = concat (map enc xs) @ r"
  shows "those (map (\<lambda>i. f (p + i * k)) [0..<length xs]) = Some (map g xs) \<and> drop (p + length xs * k) sec = r"
  using assms(3)
proof (induction xs arbitrary: p)
  case (Cons x xs)
  have d: "drop p sec = enc x @ concat (map enc xs) @ r" using Cons.prems by simp
  then have d': "drop (p + k) sec = concat (map enc xs) @ r" using assms(2) [of x] by (metis add.commute append_eq_conv_conj drop_drop)
  have f: "f p = Some (g x)" using d by (rule assms(1))
  have "those (map (\<lambda>i. f (p + k + i * k)) [0..<length xs]) = Some (map g xs) \<and> drop (p + k + length xs * k) sec = r"
    using d' by (rule Cons.IH)
  moreover have "[0..<length (x # xs)] = 0 # map Suc [0..<length xs]" by (simp add: map_Suc_upt upt_conv_Cons del: upt_Suc)
  ultimately show ?case using f by (simp add: comp_def algebra_simps del: upt_Suc)
qed simp

lemma parse_member_le:
  "drop q sec = le_triple (n, ty, off) @ r \<Longrightarrow>
   parse_member sec strs kflag q = Some \<lparr>bm_name = btf_str strs n, bm_type_id = ty, bm_offset_bits = if kflag then off AND 0xffffff else off\<rparr>"
  using rd32_le [of q sec "[]" n] rd32_le [of q sec "le32 n" ty] rd32_le [of q sec "le32 n @ le32 ty" off]
  by (simp add: parse_member_def le_triple_def)

lemma parse_enum_le:
  "drop q sec = le_pair (n, v) @ r \<Longrightarrow> parse_enum sec strs q = Some \<lparr>be_name = btf_str strs n, be_val = scast v\<rparr>"
  using rd32_le [of q sec "[]" n] rd32_le [of q sec "le32 n" v] by (simp add: parse_enum_def le_pair_def)

lemma split_u64: "push_bit 32 (ucast (ucast (drop_bit 32 v) :: u32)) OR ucast (ucast v :: u32) = (v :: u64)"
proof (rule bit_word_eqI)
  fix i
  assume "i < LENGTH(64)"
  then show "bit (push_bit 32 (ucast (ucast (drop_bit 32 v) :: u32)) OR ucast (ucast v :: u32) :: u64) i = bit v i"
    by (cases "i < 32") (auto simp: bit_simps)
qed

lemma parse_enum64_le:
  "drop q sec = le_enum64 (n, v) @ r \<Longrightarrow> parse_enum64 sec strs q = Some \<lparr>be_name = btf_str strs n, be_val = v\<rparr>"
  using rd32_le [of q sec "[]" n] rd32_le [of q sec "le32 n" "ucast v"] rd32_le [of q sec "le32 n @ le32 (ucast v)" "ucast (drop_bit 32 v)"]
  by (simp add: parse_enum64_def le_enum64_def split_u64)

lemma le_lengths [simp]: "length (le_pair x) = 8" "length (le_triple y) = 12" "length (le_enum64 z) = 12" "length (enc_head nm kind kflag vlen st) = 12"
  by (auto simp: le_pair_def le_triple_def le_enum64_def enc_head_def split: prod.split)

lemma length_rows: "(\<And>x. length (enc x) = k) \<Longrightarrow> length (concat (map enc xs)) = length xs * k"
  by (induction xs) auto

lemma parse_members_le:
  fixes strs :: bytes and kflag :: bool
  assumes "drop p sec = concat (map le_triple ms) @ r"
  defines "g \<equiv> \<lambda>(n, ty, off). \<lparr>bm_name = btf_str strs n, bm_type_id = ty, bm_offset_bits = if kflag then off AND 0xffffff else off\<rparr>"
  shows "those (map (\<lambda>i. parse_member sec strs kflag (p + i * 12)) [0..<length ms]) = Some (map g ms)"
proof -
  have "parse_member sec strs kflag q = Some (g x)" if "drop q sec = le_triple x @ r" for q x r
    using that parse_member_le unfolding g_def by (cases x) fastforce
  then show ?thesis using those_rows [where f = "parse_member sec strs kflag" and g = g, OF _ le_lengths(2) assms(1)] by blast
qed

lemma parse_enums_le:
  fixes strs :: bytes
  assumes "drop p sec = concat (map le_pair es) @ r"
  defines "g \<equiv> \<lambda>(n, v). \<lparr>be_name = btf_str strs n, be_val = scast v\<rparr>"
  shows "those (map (\<lambda>i. parse_enum sec strs (p + i * 8)) [0..<length es]) = Some (map g es)"
proof -
  have "parse_enum sec strs q = Some (g x)" if "drop q sec = le_pair x @ r" for q x r
    using that parse_enum_le unfolding g_def by (cases x) fastforce
  then show ?thesis using those_rows [where f = "parse_enum sec strs" and g = g, OF _ le_lengths(1) assms(1)] by blast
qed

lemma parse_enum64s_le:
  fixes strs :: bytes
  assumes "drop p sec = concat (map le_enum64 es) @ r"
  defines "g \<equiv> \<lambda>(n, v). \<lparr>be_name = btf_str strs n, be_val = v\<rparr>"
  shows "those (map (\<lambda>i. parse_enum64 sec strs (p + i * 12)) [0..<length es]) = Some (map g es)"
proof -
  have "parse_enum64 sec strs q = Some (g x)" if "drop q sec = le_enum64 x @ r" for q x r
    using that parse_enum64_le unfolding g_def by (cases x) fastforce
  then show ?thesis using those_rows [where f = "parse_enum64 sec strs" and g = g, OF _ le_lengths(3) assms(1)] by blast
qed

fun has_rows :: "btf_src \<Rightarrow> bool" where
  "has_rows (S_comp un kflag nm sz ms) = True"
| "has_rows (S_enum nm sz es) = True"
| "has_rows (S_enum64 nm sz es) = True"
| "has_rows (S_proto nm ty ps) = True"
| "has_rows (S_datasec nm sz vs) = True"
| "has_rows t = False"

lemma parse_src_rows:
  assumes d: "drop p sec = enc_src t @ r" and ok: "src_ok t" and rows: "has_rows t"
  shows "parse_type sec strs p tid = Some (src_type strs tid t, p + length (enc_src t))"
proof (cases t)
  case (S_comp un kflag nm sz ms)
  have "parse_type sec strs p tid = parse_kind sec strs (if un then 5 else 4) (length ms) kflag sz (p + 12) (base_type strs tid (if un then 5 else 4) nm) \<and>
    drop (p + 12) sec = concat (map le_triple ms) @ r"
    using d ok S_comp by (intro parse_type_head) simp_all
  then show ?thesis using S_comp parse_members_le [of "p + 12" sec ms r strs kflag] length_rows [of le_triple 12 ms]
    by (simp add: parse_kind_def btf_kinds del: upt_Suc)
next
  case (S_enum nm sz es)
  have "parse_type sec strs p tid = parse_kind sec strs 6 (length es) False sz (p + 12) (base_type strs tid 6 nm) \<and>
    drop (p + 12) sec = concat (map le_pair es) @ r"
    using d ok S_enum by (intro parse_type_head) simp_all
  then show ?thesis using S_enum parse_enums_le [of "p + 12" sec es r strs] length_rows [of le_pair 8 es] by (simp add: parse_kind_def btf_kinds)
next
  case (S_enum64 nm sz es)
  have "parse_type sec strs p tid = parse_kind sec strs 19 (length es) False sz (p + 12) (base_type strs tid 19 nm) \<and>
    drop (p + 12) sec = concat (map le_enum64 es) @ r"
    using d ok S_enum64 by (intro parse_type_head) simp_all
  then show ?thesis using S_enum64 parse_enum64s_le [of "p + 12" sec es r strs] length_rows [of le_enum64 12 es] by (simp add: parse_kind_def btf_kinds)
next
  case (S_proto nm ty ps)
  have "parse_type sec strs p tid = parse_kind sec strs 13 (length ps) False ty (p + 12) (base_type strs tid 13 nm) \<and>
    drop (p + 12) sec = concat (map le_pair ps) @ r"
    using d ok S_proto by (intro parse_type_head) simp_all
  then show ?thesis using S_proto length_rows [of le_pair 8 ps] by (simp add: parse_kind_def btf_kinds)
next
  case (S_datasec nm sz vs)
  have "parse_type sec strs p tid = parse_kind sec strs 15 (length vs) False sz (p + 12) (base_type strs tid 15 nm) \<and>
    drop (p + 12) sec = concat (map le_triple vs) @ r"
    using d ok S_datasec by (intro parse_type_head) simp_all
  then show ?thesis using S_datasec length_rows [of le_triple 12 vs] by (simp add: parse_kind_def btf_kinds)
qed (use rows in simp_all)

lemma ref_kinds:
  assumes "kind = 2 \<or> kind = 7 \<or> kind = 8 \<or> kind = 9 \<or> kind = 10 \<or> kind = 11 \<or> kind = (12 :: u16)"
  shows "unat kind < 32" "parse_kind sec strs kind vlen kflag st p t = Some (t\<lparr>ref_type_id := st\<rparr>, p)"
proof -
  show "unat kind < 32" using assms by (elim disjE) simp_all
  show "parse_kind sec strs kind vlen kflag st p t = Some (t\<lparr>ref_type_id := st\<rparr>, p)"
    using assms by (elim disjE) (simp_all add: parse_kind_def btf_kinds)
qed

lemma parse_src:
  assumes d: "drop p sec = enc_src t @ r" and ok: "src_ok t"
  shows "parse_type sec strs p tid = Some (src_type strs tid t, p + length (enc_src t))"
proof (cases t)
  case (S_int nm sz enc)
  have "parse_type sec strs p tid = parse_kind sec strs 1 0 False sz (p + 12) (base_type strs tid 1 nm) \<and> drop (p + 12) sec = le32 enc @ r"
    using d S_int by (intro parse_type_head) simp_all
  then show ?thesis using S_int rd32_le [of "p + 12" sec "[]" enc r] by (simp add: parse_kind_def btf_kinds)
next
  case (S_ref kind nm ty)
  have k: "kind = 2 \<or> kind = 7 \<or> kind = 8 \<or> kind = 9 \<or> kind = 10 \<or> kind = 11 \<or> kind = 12" using ok S_ref by simp
  have "parse_type sec strs p tid = parse_kind sec strs kind 0 False ty (p + 12) (base_type strs tid kind nm)"
    using d S_ref parse_type_head [of p sec nm kind False 0 ty r strs tid] ref_kinds(1) [OF k] by simp
  then show ?thesis using S_ref ref_kinds(2) [OF k] by simp
next
  case (S_array nm elem idx n)
  have "parse_type sec strs p tid = parse_kind sec strs 3 0 False 0 (p + 12) (base_type strs tid 3 nm) \<and>
    drop (p + 12) sec = le32 elem @ le32 idx @ le32 n @ r"
    using d S_array by (intro parse_type_head) simp_all
  then show ?thesis using S_array rd32_le [of "p + 12" sec "[]" elem] rd32_le [of "p + 12" sec "le32 elem @ le32 idx" n r]
    by (simp add: parse_kind_def btf_kinds)
next
  case (S_var nm ty linkage)
  have "parse_type sec strs p tid = parse_kind sec strs 14 0 False ty (p + 12) (base_type strs tid 14 nm) \<and> drop (p + 12) sec = le32 linkage @ r"
    using d S_var by (intro parse_type_head) simp_all
  then show ?thesis using S_var by (simp add: parse_kind_def btf_kinds)
next
  case (S_float nm sz)
  have "parse_type sec strs p tid = parse_kind sec strs 16 0 False sz (p + 12) (base_type strs tid 16 nm) \<and> drop (p + 12) sec = r"
    using d S_float by (intro parse_type_head) simp_all
  then show ?thesis using S_float by (simp add: parse_kind_def btf_kinds)
qed (use parse_src_rows [OF d ok] in simp_all)

fun number_types :: "bytes \<Rightarrow> u32 \<Rightarrow> btf_src list \<Rightarrow> btf_type list" where
  "number_types strs tid [] = []"
| "number_types strs tid (t # ts) = src_type strs tid t # number_types strs (tid + 1) ts"

lemma types_loop_enc:
  "drop p sec = concat (map enc_src ts) \<Longrightarrow> list_all src_ok ts \<Longrightarrow> types_loop sec strs p tid acc = Some (acc @ number_types strs tid ts)"
proof (induction ts arbitrary: p tid acc)
  case Nil
  then show ?case by (simp add: types_loop.simps [of _ _ p])
next
  case (Cons t ts)
  have len: "12 \<le> length (enc_src t)" by (cases t) simp_all
  have d: "drop p sec = enc_src t @ concat (map enc_src ts)" using Cons.prems(1) by simp
  then have "length sec - p = length (enc_src t) + length (concat (map enc_src ts))" by (metis length_append length_drop)
  then have "p + 12 \<le> length sec" using len by linarith
  moreover have "parse_type sec strs p tid = Some (src_type strs tid t, p + length (enc_src t))"
    using Cons.prems(2) by (intro parse_src [OF d]) simp
  moreover have "drop (p + length (enc_src t)) sec = concat (map enc_src ts)"
    using d by (metis add.commute append_eq_conv_conj drop_drop)
  then have "types_loop sec strs (p + length (enc_src t)) (tid + 1) (acc @ [src_type strs tid t]) =
    Some ((acc @ [src_type strs tid t]) @ number_types strs (tid + 1) ts)"
    using Cons.prems(2) by (intro Cons.IH) simp_all
  ultimately show ?case by (simp add: types_loop.simps [of _ _ p])
qed

text \<open>A raw BTF file: the 24-byte header, the types, the strings.\<close>

definition btf_image :: "u16 \<Rightarrow> btf_src list \<Rightarrow> bytes \<Rightarrow> bytes" where
  "btf_image version ts strs =
     (let sec = concat (map enc_src ts)
      in le_of_word 2 btf_magic @ le_of_word 2 version @ le32 24 @ le32 0 @ le32 (of_nat (length sec)) @ le32 (of_nat (length sec)) @
         le32 (of_nat (length strs)) @ sec @ strs)"

lemma parse_btf_image:
  assumes "list_all src_ok ts" and "length (concat (map enc_src ts)) < 2 ^ 32" and "length strs < 2 ^ 32"
  shows "parse_btf (btf_image version ts strs) = Some (btf_void # number_types strs 1 ts)"
proof -
  let ?sec = "concat (map enc_src ts)" and ?d = "btf_image version ts strs"
  let ?h = "le_of_word 2 btf_magic @ le_of_word 2 version"
  let ?n = "of_nat (length ?sec) :: u32" and ?m = "of_nat (length strs) :: u32"
  have d: "drop 0 ?d = ?h @ le32 24 @ le32 0 @ le32 ?n @ le32 ?n @ le32 ?m @ ?sec @ strs" by (simp add: btf_image_def Let_def)
  have r: "rd32 ?d 4 = Some 24" "rd32 ?d 8 = Some 0" "rd32 ?d 12 = Some ?n" "rd32 ?d 16 = Some ?n" "rd32 ?d 20 = Some ?m"
    using rd32_le [of 0 ?d ?h 24] rd32_le [of 0 ?d "?h @ le32 24" 0] rd32_le [of 0 ?d "?h @ le32 24 @ le32 0" ?n]
      rd32_le [of 0 ?d "?h @ le32 24 @ le32 0 @ le32 ?n" ?n] rd32_le [of 0 ?d "?h @ le32 24 @ le32 0 @ le32 ?n @ le32 ?n" ?m] d
    by simp_all
  have nm: "unat ?n = length ?sec" "unat ?m = length strs" using assms(2,3) by (simp_all add: unat_of_nat del: length_concat)
  have "rd_u16 ?d 0 = Some btf_magic" by (simp add: rd_u16_def slice_get_def btf_image_def Let_def word_of_le_of_word)
  moreover have "slice_get ?d (24 + length ?sec) (24 + length ?sec + length strs) = Some strs" "slice_get ?d 24 (24 + length ?sec) = Some ?sec"
    by (simp_all add: slice_get_def btf_image_def Let_def del: length_concat)
  moreover have "types_loop ?sec strs 0 1 [btf_void] = Some ([btf_void] @ number_types strs 1 ts)"
    using assms(1) by (intro types_loop_enc) simp_all
  moreover have "\<not> length ?d < 24" by (simp add: btf_image_def Let_def)
  ultimately show ?thesis by (simp add: parse_btf_def r nm Let_def del: length_concat slice_get_Some)
qed

lemma number_types_nth: "i < length ts \<Longrightarrow> number_types strs tid ts ! i = src_type strs (tid + of_nat i) (ts ! i)"
  by (induction ts arbitrary: tid i) (auto simp: nth_Cons add.assoc split: nat.split)

lemma length_number_types [simp]: "length (number_types strs tid ts) = length ts"
  by (induction ts arbitrary: tid) auto

lemma src_type_id [simp]: "bt_id (src_type strs tid t) = tid"
  by (cases t) (simp_all add: base_type_def)

section \<open>Following references\<close>

definition next_ref :: "btf \<Rightarrow> btf_type \<Rightarrow> btf_type option" where
  "next_ref btf t = (if is_qualifier t then type_by_id btf (ref_type_id t) else None)"

fun resolve_within :: "btf \<Rightarrow> nat \<Rightarrow> btf_type \<Rightarrow> btf_type option" where
  "resolve_within btf 0 t = None"
| "resolve_within btf (Suc k) t = (case next_ref btf t of None \<Rightarrow> Some t | Some u \<Rightarrow> resolve_within btf k u)"

inductive ends :: "btf \<Rightarrow> nat \<Rightarrow> btf_type \<Rightarrow> btf_type \<Rightarrow> bool" for btf where
  ends_here: "next_ref btf t = None \<Longrightarrow> ends btf 0 t t"
| ends_next: "next_ref btf t = Some u \<Longrightarrow> ends btf n u r \<Longrightarrow> ends btf (Suc n) t r"

inductive_simps ends_0: "ends btf 0 t r"
inductive_simps ends_Suc: "ends btf (Suc n) t r"

lemma btf_resolve_next: "btf_resolve btf t = (case next_ref btf t of None \<Rightarrow> Some t | Some u \<Rightarrow> btf_resolve btf u)"
  by (subst btf_resolve.simps) (simp add: next_ref_def split: option.split)

lemma ends_unique: "ends btf n t r \<Longrightarrow> ends btf m t r' \<Longrightarrow> n = m"
proof (induction n arbitrary: t m)
  case 0
  then show ?case by (cases m) (simp_all add: ends_0 ends_Suc)
next
  case (Suc n)
  then obtain u where u: "next_ref btf t = Some u" "ends btf n u r" by (auto simp: ends_Suc)
  then show ?case using Suc by (cases m) (simp_all add: ends_0 ends_Suc)
qed

lemma ends_within: "ends btf n t r \<longleftrightarrow> resolve_within btf (Suc n) t = Some r \<and> resolve_within btf n t = None"
proof (induction n arbitrary: t)
  case 0
  show ?case by (cases "next_ref btf t") (auto simp: ends_0)
next
  case (Suc n)
  show ?case using Suc by (cases "next_ref btf t") (simp_all add: ends_Suc)
qed

lemma resolve_within_mono: "resolve_within btf k t = Some r \<Longrightarrow> k \<le> m \<Longrightarrow> resolve_within btf m t = Some r"
proof (induction k arbitrary: t m)
  case (Suc k)
  then obtain l where "m = Suc l" "k \<le> l" by (cases m) auto
  then show ?case using Suc by (auto split: option.splits)
qed simp

lemma resolve_within_sound: "resolve_within btf k t = Some r \<Longrightarrow> btf_resolve btf t = Some r"
proof (induction k arbitrary: t)
  case (Suc k)
  show ?case
  proof (cases "next_ref btf t")
    case None
    then have "r = t" using Suc.prems by simp
    then show ?thesis using None by (subst btf_resolve_next) simp
  next
    case (Some u)
    then show ?thesis using Suc by (simp add: btf_resolve_next [of btf t])
  qed
qed simp

lemma btf_resolve_ends:
  assumes "btf_resolve btf t = Some r"
  shows "\<exists>n. ends btf n t r"
proof (rule btf_resolve.raw_induct [OF _ assms])
  fix f btf t r
  assume IH: "\<And>btf t r. f btf t = Some r \<Longrightarrow> \<exists>n. ends btf n t r"
    and r: "(if is_qualifier t then (case type_by_id btf (ref_type_id t) of None \<Rightarrow> Some t | Some n \<Rightarrow> f btf n) else Some t) = Some r"
  show "\<exists>n. ends btf n t r"
  proof (cases "next_ref btf t")
    case None
    then have "r = t" using r by (auto simp: next_ref_def split: if_splits option.splits)
    then show ?thesis using None ends_here by blast
  next
    case (Some u)
    then have "f btf u = Some r" using r by (auto simp: next_ref_def split: if_splits)
    then show ?thesis using IH Some ends_next by blast
  qed
qed

lemma ends_distinct:
  "ends btf n t r \<Longrightarrow> \<exists>us. length us = n \<and> distinct us \<and> set us \<subseteq> set btf \<and> (\<forall>u \<in> set us. \<exists>m < n. ends btf m u r)"
proof (induction rule: ends.induct)
  case (ends_next t u n r)
  then obtain us where us: "length us = n" "distinct us" "set us \<subseteq> set btf" "\<forall>u \<in> set us. \<exists>m < n. ends btf m u r" by blast
  have "u \<notin> set us" using us(4) ends_unique [OF ends_next.hyps(2)] by fastforce
  moreover have "u \<in> set btf" using ends_next.hyps(1) by (auto simp: next_ref_def type_by_id_def nth_opt_def split: if_splits)
  moreover have "\<forall>v \<in> set (u # us). \<exists>m < Suc n. ends btf m v r"
    using us(4) ends_next.hyps(2) by (metis less_Suc_eq set_ConsD)
  ultimately show ?case using us(1-3) by (intro exI [of _ "u # us"]) simp
qed simp

section \<open>Properties\<close>

text \<open>C39. Opening a raw BTF file reads back every type it declares: integers, references, arrays, structs and unions with
  their members (bit-field offsets included), 32- and 64-bit enumerations, prototypes, variables, data sections and
  floats, in order, and the type found under an id is the one numbered so.\<close>

theorem btf_open_image:
  assumes "list_all src_ok ts" and "length (concat (map enc_src ts)) < 2 ^ 32" and "length strs < 2 ^ 32" and "length ts < 2 ^ 32 - 1"
  shows "\<exists>btf. btf_open (Some (btf_image version ts strs)) = Some (Some btf) \<and> length btf = Suc (length ts) \<and>
    (\<forall>i < length ts. type_by_id btf (of_nat (Suc i)) = Some (src_type strs (of_nat (Suc i)) (ts ! i)))"
proof -
  let ?btf = "btf_void # number_types strs 1 ts" and ?d = "btf_image version ts strs"
  have "\<not> is_elf ?d"
    by (simp add: is_elf_def btf_image_def Let_def btf_magic_def le_of_word_def upt_rec)
  moreover have "\<not> length ?d < 24" by (simp add: btf_image_def Let_def)
  ultimately have "btf_open (Some ?d) = Some (Some ?btf)" using parse_btf_image [OF assms(1-3)] by (simp add: btf_open_def)
  moreover have "type_by_id ?btf (of_nat (Suc i)) = Some (src_type strs (of_nat (Suc i)) (ts ! i))" if "i < length ts" for i
  proof -
    have "unat (of_nat (Suc i) :: u32) = Suc i" using that assms(4) by (simp add: unat_of_nat del: of_nat_Suc)
    then show ?thesis using that by (simp add: type_by_id_def nth_opt_def number_types_nth del: of_nat_Suc) simp
  qed
  ultimately show ?thesis by (intro exI [of _ ?btf]) simp
qed

theorem btf_open_image_witness:
  "\<exists>btf. btf_open (Some (btf_image 1 [S_int 0 4 32, S_ref 8 0 1] [0])) = Some (Some btf) \<and>
     type_by_id btf 2 = Some (src_type [0] 2 (S_ref 8 0 1))"
proof -
  let ?ts = "[S_int 0 4 32, S_ref 8 0 1]"
  obtain btf where btf: "btf_open (Some (btf_image 1 ?ts [0])) = Some (Some btf)"
    "\<forall>i < length ?ts. type_by_id btf (of_nat (Suc i)) = Some (src_type [0] (of_nat (Suc i)) (?ts ! i))"
    using btf_open_image [of ?ts "[0]" 1] by auto
  have "1 < length ?ts" by simp
  with btf(2) have "type_by_id btf (of_nat (Suc 1)) = Some (src_type [0] (of_nat (Suc 1)) (?ts ! 1))" by blast
  then have "type_by_id btf 2 = Some (src_type [0] 2 (S_ref 8 0 1))" by simp
  with btf(1) show ?thesis by blast
qed

text \<open>C40. Stripping qualifiers returns exactly when the chain of references ends within as many steps as there are types,
  and then with the end of the chain; on every other type - a cycle of typedefs, which the parser accepts - the loop
  never returns.\<close>

theorem btf_resolve_decides: "btf_resolve btf t = resolve_within btf (Suc (length btf)) t"
proof (cases "btf_resolve btf t")
  case None
  then show ?thesis using resolve_within_sound by (cases "resolve_within btf (Suc (length btf)) t") fastforce+
next
  case (Some r)
  then obtain n where n: "ends btf n t r" using btf_resolve_ends by blast
  obtain us where "length us = n" "distinct us" "set us \<subseteq> set btf" using ends_distinct [OF n] by blast
  then have "n \<le> length btf" by (metis List.finite_set card_length card_mono distinct_card le_trans)
  moreover have "resolve_within btf (Suc n) t = Some r" using n ends_within by blast
  ultimately show ?thesis using Some resolve_within_mono [of btf "Suc n" t r "Suc (length btf)"] by simp
qed

end
