(* ===== verification/Spec2Isabelle.thy ===== *)
theory Spec2Isabelle
  imports Dwarf_Symbolizer Report_Spec Inflate_Spec Fuzz_Edges Fuzz_Mutate Prog_Print Prog_Mutate Prog_Copyin Hw_Engine Btf_Parse
begin

text \<open>
  \<^bold>\<open>Verification of vock.\<close> vock runs a program, records which kernel code it reaches (KCOV or a hardware trace), turns the
  program counters (PCs) into source locations and reports them; it also replays, mutates and minimises programs of
  system calls. This library models the computing parts of it as HOL functions and proves what makes them correct. File
  names below are relative to \<^verbatim>\<open>src/vock/src\<close>.

  \<^bold>\<open>Parts and how they interact.\<close> A run leaves a log of kernel PCs. The report looks every PC up with the DWARF symbolizer
  (\<^verbatim>\<open>dwarf/\<close>) and aggregates the locations (\<^verbatim>\<open>report/\<close>). A hardware run produces that log by decoding a trace
  (\<^verbatim>\<open>mode/engine.rs\<close>). The fuzzer loads logs as coverage sets, keeps a corpus by edge signal, and parses, mutates
  and lays out programs in an arena before executing them (\<^verbatim>\<open>fuzz/\<close>).

  \<^bold>\<open>Conventions.\<close> A fixed-width integer is a word of that width (arithmetic wraps, as in the release profile); \<^verbatim>\<open>usize\<close> is
  a natural number except where file contents can make a sum wrap, and there it is a 64-bit word. A string is its UTF-8
  byte list (\<open>lit ''abc''\<close>). \<^verbatim>\<open>Option\<close> and \<^verbatim>\<open>?\<close> are \<open>option\<close>; a panic is \<open>None\<close>, and where a function
  can both panic and return \<^verbatim>\<open>None\<close> the type is a nested option. Mutable state is a record passed along. What is read
  from files, devices and the environment is an argument.

  \<^bold>\<open>Theories.\<close>
  \<^item> \<open>Prelude\<close>, \<open>Rust_Str\<close>: checked slices, sorted-table searches, little-endian words; lossy UTF-8, trimming, splitting, number
    parsing and printing. Across the library the locales \<open>sorted_table\<close>, \<open>reader\<close>, \<open>strict_reader\<close>, \<open>memo\<close>, \<open>index_source\<close> and \<open>frame_store\<close> state the
    interfaces the components rely on; each is interpreted on the definitions of the component that provides it.
  \<^item> \<open>Dwarf_Reader\<close>, \<open>Dwarf_Leb\<close>, \<open>Dwarf_Abbrev\<close>, \<open>Dwarf_Elf\<close>, \<open>Dwarf_Unit\<close>, \<open>Dwarf_Line\<close>, \<open>Dwarf_Symbolizer\<close>: the files of \<^verbatim>\<open>dwarf/\<close> of
    the same names (\<^verbatim>\<open>mod.rs\<close> is the symbolizer). Reads stay in their section; LEB128 and abbreviation tables round trip; a
    line program runs to the rows it describes; symbol, line and function searches meet their specifications; and the answer
    for a PC does not depend on the caches, that is on earlier queries.
  \<^item> \<open>Report_Resolve\<close>, \<open>Report_Spec\<close>: \<^verbatim>\<open>report/resolve.rs\<close>, \<^verbatim>\<open>symbolize.rs\<close>, \<^verbatim>\<open>kaslr.rs\<close>. Canonical function names, the
    padding of what an external symbolizer prints (its output is an argument), and the coverage map: what every form of a
    printed location adds to it, and where a path belongs in the kernel tree.
  \<^item> \<open>Inflate\<close>, \<open>Inflate_Spec\<close>: \<^verbatim>\<open>fuzz/inflate.rs\<close>. Any base64 text of a zlib stream of stored, fixed and dynamic blocks decodes
    to the expansion of the blocks, and the output never exceeds its limit.
  \<^item> \<open>Fuzz_Rng\<close>, \<open>Fuzz_Sets\<close>, \<open>Fuzz_Edges\<close>, \<open>Fuzz_Mutate\<close>: \<^verbatim>\<open>fuzz/rng.rs\<close>, \<^verbatim>\<open>covset.rs\<close>, \<^verbatim>\<open>signal.rs\<close>, \<^verbatim>\<open>state.rs\<close>,
    \<^verbatim>\<open>signal_edge.rs\<close>, \<^verbatim>\<open>mutate.rs\<close>. Set counts, corpus invariants over all reachable corpora, minimisation, and mutation of
    call traces without panics. \<open>Syscall_Table\<close>: \<^verbatim>\<open>syscall/tables.rs\<close> and the reverse lookup of \<^verbatim>\<open>syscall/mod.rs\<close>.
  \<^item> \<open>Prog_Parse\<close>, \<open>Prog_Print\<close>, \<open>Prog_Mutate\<close>, \<open>Prog_Arena\<close>, \<open>Prog_Csum\<close>, \<open>Prog_Copyin\<close>: \<^verbatim>\<open>fuzz/prog_decode.rs\<close> and
    \<^verbatim>\<open>fuzz/prog_mutate.rs\<close>. Printed programs parse back; mutation keeps the wiring of calls; allocation is first fit; placed
    objects do not overlap while the arena has room; a prepared call finds its objects, pointers and checksums in the arena.
  \<^item> \<open>Pt_Packet\<close>, \<open>Pt_Insn\<close>, \<open>Pt_Decoder\<close>, \<open>Pt_Spec\<close>, \<open>Pt_Walk\<close>, \<open>Hw_Engine\<close>: \<^verbatim>\<open>mode/engine.rs\<close>. The packet length table, the
    instruction decoder, the two Intel PT decoders, the loading of the kernel text from an ELF image, and the AMD sample rings. A trace of packets
    decodes to their addresses; the decoders agree without kernel text; a TNT packet is exactly the big-step walk of its
    outcomes.
  \<^item> \<open>Btf_Parse\<close>: \<^verbatim>\<open>fuzz/btf.rs\<close>. Raw BTF files read back; the resolution of qualifiers is decided.
  \<^item> This theory: the log that passes from the hardware engine to the coverage set of the fuzzer.

  \<^bold>\<open>Loops and bounds.\<close> Loops that always end are structural or carry a termination proof, such as the packet loops, whose position
  grows because a defined packet has a positive length. The argument-list loop of the program parser runs on fuel, one round per
  byte, and is proved never to run out of it. Three loops of the source need not end and are partial functions with \<open>None\<close> for
  not returning: the trace walk (\<open>tnt_loop\<close>), the ring drain (\<open>drain_loop\<close>) and \<open>btf_resolve\<close>. For each it is proved when it returns
  and that it fails to return on the inputs named there. Format limits are those of the code: eleven LEB128 bytes, 63 outcomes in a
  TNT window, 32 branches of a sample, the arena and corpus sizes.

  \<^bold>\<open>Not modelled.\<close> Code whose content is its system calls: execution of programs and pseudo system calls
  (\<^verbatim>\<open>fuzz/prog_exec.rs\<close>, \<^verbatim>\<open>prog2c_exec.rs\<close>, \<^verbatim>\<open>pseudo_syscalls.rs\<close>, \<^verbatim>\<open>pseudo_ext.rs\<close>, \<^verbatim>\<open>fuzz.rs\<close>), the tracing
  backends (\<^verbatim>\<open>syscall/ptrace.rs\<close>, \<^verbatim>\<open>sud.rs\<close>, \<^verbatim>\<open>ebpf.rs\<close>), the coverage modes (\<^verbatim>\<open>mode/kcov.rs\<close>, \<^verbatim>\<open>mode/hw.rs\<close>), the
  opening and mapping of perf events in \<^verbatim>\<open>mode/engine.rs\<close>, the preload shim \<^verbatim>\<open>kcov-preload\<close>, and the mapping and prefaulting
  of files in \<^verbatim>\<open>dwarf/mod.rs\<close>. Code that only formats or parses options: \<^verbatim>\<open>report/mod.rs\<close>, \<^verbatim>\<open>html.rs\<close>, \<^verbatim>\<open>terminal.rs\<close>,
  \<^verbatim>\<open>timing.rs\<close>, \<^verbatim>\<open>syscall/decode.rs\<close>, \<^verbatim>\<open>prog2c.rs\<close>, \<^verbatim>\<open>main.rs\<close>, \<^verbatim>\<open>execprog.rs\<close>, \<^verbatim>\<open>util.rs\<close> and the self tests. Pure
  code not covered: \<^verbatim>\<open>fuzz/btf_mutate.rs\<close>, \<^verbatim>\<open>fuzz/types.rs\<close>, \<^verbatim>\<open>report/btf.rs\<close>. Messages on standard error are left out
  throughout, and so is concurrency: the symbolizer is used through one lock, the other components by one thread.
\<close>

section \<open>The trace log between the hardware engine and the fuzzer\<close>

lemma pc_line_0x: "pc_line pc = show_0x pc @ [0x0a]"
  by (simp add: pc_line_def show_0x_def)

lemma show_0x_no_newline: "0x0a \<notin> set (show_0x pc)" "show_0x pc \<noteq> []" "strip_cr (show_0x pc) = show_0x pc"
proof -
  have v: "list_all visible (show_0x pc)" by (rule list_all_mono [OF show_0x_alnum alnum_visible])
  then show "0x0a \<notin> set (show_0x pc)" by (auto simp: list_all_iff visible_def)
  show ne: "show_0x pc \<noteq> []" by (simp add: show_0x_def lit_def)
  then have "visible (last (show_0x pc))" using v by (simp add: list_all_iff)
  then show "strip_cr (show_0x pc) = show_0x pc" by (auto simp: strip_cr_def visible_def)
qed

lemma str_lines_pcs: "str_lines (concat (map pc_line pcs)) = map show_0x pcs"
proof -
  have "split_on 0x0a (concat (map pc_line pcs)) = map show_0x pcs @ [[]]"
  proof (induction pcs)
    case (Cons pc pcs)
    then show ?case using split_on_app [of "0x0a" "show_0x pc" "concat (map pc_line pcs)"] by (simp add: pc_line_0x [of pc] show_0x_no_newline)
  qed simp
  then show ?thesis by (simp add: str_lines_def show_0x_no_newline)
qed

lemma log_pc_show:
  assumes "is_kernel pc"
  shows "log_pc (show_0x pc) = Some pc"
proof -
  have "str_trim (show_0x pc) = show_0x pc" by (intro str_trim_all list_all_mono [OF show_0x_alnum alnum_visible])
  moreover have "strip_prefix (lit ''0x'') (show_0x pc) = Some (show_hex (unat pc))" by (simp add: strip_prefix_Some show_0x_def)
  moreover have "parse_u64_radix 16 (show_hex (unat pc)) = Some pc"
    using parse_unsigned_show [of 16 "unat pc" "2 ^ 64"] unsigned_less [where ?'a = nat, of pc] by (simp add: parse_u64_radix_def show_hex_def)
  moreover have "pc \<noteq> 0" using assms by (auto simp: is_kernel_def)
  ultimately show ?thesis by (simp add: log_pc_def)
qed

lemma kernel_log_loads:
  assumes "list_all is_kernel pcs"
  shows "covset_load_file (Some (concat (map pc_line pcs))) (covset_new cap) =
    (True, covset_sort_dedup \<lparr>cs_pcs = take cap pcs, cs_cap = cap\<rparr>)"
proof -
  have "List.map_filter log_pc (map show_0x pcs) = pcs"
    using assms by (induction pcs) (simp_all add: List.map_filter_simps log_pc_show)
  then show ?thesis by (simp add: covset_load_file_def covset_add_all str_lines_pcs covset_new_def)
qed

text \<open>C33. The trace decoder and the coverage set agree on the log between them: what the Intel PT engine writes loads as the
  strictly sorted set of the kernel addresses it decoded - the first \<open>cap\<close> of them, the capacity of the set - and the
  number of addresses is the count the engine reports.\<close>

theorem pt_log_loads:
  assumes "intel_pt_decode aux aux_head vmlinux = Some (Some (out, n))"
  shows "\<exists>pcs s. list_all is_kernel pcs \<and> out = concat (map pc_line pcs) \<and> n = of_nat (length pcs) \<and>
    covset_load_file (Some out) (covset_new cap) = (True, s) \<and> sorted_wrt (<) (cs_pcs s) \<and> set (cs_pcs s) = set (take cap pcs)"
proof -
  obtain pcs where pcs: "list_all is_kernel pcs" "out = concat (map pc_line pcs)" "n = of_nat (length pcs)"
    using intel_pt_log [OF assms] by (auto simp: kernel_log_def)
  moreover have "covset_load_file (Some out) (covset_new cap) = (True, covset_sort_dedup \<lparr>cs_pcs = take cap pcs, cs_cap = cap\<rparr>)"
    using kernel_log_loads [OF pcs(1)] pcs(2) by simp
  ultimately show ?thesis using covset_sort_dedup_spec [of "\<lparr>cs_pcs = take cap pcs, cs_cap = cap\<rparr>"] by auto
qed

theorem pt_log_loads_witness:
  "\<exists>out n s. intel_pt_decode (Some [0x6d, 0x10, 0x00, 0x00, 0x81, 0xff, 0xff]) 7 None = Some (Some (out, n)) \<and>
     covset_load_file (Some out) (covset_new 4) = (True, s) \<and> sorted_wrt (<) (cs_pcs s)"
proof -
  obtain n out where "tip_only_decode [0x6d, 0x10, 0x00, 0x00, 0x81, 0xff, 0xff] [] = (n, out)" by fastforce
  then have d: "intel_pt_decode (Some [0x6d, 0x10, 0x00, 0x00, 0x81, 0xff, 0xff]) 7 None = Some (Some (out, n))"
    by (simp add: intel_pt_decode_def)
  then show ?thesis using pt_log_loads [OF d, of 4] by blast
qed

end
